(* ===== verification/Aesd_Prelude.thy ===== *)
theory Aesd_Prelude
  imports Main "HOL-Library.Word" "HOL-Library.Monad_Syntax"
begin

text \<open>
  What the component theories share: the machine types of the C code on its 64-bit target, memory
  accesses that can fail, the conversions between \<open>size_t\<close> and \<open>int\<close>, and generic lemmas on
  lists, options and words.

  Conventions. A computation of the model has type \<open>'a option\<close>: \<open>None\<close> stands for a run of the
  C code that has no defined result (a NULL or dangling pointer is followed, an array or an allocated
  block is left, a loop does not end). An error the code reports (\<open>-EFAULT\<close>, an exit status) is
  an ordinary value inside \<open>Some\<close>. Sequential composition is the \<open>do\<close> notation of
  \<open>Option.bind\<close>.
\<close>

section \<open>Machine types\<close>

type_synonym byte = "8 word"
type_synonym u8 = "8 word"
type_synonym u32 = "32 word"
type_synonym i32 = "32 word"
type_synonym u64 = "64 word"
type_synonym i64 = "64 word"
type_synonym ptr = "64 word"

text \<open>The newline byte that ends a command.\<close>

definition newline :: byte where
  "newline = 10"

text \<open>A \<open>size_t\<close> stored in an \<open>int\<close> is cut to its low 32 bits; an \<open>int\<close> used in \<open>size_t\<close>
  arithmetic is sign-extended.\<close>

definition size_to_int :: "u64 \<Rightarrow> i32" where
  "size_to_int n = ucast n"

definition int_to_size :: "i32 \<Rightarrow> u64" where
  "int_to_size i = scast i"

section \<open>Checked accesses\<close>

named_theorems access_simps \<open>rewriting of checked accesses whose bounds are known\<close>

text \<open>Reading and writing one cell of a C array; outside it the access is undefined.\<close>

definition arr_get :: "'a list \<Rightarrow> nat \<Rightarrow> 'a option" where
  "arr_get xs i = (if i < length xs then Some (xs ! i) else None)"

definition arr_set :: "'a list \<Rightarrow> nat \<Rightarrow> 'a \<Rightarrow> 'a list option" where
  "arr_set xs i x = (if i < length xs then Some (xs[i := x]) else None)"

lemma arr_get_in [access_simps]: "i < length xs \<Longrightarrow> arr_get xs i = Some (xs ! i)"
  by (simp add: arr_get_def)

lemma arr_set_in [access_simps]: "i < length xs \<Longrightarrow> arr_set xs i x = Some (xs[i := x])"
  by (simp add: arr_set_def)

lemma arr_get_out: "length xs \<le> i \<Longrightarrow> arr_get xs i = None"
  by (simp add: arr_get_def)

lemma arr_get_Some_iff: "arr_get xs i = Some x \<longleftrightarrow> i < length xs \<and> xs ! i = x"
  by (auto simp: arr_get_def)

text \<open>A null test that faults: following \<open>None\<close> is undefined.\<close>

lemma bind_Some_iff: "Option.bind m f = Some y \<longleftrightarrow> (\<exists>x. m = Some x \<and> f x = Some y)"
  by (cases m) auto

section \<open>Words\<close>

lemma int_to_size_to_int:
  assumes "unat n < 2 ^ 31"
  shows "int_to_size (size_to_int n) = n"
proof -
  have "int (unat n) < int (2 ^ 31)"
    using assms by (simp only: of_nat_less_iff)
  then have n: "uint n < 2 ^ 31"
    by simp
  have "sint (ucast n :: i32) = signed_take_bit 31 (uint n)"
    by (simp add: signed_ucast_eq)
  also have "\<dots> = uint n"
    using n by (intro signed_take_bit_int_eq_self) (auto intro: order_trans [OF _ uint_ge_0])
  finally show ?thesis
    by (simp add: int_to_size_def size_to_int_def scast_eq)
qed

lemma unat_add_nowrap: "unat a + unat b < 2 ^ 64 \<Longrightarrow> unat (a + b :: u64) = unat a + unat b"
  by (simp add: unat_word_ariths)

lemma unat_sub_le: "b \<le> (a :: u64) \<Longrightarrow> unat (a - b) = unat a - unat b"
  by (simp add: unat_sub)

lemma unat_of_nat_u8: "n < 256 \<Longrightarrow> unat (word_of_nat n :: u8) = n"
  by (simp add: unat_of_nat take_bit_nat_eq_self)

lemma unat_of_nat_u64: "n < 2 ^ 64 \<Longrightarrow> unat (word_of_nat n :: u64) = n"
  by (simp add: unat_of_nat take_bit_nat_eq_self)

lemma unat_ucast_u32: "unat (ucast (x :: u32) :: u64) = unat x"
proof -
  have "unat x < 2 ^ 32" using unsigned_less [of x] by simp
  then have "unat x < 2 ^ 64" by simp
  then show ?thesis by (simp add: unsigned_ucast_eq take_bit_nat_eq_self)
qed

section \<open>The last elements of a list\<close>

definition keep_last :: "nat \<Rightarrow> 'a list \<Rightarrow> 'a list" where
  "keep_last n xs = drop (length xs - n) xs"

lemma length_keep_last [simp]: "length (keep_last n xs) = min n (length xs)"
  by (simp add: keep_last_def)

lemma keep_last_short [simp]: "length xs \<le> n \<Longrightarrow> keep_last n xs = xs"
  by (simp add: keep_last_def)

lemma keep_last_suffix: "\<exists>ys. xs = ys @ keep_last n xs"
  by (metis append_take_drop_id keep_last_def)

lemma set_keep_last: "set (keep_last n xs) \<subseteq> set xs"
  by (simp add: keep_last_def set_drop_subset)

lemma distinct_keep_last: "distinct xs \<Longrightarrow> distinct (keep_last n xs)"
  by (simp add: keep_last_def)

lemma keep_last_append_absorb:
  "keep_last n (keep_last n xs @ ys) = keep_last n (xs @ ys)"
proof (cases "length xs \<le> n")
  case False
  obtain zs where zs: "xs = zs @ keep_last n xs"
    using keep_last_suffix by blast
  have ks: "length (keep_last n xs) = n"
    using False by simp
  have "keep_last n (zs @ (keep_last n xs @ ys)) = drop (length zs + length ys) (zs @ (keep_last n xs @ ys))"
    unfolding keep_last_def [of n "zs @ _"] using ks by simp
  also have "\<dots> = drop (length ys) (keep_last n xs @ ys)"
    by simp
  also have "\<dots> = keep_last n (keep_last n xs @ ys)"
    unfolding keep_last_def [of n "_ @ ys"] using ks by simp
  finally show ?thesis
    using zs by (metis append.assoc)
qed simp

lemma keep_last_snoc_full:
  "length xs = n \<Longrightarrow> 0 < n \<Longrightarrow> keep_last n (xs @ [x]) = tl xs @ [x]"
  by (simp add: keep_last_def drop_Suc)


lemma keep_last_map: "keep_last n (map f xs) = map f (keep_last n xs)"
  by (simp add: keep_last_def drop_map)

lemma sum_list_le_length: "(\<And>x. x \<in> set xs \<Longrightarrow> x \<le> (m::nat)) \<Longrightarrow> sum_list xs \<le> length xs * m"
proof (induction xs)
  case (Cons x xs)
  then have "sum_list xs \<le> length xs * m" "x \<le> m" by simp_all
  then show ?case by simp
qed simp

section \<open>Loops that can fault\<close>

text \<open>Running a step over a list from left to right; the first fault is the result.\<close>

fun fold_opt :: "('a \<Rightarrow> 's \<Rightarrow> 's option) \<Rightarrow> 'a list \<Rightarrow> 's \<Rightarrow> 's option" where
  "fold_opt f [] s = Some s"
| "fold_opt f (x # xs) s = Option.bind (f x s) (fold_opt f xs)"

lemma fold_opt_append:
  "fold_opt f (xs @ ys) s = Option.bind (fold_opt f xs s) (fold_opt f ys)"
proof (induction xs arbitrary: s)
  case (Cons x xs)
  then show ?case by (cases "f x s") simp_all
qed simp

lemma fold_opt_total: "fold_opt (\<lambda>x s. Some (g x s)) xs s = Some (fold g xs s)"
  by (induction xs arbitrary: s) simp_all

lemma fold_opt_replicate:
  "f x s = Some s \<Longrightarrow> fold_opt f (replicate n x) s = Some s"
  by (induction n) simp_all

end
