(* ===== verification/Circular_Buffer.thy ===== *)
theory Circular_Buffer
  imports Aesd_Prelude "HOL-Library.Multiset"
begin

text \<open>
  The circular buffer of \<^verbatim>\<open>aesd-char-driver/aesd-circular-buffer.c\<close> and its header: ten slots that hold
  the most recent write commands, an insertion index, an extraction index and the full flag. The
  section on the model translates the three functions and the \<open>FOREACH\<close> macro; the section on
  the contract gives the FIFO view of a buffer, its representation invariant and the refinement of
  every operation; the locale at the end is the interface the driver builds on.
\<close>

section \<open>The model\<close>

definition AESDCHAR_MAX_WRITE_OPERATIONS_SUPPORTED :: nat where
  "AESDCHAR_MAX_WRITE_OPERATIONS_SUPPORTED = 10"

abbreviation max_ops :: nat where
  "max_ops \<equiv> AESDCHAR_MAX_WRITE_OPERATIONS_SUPPORTED"

lemma max_ops [simp]: "max_ops = 10"
  by (simp add: AESDCHAR_MAX_WRITE_OPERATIONS_SUPPORTED_def)

text \<open>\<open>struct aesd_buffer_entry\<close> (the field \<open>size\<close> is named \<open>esize\<close> here) and
  \<open>struct aesd_circular_buffer\<close>. The array is a list of ten cells; an access outside it is
  undefined.\<close>

record aesd_buffer_entry =
  buffptr :: ptr
  esize :: u64

record aesd_circular_buffer =
  entry :: "aesd_buffer_entry list"
  in_offs :: u8
  out_offs :: u8
  full :: bool

definition null_entry :: aesd_buffer_entry where
  "null_entry = \<lparr>buffptr = 0, esize = 0\<rparr>"

text \<open>
  The do-while loop of \<open>aesd_circular_buffer_find_entry_offset_for_fpos\<close>: \<open>idx\<close> is
  \<open>element_idx\<close> and \<open>curr_offs\<close> is \<open>curr_char_offs\<close>. The size of the current element goes through
  an \<open>int\<close> in the comparison and is used at full width in the sum, as in the code. The
  result is the index of the returned slot with the byte offset in it, or the code's NULL (the inner
  \<open>None\<close>).
\<close>

partial_function (option) find_loop ::
  "aesd_circular_buffer \<Rightarrow> u64 \<Rightarrow> nat \<Rightarrow> u64 \<Rightarrow> (nat \<times> u64) option option" where
  "find_loop b char_offset idx curr_offs =
     do {
       e \<leftarrow> arr_get (entry b) idx;
       let curr_ele_size = size_to_int (esize e);
       if char_offset < curr_offs + int_to_size curr_ele_size
       then Some (Some (idx, char_offset - curr_offs))
       else do {
         let curr_offs' = curr_offs + esize e;
         let idx' = (idx + 1) mod max_ops;
         if idx' \<noteq> unat (in_offs b) then find_loop b char_offset idx' curr_offs' else Some None
       }
     }"

definition aesd_circular_buffer_find_entry_offset_for_fpos ::
  "aesd_circular_buffer \<Rightarrow> u64 \<Rightarrow> (nat \<times> u64) option option" where
  "aesd_circular_buffer_find_entry_offset_for_fpos b char_offset =
     (if out_offs b = in_offs b \<and> full b = False then Some None
      else find_loop b char_offset (unat (out_offs b)) 0)"

text \<open>
  \<open>aesd_circular_buffer_add_entry\<close>: the pointer that was in the slot is returned, the entry is
  stored, both indices advance modulo ten (in \<open>int\<close> arithmetic, then cut to \<open>uint8_t\<close>).
\<close>

definition advance :: "u8 \<Rightarrow> u8" where
  "advance i = word_of_nat ((unat i + 1) mod max_ops)"

definition aesd_circular_buffer_add_entry ::
  "aesd_circular_buffer \<Rightarrow> aesd_buffer_entry \<Rightarrow> (ptr \<times> aesd_circular_buffer) option" where
  "aesd_circular_buffer_add_entry b add_entry =
     do {
       old \<leftarrow> arr_get (entry b) (unat (in_offs b));
       let ptr = buffptr old;
       es \<leftarrow> arr_set (entry b) (unat (in_offs b)) add_entry;
       let b = b\<lparr>entry := es\<rparr>;
       let b = (if True = full b then b\<lparr>out_offs := advance (out_offs b)\<rparr> else b);
       let b = b\<lparr>in_offs := advance (in_offs b)\<rparr>;
       let b = b\<lparr>full := (if in_offs b = out_offs b then True else False)\<rparr>;
       Some (ptr, b)
     }"

text \<open>\<open>memset\<close> of the whole structure to zero.\<close>

definition aesd_circular_buffer_init :: "aesd_circular_buffer" where
  "aesd_circular_buffer_init =
     \<lparr>entry = replicate max_ops null_entry, in_offs = 0, out_offs = 0, full = False\<rparr>"

text \<open>
  The macro \<open>AESD_CIRCULAR_BUFFER_FOREACH\<close>: a counting loop over all ten slots, with the loop
  body as a parameter. The final value of the index variable stays visible after the loop.
\<close>

function foreach_from ::
  "nat \<Rightarrow> aesd_circular_buffer \<Rightarrow> (aesd_buffer_entry \<Rightarrow> 's \<Rightarrow> 's option) \<Rightarrow> 's \<Rightarrow> ('s \<times> nat) option" where
  "foreach_from index b body s =
     (if index < max_ops
      then do { e \<leftarrow> arr_get (entry b) index; s' \<leftarrow> body e s; foreach_from (index + 1) b body s' }
      else Some (s, index))"
  by pat_completeness auto
termination
  by (relation "measure (\<lambda>(index, b, body, s). max_ops - index)") auto

declare foreach_from.simps [simp del]

definition AESD_CIRCULAR_BUFFER_FOREACH ::
  "aesd_circular_buffer \<Rightarrow> (aesd_buffer_entry \<Rightarrow> 's \<Rightarrow> 's option) \<Rightarrow> 's \<Rightarrow> ('s \<times> nat) option" where
  "AESD_CIRCULAR_BUFFER_FOREACH b body s = foreach_from 0 b body s"

section \<open>The contract: a bounded FIFO\<close>

text \<open>The number of stored entries, the slot of the \<open>k\<close>-th oldest one, and the stored entries
  from the oldest to the newest.\<close>

definition ring_count :: "aesd_circular_buffer \<Rightarrow> nat" where
  "ring_count b =
     (if full b then max_ops else (unat (in_offs b) + max_ops - unat (out_offs b)) mod max_ops)"

definition ring_slot :: "aesd_circular_buffer \<Rightarrow> nat \<Rightarrow> nat" where
  "ring_slot b k = (unat (out_offs b) + k) mod max_ops"

definition ring_list :: "aesd_circular_buffer \<Rightarrow> aesd_buffer_entry list" where
  "ring_list b = map (\<lambda>k. entry b ! ring_slot b k) [0..<ring_count b]"

text \<open>
  The representation invariant. Since entries are never removed, the extraction index moves only
  once the buffer is full and the buffer then stays full; before that the unused slots are zero.
\<close>

definition ring_inv :: "aesd_circular_buffer \<Rightarrow> bool" where
  "ring_inv b \<longleftrightarrow>
     length (entry b) = max_ops \<and> unat (in_offs b) < max_ops \<and> unat (out_offs b) < max_ops \<and>
     (if full b then in_offs b = out_offs b
      else out_offs b = 0 \<and> (\<forall>i < max_ops. unat (in_offs b) \<le> i \<longrightarrow> entry b ! i = null_entry))"

lemma ring_invD:
  assumes "ring_inv b"
  shows "length (entry b) = 10" "unat (in_offs b) < 10" "unat (out_offs b) < 10"
    "full b \<Longrightarrow> in_offs b = out_offs b" "\<not> full b \<Longrightarrow> out_offs b = 0"
    "\<not> full b \<Longrightarrow> unat (in_offs b) \<le> i \<Longrightarrow> i < 10 \<Longrightarrow> entry b ! i = null_entry"
  using assms by (auto simp: ring_inv_def split: if_splits)

lemma unat_advance: "unat (advance i) = (unat i + 1) mod 10"
proof -
  have "(unat i + 1) mod 10 < (256::nat)"
    by (rule less_trans [OF mod_less_divisor]) simp_all
  then show ?thesis
    unfolding advance_def max_ops by (rule unat_of_nat_u8)
qed

lemma ring_count_le: "ring_inv b \<Longrightarrow> ring_count b \<le> 10"
  by (auto simp: ring_count_def)

lemma ring_count_not_full: "ring_inv b \<Longrightarrow> \<not> full b \<Longrightarrow> ring_count b = unat (in_offs b)"
  by (simp add: ring_count_def ring_invD)

lemma length_ring_list [simp]: "length (ring_list b) = ring_count b"
  by (simp add: ring_list_def)

lemma ring_list_nth: "k < ring_count b \<Longrightarrow> ring_list b ! k = entry b ! ring_slot b k"
  by (simp add: ring_list_def)

lemma ring_slot_less: "ring_slot b k < 10"
  by (simp add: ring_slot_def)

lemma ring_inv_init: "ring_inv aesd_circular_buffer_init"
  by (simp add: ring_inv_def aesd_circular_buffer_init_def)

lemma ring_list_init: "ring_list aesd_circular_buffer_init = []"
  by (simp add: ring_list_def ring_count_def aesd_circular_buffer_init_def)


subsection \<open>Adding an entry\<close>

lemma add_entry_exec:
  assumes "ring_inv b"
  shows "aesd_circular_buffer_add_entry b e =
    Some (buffptr (entry b ! unat (in_offs b)),
      (let out = (if full b then advance (out_offs b) else out_offs b)
       in b\<lparr>entry := (entry b)[unat (in_offs b) := e], out_offs := out, in_offs := advance (in_offs b),
            full := (advance (in_offs b) = out)\<rparr>))"
  using ring_invD(1,2) [OF assms]
  by (simp add: aesd_circular_buffer_add_entry_def access_simps Let_def)

lemma ring_slot_shift:
  "out_offs b' = advance (out_offs b) \<Longrightarrow> ring_slot b' k = ring_slot b (Suc k)"
  by (simp add: ring_slot_def unat_advance mod_add_left_eq add.assoc)

lemma ring_slot_inj:
  assumes "j < 10" "k < 10" "ring_slot b j = ring_slot b k"
  shows "j = k"
proof -
  have "(unat (out_offs b) + j) mod 10 = (unat (out_offs b) + k) mod 10"
    using assms(3) by (simp add: ring_slot_def)
  then obtain p q where "unat (out_offs b) + j + 10 * p = unat (out_offs b) + k + 10 * q"
    unfolding nat_mod_eq_iff by blast
  then have "j + 10 * p = k + 10 * q" by simp
  then have "j mod 10 = k mod 10" unfolding nat_mod_eq_iff by blast
  then show ?thesis using assms(1,2) by simp
qed

lemma add_entry_not_full:
  assumes inv: "ring_inv b" and nf: "\<not> full b"
    and b': "b' = b\<lparr>entry := (entry b)[unat (in_offs b) := e], in_offs := advance (in_offs b),
            full := (advance (in_offs b) = out_offs b)\<rparr>"
  shows "ring_inv b' \<and> ring_list b' = ring_list b @ [e]"
proof -
  let ?n = "unat (in_offs b)"
  note D = ring_invD [OF inv]
  have out0: "out_offs b = 0" and n: "?n < 10" using D nf by auto
  have in': "unat (advance (in_offs b)) = (?n + 1) mod 10" by (simp add: unat_advance)
  have full': "full b' \<longleftrightarrow> ?n = 9"
  proof -
    have "full b' \<longleftrightarrow> unat (advance (in_offs b)) = 0"
      by (simp add: b' out0 unat_eq_0)
    also have "\<dots> \<longleftrightarrow> ?n = 9" using n unfolding in' by presburger
    finally show ?thesis .
  qed
  have count': "ring_count b' = Suc ?n"
  proof (cases "?n = 9")
    case False
    then have "(?n + 1) mod 10 = Suc ?n" using n by simp
    moreover have "(Suc ?n + 10) mod 10 = Suc ?n mod 10" by (rule mod_add_self2)
    ultimately show ?thesis
      using False full' in' unfolding ring_count_def b' max_ops by (simp add: out0)
  qed (use full' in \<open>simp add: ring_count_def\<close>)
  have inv': "ring_inv b'"
  proof -
    have "entry b' ! i = null_entry" if "?n \<noteq> 9" "Suc ?n \<le> i" "i < 10" for i
      using D(6) [OF nf, of i] that by (simp add: b')
    then show ?thesis
      using D n full' out0 in' by (auto simp: ring_inv_def b')
  qed
  have "ring_list b' = ring_list b @ [e]"
  proof (rule nth_equalityI)
    show "length (ring_list b') = length (ring_list b @ [e])"
      using count' ring_count_not_full [OF inv nf] by simp
  next
    fix k assume "k < length (ring_list b')"
    then have k: "k < Suc ?n" using count' by simp
    then have "ring_list b' ! k = entry b' ! ring_slot b' k"
      by (simp add: ring_list_nth count')
    also have "\<dots> = (entry b)[?n := e] ! k"
      using k n by (simp add: ring_slot_def b' out0)
    finally have "ring_list b' ! k = (entry b)[?n := e] ! k" .
    then show "ring_list b' ! k = (ring_list b @ [e]) ! k"
      using k n D(1) ring_count_not_full [OF inv nf]
      by (cases "k = ?n") (auto simp: nth_append ring_list_nth ring_slot_def out0)
  qed
  with inv' show ?thesis by simp
qed

lemma add_entry_full:
  assumes inv: "ring_inv b" and f: "full b"
    and b': "b' = b\<lparr>entry := (entry b)[unat (in_offs b) := e], out_offs := advance (out_offs b),
            in_offs := advance (in_offs b), full := (advance (in_offs b) = advance (out_offs b))\<rparr>"
  shows "ring_inv b' \<and> ring_list b' = tl (ring_list b) @ [e]"
proof -
  note D = ring_invD [OF inv]
  have io: "in_offs b = out_offs b" using D(4) f by simp
  have full': "full b'" by (simp add: b' io)
  have count: "ring_count b = 10" "ring_count b' = 10" using f full' by (simp_all add: ring_count_def)
  have "ring_inv b'"
    using D full' io by (simp add: ring_inv_def b' unat_advance)
  moreover have "ring_list b' = tl (ring_list b) @ [e]"
  proof (rule nth_equalityI)
    show "length (ring_list b') = length (tl (ring_list b) @ [e])"
      using count by simp
  next
    fix k assume "k < length (ring_list b')"
    then have k: "k < 10" using count by simp
    have slot: "ring_slot b' k = ring_slot b (Suc k)"
      by (rule ring_slot_shift) (simp add: b')
    have in_slot: "unat (in_offs b) = ring_slot b 0"
      using D(3) by (simp add: ring_slot_def io)
    have lhs: "ring_list b' ! k = (entry b)[ring_slot b 0 := e] ! ring_slot b (Suc k)"
      using k count by (simp add: ring_list_nth slot in_slot [symmetric]) (simp add: b')
    show "ring_list b' ! k = (tl (ring_list b) @ [e]) ! k"
    proof (cases "k = 9")
      case True
      then have "ring_slot b (Suc k) = ring_slot b 0" by (simp add: ring_slot_def)
      then show ?thesis using lhs True count D(1) ring_slot_less [of b 0] by (simp add: nth_append)
    next
      case False
      then have "ring_slot b (Suc k) \<noteq> ring_slot b 0"
        using k ring_slot_inj [of "Suc k" 0 b] by auto
      then show ?thesis using lhs False k count by (simp add: nth_append nth_tl ring_list_nth)
    qed
  qed
  ultimately show ?thesis by simp
qed


text \<open>Adding refines the bounded FIFO: the newest ten entries are kept, in order.\<close>

lemma add_entry_refines:
  assumes inv: "ring_inv b"
  obtains b' where
    "aesd_circular_buffer_add_entry b e = Some (buffptr (entry b ! unat (in_offs b)), b')"
    "ring_inv b'" "ring_list b' = keep_last 10 (ring_list b @ [e])"
proof (cases "full b")
  case True
  let ?b' = "b\<lparr>entry := (entry b)[unat (in_offs b) := e], out_offs := advance (out_offs b),
            in_offs := advance (in_offs b), full := (advance (in_offs b) = advance (out_offs b))\<rparr>"
  have "ring_count b = 10" using True by (simp add: ring_count_def)
  then have "keep_last 10 (ring_list b @ [e]) = tl (ring_list b) @ [e]"
    by (intro keep_last_snoc_full) simp_all
  then show ?thesis
    using add_entry_full [OF inv True refl] add_entry_exec [OF inv] True that [of ?b'] by (simp add: Let_def)
next
  case False
  let ?b' = "b\<lparr>entry := (entry b)[unat (in_offs b) := e], in_offs := advance (in_offs b),
            full := (advance (in_offs b) = out_offs b)\<rparr>"
  have "length (ring_list b @ [e]) \<le> 10"
    using ring_count_not_full [OF inv False] ring_invD(2) [OF inv] by simp
  then have "keep_last 10 (ring_list b @ [e]) = ring_list b @ [e]"
    by (rule keep_last_short)
  then show ?thesis
    using add_entry_not_full [OF inv False refl] add_entry_exec [OF inv] False that [of ?b'] by (simp add: Let_def)
qed

text \<open>The pointer handed back is the one of the evicted oldest entry, or NULL while there is room.\<close>

lemma add_entry_evicted:
  assumes inv: "ring_inv b"
  shows "buffptr (entry b ! unat (in_offs b)) = (if full b then buffptr (hd (ring_list b)) else 0)"
proof (cases "full b")
  case True
  then have c: "ring_count b = 10" by (simp add: ring_count_def)
  then have "hd (ring_list b) = entry b ! ring_slot b 0"
    by (metis hd_conv_nth length_ring_list list.size(3) ring_list_nth zero_less_numeral zero_neq_numeral)
  then show ?thesis
    using True ring_invD(3,4) [OF inv] by (simp add: ring_slot_def)
next
  case False
  then show ?thesis
    using ring_invD(2,6) [OF inv] by (simp add: null_entry_def)
qed

subsection \<open>Finding a position\<close>

text \<open>The reference search: the command that holds byte \<open>off\<close> of the concatenation, and the
  offset in it.\<close>

fun locate :: "nat list \<Rightarrow> nat \<Rightarrow> (nat \<times> nat) option" where
  "locate [] off = None"
| "locate (s # ss) off =
     (if off < s then Some (0, off)
      else map_option (\<lambda>(i, r). (Suc i, r)) (locate ss (off - s)))"

lemma locate_None_iff: "locate ss off = None \<longleftrightarrow> sum_list ss \<le> off"
  by (induction ss off rule: locate.induct) auto

lemma locate_concat:
  "locate (map length xss) off = Some (i, r) \<Longrightarrow>
    i < length xss \<and> r < length (xss ! i) \<and> concat xss ! off = xss ! i ! r \<and>
    off = length (concat (take i xss)) + r"
proof (induction xss arbitrary: off i)
  case (Cons xs xss)
  show ?case
  proof (cases "off < length xs")
    case True
    then show ?thesis using Cons.prems by (auto simp: nth_append)
  next
    case False
    then obtain j where "locate (map length xss) (off - length xs) = Some (j, r)" "i = Suc j"
      using Cons.prems by auto
    with Cons.IH False show ?thesis by (fastforce simp: nth_append)
  qed
qed simp

text \<open>What lies ahead of a position: the rest of the chunk that holds it, and the chunks behind.\<close>

fun chunks_from :: "'a list list \<Rightarrow> nat \<Rightarrow> 'a list list" where
  "chunks_from [] p = []"
| "chunks_from (c # cs) p = (if length c \<le> p then chunks_from cs (p - length c) else drop p c # cs)"

lemma concat_chunks_from: "concat (chunks_from xss p) = drop p (concat xss)"
  by (induction xss p rule: chunks_from.induct) auto

lemma locate_chunks_from:
  "locate (map length xss) p = Some (i, r) \<Longrightarrow> chunks_from xss p = drop r (xss ! i) # drop (Suc i) xss"
proof (induction xss arbitrary: p i)
  case (Cons xs xss)
  then show ?case by (cases "p < length xs") auto
qed simp

lemma chunks_from_next:
  assumes "[] \<notin> set xss" "chunks_from xss p = c # cs"
  shows "chunks_from xss (p + length c) = cs"
  using assms
proof (induction xss p rule: chunks_from.induct)
  case (2 d ds p)
  show ?case
  proof (cases "length d \<le> p")
    case False
    then have "c = drop p d" "cs = ds" using 2 by auto
    moreover have "chunks_from ds 0 = ds" using 2(2) by (cases ds) auto
    ultimately show ?thesis using False by simp
  qed (use 2 in simp)
qed simp

definition ring_sizes :: "aesd_circular_buffer \<Rightarrow> nat list" where
  "ring_sizes b = map (\<lambda>e. unat (esize e)) (ring_list b)"

text \<open>Every size fits an \<open>int\<close>, and the total fits a \<open>size_t\<close>.\<close>

definition ring_small :: "aesd_circular_buffer \<Rightarrow> bool" where
  "ring_small b \<longleftrightarrow> (\<forall>e \<in> set (ring_list b). unat (esize e) < 2 ^ 31)"

lemma ring_slot_Suc: "(ring_slot b k + 1) mod 10 = ring_slot b (Suc k)"
  by (simp add: ring_slot_def mod_Suc_eq)

lemma ring_slot_at_end:
  assumes inv: "ring_inv b" and k: "k < ring_count b"
  shows "ring_slot b (Suc k) = unat (in_offs b) \<longleftrightarrow> Suc k = ring_count b"
proof (cases "full b")
  case True
  then have c: "ring_count b = 10" and io: "unat (in_offs b) = ring_slot b 0"
    using ring_invD(3,4) [OF inv] by (simp_all add: ring_count_def ring_slot_def)
  show ?thesis
  proof (cases "Suc k = 10")
    case False
    then show ?thesis using k c io ring_slot_inj [of "Suc k" 0 b] by auto
  qed (simp add: c io ring_slot_def)
next
  case False
  then show ?thesis
    using ring_invD(2,5) [OF inv] ring_count_not_full [OF inv] k by (auto simp: ring_slot_def)
qed

lemma find_loop_locate:
  assumes inv: "ring_inv b" and small: "ring_small b"
  shows "k < ring_count b \<Longrightarrow> unat curr_offs + sum_list (drop k (ring_sizes b)) < 2 ^ 64 \<Longrightarrow>
    curr_offs \<le> c \<Longrightarrow>
    find_loop b c (ring_slot b k) curr_offs =
      Some (map_option (\<lambda>(i, r). (ring_slot b (k + i), word_of_nat r))
        (locate (drop k (ring_sizes b)) (unat c - unat curr_offs)))"
proof (induction "ring_count b - k" arbitrary: k curr_offs)
  case (Suc m)
  let ?e = "ring_list b ! k" and ?ss = "drop (Suc k) (ring_sizes b)"
  note k = \<open>k < ring_count b\<close>
  have get: "arr_get (entry b) (ring_slot b k) = Some ?e"
    using ring_invD(1) [OF inv] ring_slot_less k by (simp add: access_simps ring_list_nth)
  have drop: "drop k (ring_sizes b) = unat (esize ?e) # ?ss"
    using k by (simp add: ring_sizes_def drop_map Cons_nth_drop_Suc [symmetric])
  have "?e \<in> set (ring_list b)" using k by simp
  then have int: "int_to_size (size_to_int (esize ?e)) = esize ?e"
    using small by (auto simp: ring_small_def intro!: int_to_size_to_int)
  have sum: "unat (curr_offs + esize ?e) = unat curr_offs + unat (esize ?e)"
    using Suc.prems(2) by (intro unat_add_nowrap) (simp add: drop)
  have curr_offs: "unat curr_offs \<le> unat c" using Suc.prems(3) by (simp add: word_le_nat_alt)
  have step: "find_loop b c (ring_slot b k) curr_offs =
      (if c < curr_offs + esize ?e then Some (Some (ring_slot b k, c - curr_offs))
       else if Suc k = ring_count b then Some None
       else find_loop b c (ring_slot b (Suc k)) (curr_offs + esize ?e))"
    by (subst find_loop.simps)
      (simp add: get int Let_def ring_slot_Suc ring_slot_at_end [OF inv k] del: One_nat_def)
  show ?case
  proof (cases "c < curr_offs + esize ?e")
    case True
    then have "unat c - unat curr_offs < unat (esize ?e)"
      using curr_offs sum by (simp add: word_less_nat_alt)
    moreover have "c - curr_offs = word_of_nat (unat c - unat curr_offs)"
      by (simp add: unat_sub_le [OF Suc.prems(3), symmetric])
    ultimately show ?thesis
      using True by (simp add: step drop)
  next
    case False
    then have ge: "curr_offs + esize ?e \<le> c" by simp
    then have le: "unat curr_offs + unat (esize ?e) \<le> unat c"
      using sum by (simp add: word_le_nat_alt)
    show ?thesis
    proof (cases "Suc k = ring_count b")
      case True
      then have "?ss = []" by (simp add: ring_sizes_def)
      then show ?thesis using False True le curr_offs by (simp add: step drop)
    next
      case more: False
      have "find_loop b c (ring_slot b (Suc k)) (curr_offs + esize ?e) =
        Some (map_option (\<lambda>(i, r). (ring_slot b (Suc k + i), word_of_nat r))
          (locate ?ss (unat c - unat (curr_offs + esize ?e))))"
        using Suc.hyps(2) k more Suc.prems(2) sum ge by (intro Suc.hyps(1)) (auto simp: drop)
      then show ?thesis
        using False more le curr_offs sum
        by (simp add: step drop option.map_comp comp_def case_prod_unfold)
    qed
  qed
qed simp


lemma sum_ring_sizes:
  assumes "ring_inv b" "ring_small b"
  shows "sum_list (ring_sizes b) < 2 ^ 64"
proof -
  have "sum_list (ring_sizes b) \<le> length (ring_sizes b) * 2 ^ 31"
    using assms(2) by (intro sum_list_le_length) (auto simp: ring_sizes_def ring_small_def less_imp_le)
  also have "\<dots> \<le> 10 * 2 ^ 31"
    using ring_count_le [OF assms(1)] by (simp add: ring_sizes_def)
  finally show ?thesis by simp
qed

lemma find_entry_locate:
  assumes inv: "ring_inv b" and small: "ring_small b"
  shows "aesd_circular_buffer_find_entry_offset_for_fpos b c =
    Some (map_option (\<lambda>(i, r). (ring_slot b i, word_of_nat r)) (locate (ring_sizes b) (unat c)))"
proof (cases "out_offs b = in_offs b \<and> \<not> full b")
  case True
  then have "ring_count b = 0"
    using ring_count_not_full [OF inv] ring_invD(5) [OF inv] by simp
  then have "ring_list b = []"
    by (metis length_0_conv length_ring_list)
  then show ?thesis
    using True by (simp add: aesd_circular_buffer_find_entry_offset_for_fpos_def ring_sizes_def)
next
  case False
  have pos: "0 < ring_count b"
  proof (cases "full b")
    case nf: False
    then have "unat (in_offs b) \<noteq> 0"
      using False ring_invD(5) [OF inv] by (simp add: unat_eq_0)
    then show ?thesis using ring_count_not_full [OF inv nf] by simp
  qed (simp add: ring_count_def)
  have slot0: "unat (out_offs b) = ring_slot b 0"
    using ring_invD(3) [OF inv] by (simp add: ring_slot_def)
  show ?thesis
    using False find_loop_locate [OF inv small pos, of 0 c] sum_ring_sizes [OF assms]
    by (auto simp: aesd_circular_buffer_find_entry_offset_for_fpos_def slot0)
qed

subsection \<open>Visiting all slots\<close>

lemma foreach_from_fold:
  "length (entry b) = 10 \<Longrightarrow> index \<le> 10 \<Longrightarrow> foreach_from index b body s =
    map_option (\<lambda>s. (s, 10)) (fold_opt body (drop index (entry b)) s)"
proof (induction index b body s rule: foreach_from.induct)
  case (1 index b body s)
  show ?case
  proof (cases "index < 10")
    case True
    then have "drop index (entry b) = entry b ! index # drop (Suc index) (entry b)"
      using 1 Cons_nth_drop_Suc [of index "entry b"] by simp
    then show ?thesis
      using True 1 by (subst foreach_from.simps) (auto simp: access_simps split: Option.bind_split)
  next
    case False
    then show ?thesis using 1 by (subst foreach_from.simps) simp
  qed
qed

lemma foreach_fold:
  "ring_inv b \<Longrightarrow> AESD_CIRCULAR_BUFFER_FOREACH b body s =
    map_option (\<lambda>s. (s, 10)) (fold_opt body (entry b) s)"
  by (simp add: AESD_CIRCULAR_BUFFER_FOREACH_def foreach_from_fold ring_invD)

lemma entries_not_full:
  assumes inv: "ring_inv b" and "\<not> full b"
  shows "entry b = ring_list b @ replicate (10 - ring_count b) null_entry"
proof (rule nth_equalityI)
  note n = ring_count_not_full [OF assms] and D = ring_invD [OF inv]
  show "length (entry b) = length (ring_list b @ replicate (10 - ring_count b) null_entry)"
    using D n by simp
  fix i assume "i < length (entry b)"
  then show "entry b ! i = (ring_list b @ replicate (10 - ring_count b) null_entry) ! i"
    using D n assms(2) by (auto simp: nth_append ring_list_nth ring_slot_def)
qed

lemma entries_full:
  assumes inv: "ring_inv b" and "full b"
  shows "ring_list b = rotate (unat (out_offs b)) (entry b)"
proof (rule nth_equalityI)
  have c: "ring_count b = 10" using assms(2) by (simp add: ring_count_def)
  then show "length (ring_list b) = length (rotate (unat (out_offs b)) (entry b))"
    using ring_invD(1) [OF inv] by simp
  fix i assume "i < length (ring_list b)"
  then show "ring_list b ! i = rotate (unat (out_offs b)) (entry b) ! i"
    using c ring_invD(1) [OF inv] by (simp add: ring_list_nth ring_slot_def nth_rotate)
qed

text \<open>The slots hold the stored entries, in some order, and otherwise zeroes.\<close>

lemma mset_entries:
  assumes "ring_inv b"
  shows "mset (entry b) = mset (ring_list b) + replicate_mset (10 - ring_count b) null_entry"
proof (cases "full b")
  case True
  have "mset (rotate n xs) = mset xs" for n and xs :: "aesd_buffer_entry list"
    unfolding rotate_drop_take by (metis append_take_drop_id mset_append union_commute)
  then show ?thesis using entries_full [OF assms True] True by (simp add: ring_count_def)
next
  case False
  show ?thesis by (subst entries_not_full [OF assms False]) simp
qed

lemma sum_entries:
  fixes f :: "aesd_buffer_entry \<Rightarrow> nat"
  assumes "ring_inv b" "f null_entry = 0"
  shows "sum_list (map f (entry b)) = sum_list (map f (ring_list b))"
proof -
  have "sum_list (map f (entry b)) = sum_mset (image_mset f (mset (entry b)))"
    by (metis mset_map sum_mset_sum_list)
  also have "\<dots> = sum_mset (image_mset f (mset (ring_list b)))"
    using assms by (simp add: mset_entries)
  also have "\<dots> = sum_list (map f (ring_list b))"
    by (metis mset_map sum_mset_sum_list)
  finally show ?thesis .
qed


section \<open>The interface the driver relies on\<close>

text \<open>
  A bounded FIFO of elements: \<open>view\<close> lists what is stored, oldest first; \<open>push\<close> never
  faults and keeps the newest \<open>cap\<close> elements.
\<close>

locale bounded_fifo =
  fixes inv :: "'b \<Rightarrow> bool"
    and view :: "'b \<Rightarrow> 'e list"
    and push :: "'b \<Rightarrow> 'e \<Rightarrow> ('p \<times> 'b) option"
    and cap :: nat
  assumes push_law: "inv b \<Longrightarrow>
      \<exists>p b'. push b e = Some (p, b') \<and> inv b' \<and> view b' = keep_last cap (view b @ [e])"
    and view_bound: "inv b \<Longrightarrow> length (view b) \<le> cap"
begin

lemma push_all:
  "inv b \<Longrightarrow> \<exists>b'. fold_opt (\<lambda>e b. map_option snd (push b e)) es b = Some b' \<and> inv b' \<and>
     view b' = keep_last cap (view b @ es)"
proof (induction es arbitrary: b)
  case Nil
  then show ?case using view_bound by simp
next
  case (Cons e es)
  obtain p b1 where b1: "push b e = Some (p, b1)" "inv b1" "view b1 = keep_last cap (view b @ [e])"
    using push_law [OF Cons.prems] by blast
  obtain b' where "fold_opt (\<lambda>e b. map_option snd (push b e)) es b1 = Some b'" "inv b'"
    "view b' = keep_last cap (view b1 @ es)"
    using Cons.IH [OF b1(2)] by blast
  then show ?case using b1 by (simp add: keep_last_append_absorb)
qed

end

text \<open>
  A bounded FIFO of sized elements that also finds the element holding a position of the
  concatenation: \<open>slot b i\<close> is where the \<open>i\<close>-th oldest element is kept and \<open>get\<close> reads it.
\<close>

locale searchable_fifo = bounded_fifo inv view push cap
  for inv :: "'b \<Rightarrow> bool" and view :: "'b \<Rightarrow> 'e list"
    and push :: "'b \<Rightarrow> 'e \<Rightarrow> ('p \<times> 'b) option" and cap +
  fixes size_of :: "'e \<Rightarrow> nat"
    and slot :: "'b \<Rightarrow> nat \<Rightarrow> nat"
    and get :: "'b \<Rightarrow> nat \<Rightarrow> 'e option"
    and search :: "'b \<Rightarrow> u64 \<Rightarrow> (nat \<times> u64) option option"
  assumes get_law: "inv b \<Longrightarrow> i < length (view b) \<Longrightarrow> get b (slot b i) = Some (view b ! i)"
    and search_law: "inv b \<Longrightarrow> \<forall>e \<in> set (view b). size_of e < 2 ^ 31 \<Longrightarrow>
      search b c = Some (map_option (\<lambda>(i, r). (slot b i, word_of_nat r))
        (locate (map size_of (view b)) (unat c)))"
begin

lemma search_hit:
  assumes "inv b" and small: "\<forall>e \<in> set (view b). size_of e < 2 ^ 31"
    and bytes: "\<forall>e \<in> set (view b). length (bytes e) = size_of e"
    and c: "unat c < length (concat (map bytes (view b)))"
  obtains j r e cs where "search b c = Some (Some (j, r))" "get b j = Some e" "e \<in> set (view b)"
    "unat r < size_of e"
    "chunks_from (map bytes (view b)) (unat c) = drop (unat r) (bytes e) # cs"
proof -
  have sizes: "map size_of (view b) = map length (map bytes (view b))"
    using bytes by simp
  have "\<not> sum_list (map size_of (view b)) \<le> unat c"
    using c by (simp add: sizes length_concat)
  then obtain i r where loc: "locate (map size_of (view b)) (unat c) = Some (i, r)"
    using locate_None_iff [of "map size_of (view b)" "unat c"] by (cases "locate (map size_of (view b)) (unat c)") auto
  then have *: "i < length (view b)" "r < length (bytes (view b ! i))"
    "unat c = length (concat (take i (map bytes (view b)))) + r"
    using locate_concat [of "map bytes (view b)" "unat c" i r] by (auto simp: sizes)
  let ?e = "view b ! i"
  have e: "?e \<in> set (view b)" using * by simp
  then have "size_of ?e < 2 ^ 31" "length (bytes ?e) = size_of ?e"
    using small bytes by auto
  then have r: "r < size_of ?e" "r < 2 ^ 64"
    using * by simp_all
  show thesis
  proof (rule that)
    show "search b c = Some (Some (slot b i, word_of_nat r))"
      using search_law [OF assms(1,2)] loc by simp
    show "get b (slot b i) = Some ?e" using get_law assms(1) * by simp
    show "unat (word_of_nat r :: u64) < size_of ?e" using r unat_of_nat_u64 by simp
    show "chunks_from (map bytes (view b)) (unat c) =
      drop (unat (word_of_nat r :: u64)) (bytes ?e) # drop (Suc i) (map bytes (view b))"
      using locate_chunks_from [of "map bytes (view b)" "unat c" i r] loc * r unat_of_nat_u64 [of r]
      by (simp add: sizes)
  qed (rule e)
qed

lemma search_miss:
  assumes "inv b" "\<forall>e \<in> set (view b). size_of e < 2 ^ 31"
    and "sum_list (map size_of (view b)) \<le> unat c"
  shows "search b c = Some None"
  using search_law [OF assms(1,2)] assms(3) by (simp add: locate_None_iff)

end

interpretation ring: searchable_fifo ring_inv ring_list aesd_circular_buffer_add_entry 10
  "\<lambda>e. unat (esize e)" ring_slot "\<lambda>b i. arr_get (entry b) i"
  aesd_circular_buffer_find_entry_offset_for_fpos
proof unfold_locales
  fix b e assume "ring_inv b"
  then show "\<exists>p b'. aesd_circular_buffer_add_entry b e = Some (p, b') \<and> ring_inv b' \<and>
      ring_list b' = keep_last 10 (ring_list b @ [e])"
    by (rule add_entry_refines) blast
next
  fix b i assume "ring_inv b" "i < length (ring_list b)"
  then show "arr_get (entry b) (ring_slot b i) = Some (ring_list b ! i)"
    using ring_slot_less [of b i] by (simp add: access_simps ring_invD ring_list_nth)
qed (simp_all add: ring_count_le find_entry_locate ring_small_def ring_sizes_def)


section \<open>Properties\<close>

text \<open>C4. Adding an entry to a well-formed circular buffer never faults, keeps it well-formed,
  appends the entry at the new end and drops the oldest entry exactly when ten were stored; the
  pointer it returns is the dropped entry's buffer, or NULL when nothing was dropped.\<close>

theorem add_entry_fifo:
  assumes "ring_inv b"
  shows "\<exists>b'. aesd_circular_buffer_add_entry b e =
      Some (if full b then buffptr (hd (ring_list b)) else 0, b') \<and>
    ring_inv b' \<and> ring_list b' = keep_last 10 (ring_list b @ [e])"
proof -
  obtain b' where
    "aesd_circular_buffer_add_entry b e = Some (buffptr (entry b ! unat (in_offs b)), b')"
    "ring_inv b'" "ring_list b' = keep_last 10 (ring_list b @ [e])"
    by (rule add_entry_refines [OF assms])
  then show ?thesis by (simp add: add_entry_evicted [OF assms])
qed

theorem add_entry_fifo_witness:
  "\<exists>b'. aesd_circular_buffer_add_entry aesd_circular_buffer_init \<lparr>buffptr = 4096, esize = 3\<rparr> =
      Some (0, b') \<and> ring_inv b' \<and> ring_list b' = [\<lparr>buffptr = 4096, esize = 3\<rparr>]"
proof -
  have "\<not> full aesd_circular_buffer_init" by (simp add: aesd_circular_buffer_init_def)
  then show ?thesis
    using add_entry_fifo [OF ring_inv_init, of "\<lparr>buffptr = 4096, esize = 3\<rparr>"]
    by (simp add: ring_list_init)
qed

text \<open>Starting from \<open>aesd_circular_buffer_init\<close>, any sequence of additions succeeds and leaves
  exactly the ten newest entries (all of them while there are at most ten), oldest first.\<close>

theorem adds_keep_newest_ten:
  "\<exists>b. fold_opt (\<lambda>e b. map_option snd (aesd_circular_buffer_add_entry b e)) es
       aesd_circular_buffer_init = Some b \<and> ring_inv b \<and> ring_list b = keep_last 10 es"
  using ring.push_all [OF ring_inv_init, of es] by (simp add: ring_list_init)

text \<open>C10. For a well-formed buffer whose entries are smaller than \<open>INT_MAX + 1\<close> bytes, the
  search by position returns NULL exactly for positions at or after the end of the concatenated
  entries; otherwise it returns a stored slot and the offset in it of the byte at that position.\<close>

theorem find_entry_correct:
  assumes "ring_inv b" and "ring_small b"
    and bytes: "\<forall>e \<in> set (ring_list b). length (bytes e) = unat (esize e)"
  shows "case aesd_circular_buffer_find_entry_offset_for_fpos b c of
      None \<Rightarrow> False
    | Some None \<Rightarrow> length (concat (map bytes (ring_list b))) \<le> unat c
    | Some (Some (j, r)) \<Rightarrow>
        unat c < length (concat (map bytes (ring_list b))) \<and> j < 10 \<and> entry b ! j \<in> set (ring_list b) \<and>
        unat r < unat (esize (entry b ! j)) \<and>
        concat (map bytes (ring_list b)) ! unat c = bytes (entry b ! j) ! unat r"
proof -
  have total: "length (concat (map bytes (ring_list b))) = sum_list (map (\<lambda>e. unat (esize e)) (ring_list b))"
    using bytes by (simp add: length_concat comp_def cong: map_cong)
  have small: "\<forall>e \<in> set (ring_list b). unat (esize e) < 2 ^ 31"
    using assms(2) by (simp add: ring_small_def)
  show ?thesis
  proof (cases "unat c < length (concat (map bytes (ring_list b)))")
    case True
    obtain j r e cs where hit:
      "aesd_circular_buffer_find_entry_offset_for_fpos b c = Some (Some (j, r))"
      "arr_get (entry b) j = Some e" "e \<in> set (ring_list b)" "unat r < unat (esize e)"
      "chunks_from (map bytes (ring_list b)) (unat c) = drop (unat r) (bytes e) # cs"
      by (rule ring.search_hit [OF assms(1) small bytes True])
    have rest: "drop (unat c) (concat (map bytes (ring_list b))) = drop (unat r) (bytes e) @ concat cs"
      using concat_chunks_from [of "map bytes (ring_list b)" "unat c"] hit(5) by simp
    have r: "unat r < length (bytes e)" using hit bytes by simp
    have "concat (map bytes (ring_list b)) ! unat c = drop (unat c) (concat (map bytes (ring_list b))) ! 0"
      using True by simp
    also have "\<dots> = bytes e ! unat r" unfolding rest using r by (simp add: nth_append)
    finally show ?thesis
      using hit True ring_invD(1) [OF assms(1)] by (auto simp: arr_get_Some_iff)
  next
    case False
    then show ?thesis
      using ring.search_miss [OF assms(1) small, of c] total by simp
  qed
qed

definition two_entries :: aesd_circular_buffer where
  "two_entries = aesd_circular_buffer_init\<lparr>
     entry := [\<lparr>buffptr = 16, esize = 3\<rparr>, \<lparr>buffptr = 32, esize = 2\<rparr>] @ replicate 8 null_entry,
     in_offs := 2\<rparr>"

lemma two_entries:
  "ring_inv two_entries" "ring_list two_entries = [\<lparr>buffptr = 16, esize = 3\<rparr>, \<lparr>buffptr = 32, esize = 2\<rparr>]"
  by (auto simp: two_entries_def ring_inv_def ring_list_def ring_count_def ring_slot_def
      aesd_circular_buffer_init_def nth_append upt_rec)

theorem find_entry_correct_witness:
  "case aesd_circular_buffer_find_entry_offset_for_fpos two_entries 4 of
      None \<Rightarrow> False
    | Some None \<Rightarrow> False
    | Some (Some (j, r)) \<Rightarrow> j < 10 \<and> unat r < unat (esize (entry two_entries ! j))"
proof -
  have small: "ring_small two_entries" by (simp add: ring_small_def two_entries)
  let ?bytes = "\<lambda>e. if buffptr e = 16 then [1, 2, 3] else [4, 5 :: byte]"
  have bytes: "\<forall>e \<in> set (ring_list two_entries). length (?bytes e) = unat (esize e)"
    by (simp add: two_entries)
  show ?thesis
    using find_entry_correct [OF two_entries(1) small bytes, of 4]
    by (auto simp: two_entries split: option.splits prod.splits)
qed

text \<open>The search goes wrong for an entry of \<open>2 ^ 32\<close> bytes: its size is zero as an \<open>int\<close>, so
  no position of it is found although the buffer is well-formed and not empty.\<close>

theorem find_entry_loses_4GiB_entry:
  "\<exists>b. ring_inv b \<and> ring_sizes b = [2 ^ 32] \<and> aesd_circular_buffer_find_entry_offset_for_fpos b 0 = Some None"
proof -
  let ?b = "aesd_circular_buffer_init\<lparr>entry := \<lparr>buffptr = 16, esize = 2 ^ 32\<rparr> # replicate 9 null_entry, in_offs := 1\<rparr>"
  have "ring_inv ?b"
    by (auto simp: ring_inv_def aesd_circular_buffer_init_def nth_Cons split: nat.splits)
  moreover have "ring_sizes ?b = [2 ^ 32]"
    by (simp add: ring_sizes_def ring_list_def ring_count_def ring_slot_def aesd_circular_buffer_init_def upt_rec)
  moreover have "aesd_circular_buffer_find_entry_offset_for_fpos ?b 0 = Some None"
    by (simp add: aesd_circular_buffer_find_entry_offset_for_fpos_def aesd_circular_buffer_init_def
        find_loop.simps arr_get_def size_to_int_def int_to_size_def)
  ultimately show ?thesis by blast
qed

end
