(* ===== verification/Kernel_Env.thy ===== *)
theory Kernel_Env
  imports Aesd_Prelude
begin

unbundle bit_operations_syntax

text \<open>
  The kernel services the character driver calls. Their code is not part of the repository, so a
  handler of the driver takes a record of them as its first argument; one record describes the
  services as they behave during one call, so that a lock attempt may be interrupted, an allocation
  may fail or a user copy may stop short in one call and not in the next. The predicates \<open>lock_ok\<close>,
  \<open>alloc_ok\<close> and \<open>copy_ok\<close> state the documented behaviour the driver relies on, and
  \<open>demo_kernel\<close> is a concrete kernel that satisfies them.
\<close>

section \<open>Memory\<close>

text \<open>The blocks the driver has obtained: the address of each block and its bytes.\<close>

type_synonym kheap = "ptr \<Rightarrow> byte list option"

definition heap_load :: "kheap \<Rightarrow> ptr \<Rightarrow> nat \<Rightarrow> nat \<Rightarrow> byte list option" where
  "heap_load h p off n =
     do { bs \<leftarrow> h p; if off + n \<le> length bs then Some (take n (drop off bs)) else None }"

definition heap_store :: "kheap \<Rightarrow> ptr \<Rightarrow> nat \<Rightarrow> byte list \<Rightarrow> kheap option" where
  "heap_store h p off xs =
     do { bs \<leftarrow> h p;
          if off + length xs \<le> length bs
          then Some (h(p \<mapsto> take off bs @ xs @ drop (off + length xs) bs)) else None }"

text \<open>\<open>memchr\<close> over a block: whether the byte occurs in the first \<open>n\<close> bytes.\<close>

definition kmemchr :: "kheap \<Rightarrow> ptr \<Rightarrow> byte \<Rightarrow> u64 \<Rightarrow> bool option" where
  "kmemchr h p c n = do { bs \<leftarrow> heap_load h p 0 (unat n); Some (c \<in> set bs) }"

section \<open>Files and the device\<close>

datatype devref = NoDevice | AesdDevice

record struct_file =
  f_pos :: i64
  private_data :: devref

section \<open>The services\<close>

record kenv =
  k_mutex_lock_interruptible :: "bool \<Rightarrow> i32 \<times> bool"
  k_mutex_unlock :: "bool \<Rightarrow> bool"
  k_kmalloc :: "kheap \<Rightarrow> u64 \<Rightarrow> ptr \<times> kheap"
  k_krealloc :: "kheap \<Rightarrow> ptr \<Rightarrow> u64 \<Rightarrow> ptr \<times> kheap"
  k_kfree :: "kheap \<Rightarrow> ptr \<Rightarrow> kheap"
  k_copy_from_user :: "byte list \<Rightarrow> u64 \<Rightarrow> byte list \<times> u64"
  k_copy_to_user :: "byte list \<Rightarrow> byte list \<times> u64"
  k_fixed_size_llseek :: "struct_file \<Rightarrow> i64 \<Rightarrow> i32 \<Rightarrow> i64 \<Rightarrow> struct_file \<times> i64"
  k_access_ok :: "u64 \<Rightarrow> u32 \<Rightarrow> bool"
  k_copy_seekto :: "u32 \<times> u32 \<Rightarrow> (u32 \<times> u32) \<times> u64"
  k_IOC_TYPE :: "u32 \<Rightarrow> u32"
  k_IOC_NR :: "u32 \<Rightarrow> u32"
  k_IOC_DIR :: "u32 \<Rightarrow> u32"
  k_IOC_SIZE :: "u32 \<Rightarrow> u32"
  k_IOC_WRITE :: u32
  k_IOC_READ :: u32
  k_IOWR :: "u32 \<Rightarrow> u32 \<Rightarrow> u32 \<Rightarrow> u32"

text \<open>
  The results of the services. \<open>k_kmalloc\<close> and \<open>k_krealloc\<close> return the address (0 for NULL)
  and the blocks afterwards; \<open>k_copy_from_user\<close> gets the user's bytes and returns what the
  destination holds afterwards with the number of bytes not copied; \<open>k_copy_to_user\<close> returns the
  bytes that reached the user with the number not copied. Freeing a block that is not allocated is
  undefined, and so is reallocating one; NULL may be passed to both.
\<close>

definition kfree :: "kenv \<Rightarrow> kheap \<Rightarrow> ptr \<Rightarrow> kheap option" where
  "kfree K h p = (if p = 0 then Some h else if h p = None then None else Some (k_kfree K h p))"

definition krealloc :: "kenv \<Rightarrow> kheap \<Rightarrow> ptr \<Rightarrow> u64 \<Rightarrow> (ptr \<times> kheap) option" where
  "krealloc K h p n = (if p \<noteq> 0 \<and> h p = None then None else Some (k_krealloc K h p n))"

definition EFAULT :: i64 where "EFAULT = 14"
definition ENOMEM :: i64 where "ENOMEM = 12"
definition EINVAL :: i64 where "EINVAL = 22"
definition ENOTTY :: i64 where "ENOTTY = 25"
definition ERESTARTSYS :: i64 where "ERESTARTSYS = 512"

lemmas errno_defs = EFAULT_def ENOMEM_def EINVAL_def ENOTTY_def ERESTARTSYS_def

section \<open>What the driver relies on\<close>

text \<open>The mutex is held after a successful attempt, untouched after an interrupted one, and free
  after an unlock.\<close>

definition lock_ok :: "kenv \<Rightarrow> bool" where
  "lock_ok K \<longleftrightarrow>
     (\<forall>l. (fst (k_mutex_lock_interruptible K l) = 0 \<longrightarrow> snd (k_mutex_lock_interruptible K l)) \<and>
          (fst (k_mutex_lock_interruptible K l) \<noteq> 0 \<longrightarrow> snd (k_mutex_lock_interruptible K l) = l)) \<and>
     (\<forall>l. \<not> k_mutex_unlock K l)"

text \<open>
  An allocation fails and changes nothing, or returns a fresh block of the size asked for; a
  reallocation of NULL is an allocation, any other one may also stay in place and keeps the old bytes. The allocator never hands out a block
  of \<open>2 ^ 31\<close> bytes or more (its largest size is far smaller).
\<close>

definition kmalloc_ok :: "kheap \<Rightarrow> u64 \<Rightarrow> ptr \<times> kheap \<Rightarrow> bool" where
  "kmalloc_ok h n r \<longleftrightarrow>
     (if fst r = 0 then snd r = h
      else h (fst r) = None \<and> unat n < 2 ^ 31 \<and>
        (\<exists>bs. length bs = unat n \<and> snd r = h(fst r \<mapsto> bs)))"

definition krealloc_ok :: "kheap \<Rightarrow> ptr \<Rightarrow> u64 \<Rightarrow> ptr \<times> kheap \<Rightarrow> bool" where
  "krealloc_ok h p n r \<longleftrightarrow>
     (if p = 0 then kmalloc_ok h n r
      else if fst r = 0 then snd r = h
      else (fst r = p \<or> h (fst r) = None) \<and> unat n < 2 ^ 31 \<and>
        (\<exists>bs. length bs = unat n \<and> snd r = (h(p := None))(fst r \<mapsto> bs) \<and>
          (\<forall>old. h p = Some old \<longrightarrow> take (length old) bs = take (unat n) old)))"

lemma alloc_fail [simp]: "kmalloc_ok h n (0, h)" "krealloc_ok h p n (0, h)"
  by (simp_all add: kmalloc_ok_def krealloc_ok_def)

definition alloc_ok :: "kenv \<Rightarrow> bool" where
  "alloc_ok K \<longleftrightarrow>
     (\<forall>h n. n \<noteq> 0 \<longrightarrow> kmalloc_ok h n (k_kmalloc K h n)) \<and>
     (\<forall>h p n. n \<noteq> 0 \<longrightarrow> krealloc_ok h p n (k_krealloc K h p n)) \<and>
     (\<forall>h p. k_kfree K h p = h(p := None))"

text \<open>A user copy moves a prefix and reports the length of the rest.\<close>

definition copy_ok :: "kenv \<Rightarrow> bool" where
  "copy_ok K \<longleftrightarrow>
     (\<forall>us n. length us = unat n \<longrightarrow>
        snd (k_copy_from_user K us n) \<le> n \<and> length (fst (k_copy_from_user K us n)) = unat n \<and>
        (let m = unat (n - snd (k_copy_from_user K us n))
         in take m (fst (k_copy_from_user K us n)) = take m us)) \<and>
     (\<forall>bs. unat (snd (k_copy_to_user K bs)) \<le> length bs \<and>
        fst (k_copy_to_user K bs) = take (length bs - unat (snd (k_copy_to_user K bs))) bs)"

definition kernel_ok :: "kenv \<Rightarrow> bool" where
  "kernel_ok K \<longleftrightarrow> lock_ok K \<and> alloc_ok K \<and> copy_ok K"

text \<open>A call during which nothing fails: the lock is taken, memory is found for requests below
  \<open>limit\<close> bytes, and user copies are complete.\<close>

definition smooth :: "nat \<Rightarrow> kheap \<Rightarrow> kenv \<Rightarrow> bool" where
  "smooth limit h K \<longleftrightarrow>
     (\<forall>l. fst (k_mutex_lock_interruptible K l) = 0) \<and>
     (\<forall>n. unat n < limit \<longrightarrow> fst (k_kmalloc K h n) \<noteq> 0) \<and>
     (\<forall>p n. unat n < limit \<longrightarrow> fst (k_krealloc K h p n) \<noteq> 0) \<and>
     (\<forall>us n. snd (k_copy_from_user K us n) = 0) \<and> (\<forall>bs. snd (k_copy_to_user K bs) = 0)"

section \<open>A concrete kernel\<close>

text \<open>First fit over 64 addresses; the \<open>ioctl\<close> encoding is the generic one (8 bits of number, 8
  of type, 14 of size, 2 of direction).\<close>

definition demo_fresh :: "kheap \<Rightarrow> ptr option" where
  "demo_fresh h = List.find (\<lambda>p. h p = None) (map (\<lambda>i. word_of_nat (4096 * Suc i)) [0..<64])"

definition demo_kmalloc :: "kheap \<Rightarrow> u64 \<Rightarrow> ptr \<times> kheap" where
  "demo_kmalloc h n =
     (case demo_fresh h of
        None \<Rightarrow> (0, h)
      | Some p \<Rightarrow> if unat n < 2 ^ 22 \<and> p \<noteq> 0 then (p, h(p \<mapsto> replicate (unat n) 0)) else (0, h))"

definition demo_krealloc :: "kheap \<Rightarrow> ptr \<Rightarrow> u64 \<Rightarrow> ptr \<times> kheap" where
  "demo_krealloc h p n =
     (if p = 0 then demo_kmalloc h n
      else if unat n < 2 ^ 22
      then (let old = (case h p of None \<Rightarrow> [] | Some bs \<Rightarrow> bs)
            in (p, h(p \<mapsto> take (unat n) old @ replicate (unat n - length old) 0)))
      else (0, h))"

definition demo_kernel :: kenv where
  "demo_kernel = \<lparr>
     k_mutex_lock_interruptible = (\<lambda>l. (0, True)),
     k_mutex_unlock = (\<lambda>l. False),
     k_kmalloc = demo_kmalloc,
     k_krealloc = demo_krealloc,
     k_kfree = (\<lambda>h p. h(p := None)),
     k_copy_from_user = (\<lambda>us n. (us, 0)),
     k_copy_to_user = (\<lambda>bs. (bs, 0)),
     k_fixed_size_llseek = (\<lambda>f offset whence size.
       let target = (if whence = 0 then offset else if whence = 1 then f_pos f + offset else size + offset)
       in if 0 \<le>s target \<and> target \<le>s size then (f\<lparr>f_pos := target\<rparr>, target) else (f, - EINVAL)),
     k_access_ok = (\<lambda>a n. True),
     k_copy_seekto = (\<lambda>x. (x, 0)),
     k_IOC_TYPE = (\<lambda>c. drop_bit 8 c AND 255),
     k_IOC_NR = (\<lambda>c. c AND 255),
     k_IOC_DIR = (\<lambda>c. drop_bit 30 c AND 3),
     k_IOC_SIZE = (\<lambda>c. drop_bit 16 c AND 16383),
     k_IOC_WRITE = 1,
     k_IOC_READ = 2,
     k_IOWR = (\<lambda>t nr sz. push_bit 30 3 OR push_bit 8 t OR nr OR push_bit 16 sz)\<rparr>"

lemma demo_kernel_simps:
  "k_mutex_lock_interruptible demo_kernel l = (0, True)" "k_mutex_unlock demo_kernel l = False"
  "k_kmalloc demo_kernel = demo_kmalloc" "k_krealloc demo_kernel = demo_krealloc"
  "k_kfree demo_kernel h p = h(p := None)" "k_copy_from_user demo_kernel us n = (us, 0)"
  "k_copy_to_user demo_kernel bs = (bs, 0)"
  by (simp_all add: demo_kernel_def)

lemma demo_fresh_Some: "demo_fresh h = Some p \<Longrightarrow> h p = None"
  by (auto simp: demo_fresh_def find_Some_iff)

lemma krealloc_okI:
  assumes "length bs = unat n" "snd r = (h(p := None))(fst r \<mapsto> bs)"
    "\<forall>old. h p = Some old \<longrightarrow> take (length old) bs = take (unat n) old"
    and "p \<noteq> 0" "fst r \<noteq> 0" "fst r = p \<or> h (fst r) = None" "unat n < 2 ^ 31"
  shows "krealloc_ok h p n r"
  unfolding krealloc_ok_def using assms by auto

lemma demo_kernel_ok: "kernel_ok demo_kernel"
proof -
  have "lock_ok demo_kernel"
    by (simp add: lock_ok_def demo_kernel_def)
  moreover have "copy_ok demo_kernel"
    by (simp add: copy_ok_def demo_kernel_def)
  moreover have malloc: "kmalloc_ok h n (demo_kmalloc h n)" for h n
  proof (cases "demo_fresh h")
    case (Some p)
    have "\<exists>bs. length bs = unat n \<and> h(p \<mapsto> replicate (unat n) 0) = h(p \<mapsto> bs)"
      by (rule exI [of _ "replicate (unat n) 0"]) simp
    then show ?thesis
      using demo_fresh_Some [OF Some] Some by (simp add: kmalloc_ok_def demo_kmalloc_def)
  qed (simp add: kmalloc_ok_def demo_kmalloc_def)
  moreover have "krealloc_ok h p n (demo_krealloc h p n)" for h p n
  proof -
    let ?old = "case h p of None \<Rightarrow> [] | Some bs \<Rightarrow> bs"
    let ?bs = "take (unat n) ?old @ replicate (unat n - length ?old) 0"
    show ?thesis
    proof (cases "unat n < 2 ^ 22 \<and> p \<noteq> 0")
      case True
      then have eq: "demo_krealloc h p n = (p, h(p \<mapsto> ?bs))"
        by (simp add: demo_krealloc_def Let_def)
      show ?thesis
      proof (rule krealloc_okI [of ?bs])
        show "length ?bs = unat n" by simp
        show "\<forall>old. h p = Some old \<longrightarrow> take (length old) ?bs = take (unat n) old"
          by (auto simp: min_def)
      qed (use True in \<open>simp_all add: eq\<close>)
    next
      case False
      then show ?thesis by (auto simp: krealloc_ok_def demo_krealloc_def malloc)
    qed
  qed
  ultimately show ?thesis
    by (simp add: kernel_ok_def alloc_ok_def demo_kernel_def)
qed

section \<open>Consequences\<close>

lemma lock_okD:
  assumes "lock_ok K"
  shows "k_mutex_lock_interruptible K l = (r, l') \<Longrightarrow> r = 0 \<Longrightarrow> l'"
    "k_mutex_lock_interruptible K l = (r, l') \<Longrightarrow> r \<noteq> 0 \<Longrightarrow> l' = l"
    "\<not> k_mutex_unlock K l"
  using assms by (metis lock_ok_def fst_conv snd_conv)+

lemma kernel_okD:
  assumes "kernel_ok K"
  shows "lock_ok K" "n \<noteq> 0 \<Longrightarrow> kmalloc_ok h n (k_kmalloc K h n)"
    "n \<noteq> 0 \<Longrightarrow> krealloc_ok h p n (k_krealloc K h p n)" "k_kfree K h p = h(p := None)"
  using assms by (auto simp: kernel_ok_def alloc_ok_def)

lemma copy_from_userD:
  assumes "kernel_ok K" and "length us = unat n" and "k_copy_from_user K us n = (bs, r)"
  shows "r \<le> n" "length bs = unat n" "take (unat (n - r)) bs = take (unat (n - r)) us"
  using assms by (auto simp: kernel_ok_def copy_ok_def Let_def dest!: spec [of _ us])

lemma copy_to_userD:
  assumes "kernel_ok K" and "k_copy_to_user K bs = (out, r)"
  shows "unat r \<le> length bs" "out = take (length bs - unat r) bs"
proof -
  have "unat (snd (k_copy_to_user K bs)) \<le> length bs \<and>
      fst (k_copy_to_user K bs) = take (length bs - unat (snd (k_copy_to_user K bs))) bs"
    using assms(1) by (simp add: kernel_ok_def copy_ok_def)
  then show "unat r \<le> length bs" "out = take (length bs - unat r) bs"
    using assms(2) by simp_all
qed

end
