(* ===== verification/Char_Driver.thy ===== *)
theory Char_Driver
  imports Circular_Buffer Kernel_Env
begin

text \<open>
  The character driver of \<^verbatim>\<open>aesd-char-driver/main.c\<close>: the device state of \<^verbatim>\<open>aesdchar.h\<close>, one definition
  per file operation (the set-up and tear-down of the module are in \<open>Driver_Module\<close>). Every definition follows the C function
  of its name statement by statement: the guards in their order, the lock, the early exits, and the
  unlock on the way out. A handler returns the C return value, the file position or file it was given,
  and the kernel state; \<open>None\<close> is undefined behaviour. The theorems about them are in
  \<open>Driver_Safety\<close>, \<open>Driver_Write\<close>, \<open>Driver_Read\<close> and \<open>Driver_Seek\<close>.
\<close>

section \<open>State\<close>

text \<open>\<open>struct aesd_dev\<close>: the circular buffer, the command being collected, the mutex (whether it is
  held). The \<open>cdev\<close> member is kept in the module state of \<open>Driver_Module\<close>.\<close>

record aesd_dev =
  circle_buff :: aesd_circular_buffer
  circle_buff_entry :: aesd_buffer_entry
  lock :: bool

record kstate =
  heap :: kheap
  aesd_device :: aesd_dev

text \<open>Following \<open>filp->private_data\<close>.\<close>

definition deref_device :: "struct_file \<Rightarrow> kstate \<Rightarrow> aesd_dev option" where
  "deref_device f s = (case private_data f of NoDevice \<Rightarrow> None | AesdDevice \<Rightarrow> Some (aesd_device s))"

definition mutex_unlock :: "kenv \<Rightarrow> kstate \<Rightarrow> kstate" where
  "mutex_unlock K s = s\<lparr>aesd_device := (aesd_device s)\<lparr>lock := k_mutex_unlock K (lock (aesd_device s))\<rparr>\<rparr>"

definition set_lock :: "bool \<Rightarrow> kstate \<Rightarrow> kstate" where
  "set_lock l s = s\<lparr>aesd_device := (aesd_device s)\<lparr>lock := l\<rparr>\<rparr>"

section \<open>open and release\<close>

text \<open>An inode carries the \<open>cdev\<close> of the device it stands for; \<open>container_of\<close> gives that device.\<close>

record inode =
  i_cdev :: devref

definition aesd_open :: "inode \<Rightarrow> struct_file \<Rightarrow> i32 \<times> struct_file" where
  "aesd_open inode filp = (let dev = i_cdev inode in (0, filp\<lparr>private_data := dev\<rparr>))"

definition aesd_release :: "inode \<Rightarrow> struct_file \<Rightarrow> i32 \<times> struct_file" where
  "aesd_release inode filp = (0, filp)"

section \<open>read\<close>

text \<open>
  \<open>buf\<close> says whether the user buffer pointer is not NULL; the bytes that reach it are part of the
  result. The debug message at the top reads \<open>*f_pos\<close> before any check.
\<close>

definition aesd_read_locked ::
  "kenv \<Rightarrow> u64 \<Rightarrow> i64 \<Rightarrow> kstate \<Rightarrow> (i64 \<times> i64 \<times> byte list) option" where
  "aesd_read_locked K cnt pos s =
     do {
       let cb = circle_buff (aesd_device s);
       found \<leftarrow> aesd_circular_buffer_find_entry_offset_for_fpos cb pos;
       case found of
         None \<Rightarrow> Some (0, pos, [])
       | Some (i, read_offset) \<Rightarrow> do {
           read_entry \<leftarrow> arr_get (entry cb) i;
           let cnt = (if esize read_entry - read_offset < cnt then esize read_entry - read_offset else cnt);
           bs \<leftarrow> heap_load (heap s) (buffptr read_entry) (unat read_offset) (unat cnt);
           let (delivered, unread_count) = k_copy_to_user K bs;
           let retval = cnt - unread_count;
           Some (retval, pos + retval, delivered)
         }
     }"

definition aesd_read ::
  "kenv \<Rightarrow> struct_file option \<Rightarrow> bool \<Rightarrow> u64 \<Rightarrow> i64 option \<Rightarrow> kstate \<Rightarrow> (i64 \<times> i64 \<times> byte list \<times> kstate) option" where
  "aesd_read K filp buf cnt f_pos_ptr s =
     do {
       pos \<leftarrow> f_pos_ptr;
       if filp = None \<or> \<not> buf \<or> f_pos_ptr = None then Some (- EFAULT, pos, [], s)
       else do {
         f \<leftarrow> filp;
         device \<leftarrow> deref_device f s;
         let (interrupted, l) = k_mutex_lock_interruptible K (lock device);
         if interrupted \<noteq> 0 then Some (- ERESTARTSYS, pos, [], s)
         else do {
           let s = set_lock l s;
           (retval, pos, delivered) \<leftarrow> aesd_read_locked K cnt pos s;
           Some (retval, pos, delivered, mutex_unlock K s)
         }
       }
     }"

section \<open>write\<close>

text \<open>Getting memory for the command being collected: a first block, or a larger one.\<close>

definition write_alloc :: "kenv \<Rightarrow> u64 \<Rightarrow> kstate \<Rightarrow> (ptr \<times> kstate) option" where
  "write_alloc K cnt s =
     do {
       let w = circle_buff_entry (aesd_device s);
       (p, h) \<leftarrow> (if 0 = esize w then Some (k_kmalloc K (heap s) cnt)
                  else krealloc K (heap s) (buffptr w) (esize w + cnt));
       Some (p, s\<lparr>heap := h, aesd_device := (aesd_device s)\<lparr>circle_buff_entry := w\<lparr>buffptr := p\<rparr>\<rparr>\<rparr>)
     }"

text \<open>Copying the user's bytes behind the collected ones; a newline anywhere completes the command,
  which goes into the circular buffer, and the buffer it pushes out is freed.\<close>

definition write_copy :: "kenv \<Rightarrow> byte list \<Rightarrow> u64 \<Rightarrow> kstate \<Rightarrow> (i64 \<times> kstate) option" where
  "write_copy K ubuf cnt s =
     do {
       let w = circle_buff_entry (aesd_device s);
       let (copied, unwritten_count) = k_copy_from_user K ubuf cnt;
       h \<leftarrow> heap_store (heap s) (buffptr w) (unat (esize w)) copied;
       let retval = cnt - unwritten_count;
       let w = w\<lparr>esize := esize w + retval\<rparr>;
       let s = s\<lparr>heap := h, aesd_device := (aesd_device s)\<lparr>circle_buff_entry := w\<rparr>\<rparr>;
       complete \<leftarrow> kmemchr (heap s) (buffptr w) newline (esize w);
       if complete then do {
         (write_entry, cb) \<leftarrow> aesd_circular_buffer_add_entry (circle_buff (aesd_device s)) w;
         h \<leftarrow> (if write_entry \<noteq> 0 then kfree K (heap s) write_entry else Some (heap s));
         Some (retval, s\<lparr>heap := h, aesd_device := (aesd_device s)\<lparr>circle_buff := cb,
                                     circle_buff_entry := \<lparr>buffptr = 0, esize = 0\<rparr>\<rparr>\<rparr>)
       }
       else Some (retval, s)
     }"

definition aesd_write ::
  "kenv \<Rightarrow> struct_file option \<Rightarrow> byte list option \<Rightarrow> u64 \<Rightarrow> i64 option \<Rightarrow> kstate \<Rightarrow> (i64 \<times> i64 \<times> kstate) option" where
  "aesd_write K filp buf cnt f_pos_ptr s =
     do {
       pos \<leftarrow> f_pos_ptr;
       if filp = None \<or> buf = None \<or> f_pos_ptr = None then Some (- EFAULT, pos, s)
       else if cnt = 0 then Some (0, pos, s)
       else do {
         f \<leftarrow> filp;
         ubuf \<leftarrow> buf;
         device \<leftarrow> deref_device f s;
         let (interrupted, l) = k_mutex_lock_interruptible K (lock device);
         if interrupted \<noteq> 0 then Some (- ERESTARTSYS, pos, s)
         else do {
           let s = set_lock l s;
           (p, s) \<leftarrow> write_alloc K cnt s;
           if p = 0 then Some (- ENOMEM, pos, mutex_unlock K s)
           else do {
             (retval, s) \<leftarrow> write_copy K ubuf cnt s;
             Some (retval, pos, mutex_unlock K s)
           }
         }
       }
     }"

section \<open>Seeking\<close>

text \<open>
  \<open>aesd_adjust_file_offset\<close>: the pointer \<open>filp\<close> is followed before it is compared with NULL. The
  \<open>FOREACH\<close> loop has an empty body and leaves \<open>position\<close> at ten; the three-part test is evaluated
  from left to right and the second part reads slot \<open>write_cmd\<close> of the array.
\<close>

definition aesd_adjust_file_offset ::
  "kenv \<Rightarrow> struct_file option \<Rightarrow> u32 \<Rightarrow> u32 \<Rightarrow> kstate \<Rightarrow> (i64 \<times> struct_file \<times> kstate) option" where
  "aesd_adjust_file_offset K filp write_cmd write_cmd_offset s =
     do {
       f \<leftarrow> filp;
       if filp = None then Some (- EFAULT, f, s)
       else do {
         device \<leftarrow> deref_device f s;
         let (interrupted, l) = k_mutex_lock_interruptible K (lock device);
         if interrupted \<noteq> 0 then Some (- ERESTARTSYS, f, s)
         else do {
           let s = set_lock l s;
           let cb = circle_buff (aesd_device s);
           (_, position) \<leftarrow> AESD_CIRCULAR_BUFFER_FOREACH cb (\<lambda>e u. Some u) ();
           invalid \<leftarrow> (if position < unat write_cmd then Some True
                      else do {
                        e \<leftarrow> arr_get (entry cb) (unat write_cmd);
                        Some (esize e \<le> ucast write_cmd_offset \<or> max_ops < unat write_cmd)
                      });
           if invalid then Some (- EINVAL, f, mutex_unlock K s)
           else do {
             pos \<leftarrow> (if write_cmd = 0 then Some (f_pos f + ucast write_cmd_offset)
                    else do {
                      pos \<leftarrow> fold_opt (\<lambda>i p. do { e \<leftarrow> arr_get (entry cb) i; Some (p + esize e) })
                               [0..<unat write_cmd] (f_pos f);
                      Some (pos + ucast write_cmd_offset)
                    });
             Some (0, f\<lparr>f_pos := pos\<rparr>, mutex_unlock K s)
           }
         }
       }
     }"

definition AESD_IOC_MAGIC :: u32 where "AESD_IOC_MAGIC = 0x16"

definition AESDCHAR_IOC_MAXNR :: u32 where "AESDCHAR_IOC_MAXNR = 1"

text \<open>\<open>struct aesd_seekto\<close> is a pair of 32-bit words, eight bytes long.\<close>

record aesd_seekto =
  write_cmd :: u32
  write_cmd_offset :: u32

definition AESDCHAR_IOCSEEKTO :: "kenv \<Rightarrow> u32" where
  "AESDCHAR_IOCSEEKTO K = k_IOWR K AESD_IOC_MAGIC 1 8"

text \<open>\<open>arg\<close> is the address given by the user and \<open>user_seek\<close> the structure stored there.\<close>

definition aesd_ioctl ::
  "kenv \<Rightarrow> struct_file option \<Rightarrow> u32 \<Rightarrow> u64 \<Rightarrow> aesd_seekto \<Rightarrow> kstate \<Rightarrow>
   (i64 \<times> struct_file option \<times> kstate) option" where
  "aesd_ioctl K filp cmd arg user_seek s =
     (if filp = None then Some (- EFAULT, filp, s)
      else if k_IOC_TYPE K cmd \<noteq> AESD_IOC_MAGIC \<or> AESDCHAR_IOC_MAXNR < k_IOC_NR K cmd
      then Some (- ENOTTY, filp, s)
      else
        (let error_code =
           (if k_IOC_DIR K cmd AND k_IOC_WRITE K \<noteq> 0 \<or> k_IOC_DIR K cmd AND k_IOC_READ K \<noteq> 0
            then \<not> k_access_ok K arg (k_IOC_SIZE K cmd) else False)
         in if error_code then Some (- EFAULT, filp, s)
            else if cmd = AESDCHAR_IOCSEEKTO K then
              (case k_copy_seekto K (write_cmd user_seek, write_cmd_offset user_seek) of
                 ((wc, wo), uncopied) \<Rightarrow>
                   if uncopied \<noteq> 0 then Some (- EFAULT, filp, s)
                   else do {
                     (result, f, s) \<leftarrow> aesd_adjust_file_offset K filp wc wo s;
                     Some (result, Some f, s)
                   })
            else Some (- ENOTTY, filp, s)))"

definition aesd_llseek ::
  "kenv \<Rightarrow> struct_file option \<Rightarrow> i64 \<Rightarrow> i32 \<Rightarrow> kstate \<Rightarrow> (i64 \<times> struct_file \<times> kstate) option" where
  "aesd_llseek K filp offset whence s =
     do {
       f \<leftarrow> filp;
       if filp = None then Some (- EFAULT, f, s)
       else do {
         device \<leftarrow> deref_device f s;
         let (interrupted, l) = k_mutex_lock_interruptible K (lock device);
         if interrupted \<noteq> 0 then Some (- ERESTARTSYS, f, s)
         else do {
           let s = set_lock l s;
           (total_buffer_size, _) \<leftarrow>
             AESD_CIRCULAR_BUFFER_FOREACH (circle_buff (aesd_device s)) (\<lambda>e t. Some (t + esize e)) 0;
           let (f, seek_position) = k_fixed_size_llseek K f offset whence total_buffer_size;
           Some (seek_position, f, mutex_unlock K s)
         }
       }
     }"

end
