(* ===== verification/Driver_Safety.thy ===== *)
theory Driver_Safety
  imports Char_Driver
begin

text \<open>
  Memory safety of the driver. The invariant says who owns which block: every stored command and the
  command being collected own one block each, no two the same, and a stored command has its bytes in
  its block. The two halves of a write (getting memory, copying) are analysed here once, in every
  outcome of the kernel services; the theorems on content build on them.
\<close>

section \<open>The invariant\<close>

text \<open>The bytes an entry stands for.\<close>

definition content :: "kheap \<Rightarrow> aesd_buffer_entry \<Rightarrow> byte list" where
  "content h e = (case h (buffptr e) of None \<Rightarrow> [] | Some bs \<Rightarrow> take (unat (esize e)) bs)"

definition backed :: "kheap \<Rightarrow> aesd_buffer_entry \<Rightarrow> bool" where
  "backed h e \<longleftrightarrow>
     (case h (buffptr e) of None \<Rightarrow> False | Some bs \<Rightarrow> unat (esize e) \<le> length bs) \<and> buffptr e \<noteq> 0"

definition stored_ok :: "kheap \<Rightarrow> aesd_buffer_entry \<Rightarrow> bool" where
  "stored_ok h e \<longleftrightarrow> backed h e \<and> unat (esize e) < 2 ^ 31 \<and> newline \<in> set (content h e)"

abbreviation stored :: "kstate \<Rightarrow> aesd_buffer_entry list" where
  "stored s \<equiv> ring_list (circle_buff (aesd_device s))"

abbreviation working :: "kstate \<Rightarrow> aesd_buffer_entry" where
  "working s \<equiv> circle_buff_entry (aesd_device s)"

definition owned :: "kstate \<Rightarrow> ptr list" where
  "owned s = map buffptr (stored s) @ (if buffptr (working s) = 0 then [] else [buffptr (working s)])"

definition mem_inv :: "kstate \<Rightarrow> bool" where
  "mem_inv s \<longleftrightarrow>
     ring_inv (circle_buff (aesd_device s)) \<and> (\<forall>e \<in> set (stored s). stored_ok (heap s) e) \<and>
     unat (esize (working s)) < 2 ^ 31 \<and> (buffptr (working s) = 0 \<or> backed (heap s) (working s)) \<and>
     distinct (owned s) \<and> heap s 0 = None"

text \<open>Between calls the mutex is free and the command being collected has no newline yet.\<close>

definition dev_inv :: "kstate \<Rightarrow> bool" where
  "dev_inv s \<longleftrightarrow>
     mem_inv s \<and> \<not> lock (aesd_device s) \<and> newline \<notin> set (content (heap s) (working s))"

text \<open>No block is lost: every block is owned.\<close>

definition no_leak :: "kstate \<Rightarrow> bool" where
  "no_leak s \<longleftrightarrow> dom (heap s) \<subseteq> set (owned s)"

lemma set_lock_simps [simp]:
  "heap (set_lock l s) = heap s" "circle_buff (aesd_device (set_lock l s)) = circle_buff (aesd_device s)"
  "circle_buff_entry (aesd_device (set_lock l s)) = circle_buff_entry (aesd_device s)"
  "lock (aesd_device (set_lock l s)) = l" "owned (set_lock l s) = owned s"
  "mem_inv (set_lock l s) = mem_inv s"
  by (simp_all add: set_lock_def owned_def mem_inv_def)

lemma mutex_unlock_simps [simp]:
  "heap (mutex_unlock K s) = heap s" "circle_buff (aesd_device (mutex_unlock K s)) = circle_buff (aesd_device s)"
  "circle_buff_entry (aesd_device (mutex_unlock K s)) = circle_buff_entry (aesd_device s)"
  "lock (aesd_device (mutex_unlock K s)) = k_mutex_unlock K (lock (aesd_device s))"
  "owned (mutex_unlock K s) = owned s" "mem_inv (mutex_unlock K s) = mem_inv s"
  by (simp_all add: mutex_unlock_def owned_def mem_inv_def)

lemma mem_invD:
  assumes "mem_inv s"
  shows "ring_inv (circle_buff (aesd_device s))" "e \<in> set (stored s) \<Longrightarrow> stored_ok (heap s) e"
    "unat (esize (working s)) < 2 ^ 31" "buffptr (working s) \<noteq> 0 \<Longrightarrow> backed (heap s) (working s)"
    "distinct (owned s)" "heap s 0 = None"
  using assms by (auto simp: mem_inv_def)

lemma backedD:
  assumes "backed h e"
  obtains bs where "h (buffptr e) = Some bs" "unat (esize e) \<le> length bs"
    "content h e = take (unat (esize e)) bs" "buffptr e \<noteq> 0"
  using assms by (auto simp: backed_def content_def split: option.splits)

lemma stored_nonzero: "mem_inv s \<Longrightarrow> 0 \<notin> buffptr ` set (stored s)"
  by (auto simp: stored_ok_def backed_def dest: mem_invD(2) split: option.splits)

lemma fresh_not_stored:
  assumes "mem_inv s" "heap s p = None"
  shows "p \<notin> buffptr ` set (stored s)"
proof
  assume "p \<in> buffptr ` set (stored s)"
  then obtain e where "e \<in> set (stored s)" "p = buffptr e" by blast
  then show False
    using mem_invD(2) [OF assms(1), of e] assms(2) by (simp add: stored_ok_def backed_def)
qed

lemma working_not_stored:
  assumes "mem_inv s"
  shows "buffptr (working s) \<notin> buffptr ` set (stored s)"
proof (cases "buffptr (working s) = 0")
  case True
  then show ?thesis using stored_nonzero [OF assms] by simp
next
  case False
  then show ?thesis using mem_invD(5) [OF assms] by (simp add: owned_def)
qed

lemma content_length: "backed h e \<Longrightarrow> length (content h e) = unat (esize e)"
  by (auto elim: backedD)

lemma stored_small: "mem_inv s \<Longrightarrow> ring_small (circle_buff (aesd_device s))"
  by (auto simp: ring_small_def stored_ok_def dest: mem_invD(2))

lemma stored_length: "mem_inv s \<Longrightarrow> e \<in> set (stored s) \<Longrightarrow> length (content (heap s) e) = unat (esize e)"
  by (auto simp: stored_ok_def content_length dest: mem_invD(2))

text \<open>What an entry stands for depends on its own block only.\<close>

lemma content_frame: "h' (buffptr e) = h (buffptr e) \<Longrightarrow> content h' e = content h e"
  by (simp add: content_def)

lemma stored_frame: "h' (buffptr e) = h (buffptr e) \<Longrightarrow> stored_ok h' e = stored_ok h e"
  by (simp add: stored_ok_def backed_def content_def)

section \<open>The abstract device\<close>

text \<open>What a user of the device sees: the stored commands, oldest first, and the command being
  collected. Writing bytes extends the latter; a newline in it completes the command, and the newest
  ten commands are kept.\<close>

record dev_view =
  commands :: "byte list list"
  partial :: "byte list"

definition view :: "kstate \<Rightarrow> dev_view" where
  "view s = \<lparr>commands = map (content (heap s)) (stored s), partial = content (heap s) (working s)\<rparr>"

definition spec_write :: "byte list \<Rightarrow> dev_view \<Rightarrow> dev_view" where
  "spec_write xs v =
     (if newline \<in> set (partial v @ xs)
      then \<lparr>commands = keep_last 10 (commands v @ [partial v @ xs]), partial = []\<rparr>
      else v\<lparr>partial := partial v @ xs\<rparr>)"

lemma view_simps [simp]:
  "view (set_lock l s) = view s" "view (mutex_unlock K s) = view s"
  by (simp_all add: view_def)

section \<open>Getting memory\<close>

text \<open>The effect of \<open>write_alloc\<close>: the pointer is stored in the working entry; other blocks stay as
  they are; on success the block has room for the new bytes behind the collected ones.\<close>

definition alloc_post :: "kstate \<Rightarrow> u64 \<Rightarrow> ptr \<Rightarrow> kstate \<Rightarrow> bool" where
  "alloc_post s cnt p s' \<longleftrightarrow>
     aesd_device s' = (aesd_device s)\<lparr>circle_buff_entry := \<lparr>buffptr = p, esize = esize (working s)\<rparr>\<rparr> \<and>
     (\<forall>q \<in> set (map buffptr (stored s)). heap s' q = heap s q) \<and> heap s' 0 = None \<and>
     (if p = 0 then heap s' = heap s
      else p \<notin> buffptr ` set (stored s) \<and>
        dom (heap s') \<subseteq> insert p (if esize (working s) = 0 then dom (heap s) else dom (heap s) - {buffptr (working s)}) \<and>
        (\<exists>bs. heap s' p = Some bs \<and> length bs = unat (esize (working s)) + unat cnt \<and> length bs < 2 ^ 31 \<and>
          (esize (working s) = 0 \<or> buffptr (working s) \<noteq> 0 \<longrightarrow>
             take (unat (esize (working s))) bs = take (unat (esize (working s))) (content (heap s) (working s)))))"

lemma write_alloc_post:
  assumes K: "kernel_ok K" and inv: "mem_inv s" and cnt: "cnt \<noteq> 0" "unat cnt < 2 ^ 31"
  obtains p s' where "write_alloc K cnt s = Some (p, s')" "alloc_post s cnt p s'"
proof (cases "esize (working s) = 0")
  case True
  obtain p h where ph: "k_kmalloc K (heap s) cnt = (p, h)" by (cases "k_kmalloc K (heap s) cnt")
  let ?s = "s\<lparr>heap := h, aesd_device := (aesd_device s)\<lparr>circle_buff_entry := (working s)\<lparr>buffptr := p\<rparr>\<rparr>\<rparr>"
  have ok: "kmalloc_ok (heap s) cnt (p, h)"
    using kernel_okD(2) [OF K cnt(1)] ph by metis
  have "alloc_post s cnt p ?s"
  proof (cases "p = 0")
    case p: False
    obtain bs where bs: "length bs = unat cnt" "length bs < 2 ^ 31" "h = (heap s)(p \<mapsto> bs)" and fresh: "heap s p = None"
      using ok p by (auto simp: kmalloc_ok_def)
    have "p \<notin> buffptr ` set (stored s)"
      by (rule fresh_not_stored [OF inv fresh])
    then show ?thesis
      using True p bs mem_invD(6) [OF inv] by (auto simp: alloc_post_def)
  qed (use ok mem_invD(6) [OF inv] in \<open>simp add: alloc_post_def kmalloc_ok_def\<close>)
  then show thesis
    using that [of p ?s] True ph by (simp add: write_alloc_def)
next
  case False
  let ?w = "working s"
  have size: "unat (esize ?w + cnt) = unat (esize ?w) + unat cnt"
    using mem_invD(3) [OF inv] cnt by (intro unat_add_nowrap) simp
  then have n: "esize ?w + cnt \<noteq> 0"
    using cnt(1) by (metis add_is_0 unat_eq_0)
  obtain p h where ph: "k_krealloc K (heap s) (buffptr ?w) (esize ?w + cnt) = (p, h)"
    by (cases "k_krealloc K (heap s) (buffptr ?w) (esize ?w + cnt)")
  let ?s = "s\<lparr>heap := h, aesd_device := (aesd_device s)\<lparr>circle_buff_entry := ?w\<lparr>buffptr := p\<rparr>\<rparr>\<rparr>"
  have ok: "krealloc_ok (heap s) (buffptr ?w) (esize ?w + cnt) (p, h)"
    using kernel_okD(3) [OF K n] ph by metis
  have own: "buffptr ?w \<notin> buffptr ` set (stored s)"
    by (rule working_not_stored [OF inv])
  have "alloc_post s cnt p ?s"
  proof (cases "p = 0")
    case p: False
    have "krealloc_ok (heap s) (buffptr ?w) (esize ?w + cnt) (p, h) \<Longrightarrow>
      \<exists>bs. length bs = unat (esize ?w) + unat cnt \<and> length bs < 2 ^ 31 \<and>
        h = ((heap s)(buffptr ?w := None))(p \<mapsto> bs) \<and>
        (\<forall>old. heap s (buffptr ?w) = Some old \<longrightarrow> take (length old) bs = take (unat (esize ?w + cnt)) old) \<and>
        (p = buffptr ?w \<or> heap s p = None)"
    proof (cases "buffptr ?w = 0")
      case True
      moreover have "(heap s)(0 := None) = heap s" using mem_invD(6) [OF inv] by (simp add: fun_upd_idem)
      ultimately show "krealloc_ok (heap s) (buffptr ?w) (esize ?w + cnt) (p, h) \<Longrightarrow> ?thesis"
        using p size mem_invD(6) [OF inv] by (auto simp: krealloc_ok_def kmalloc_ok_def)
    qed (use p size in \<open>auto simp: krealloc_ok_def\<close>)
    then obtain bs where bs: "length bs = unat (esize ?w) + unat cnt" "length bs < 2 ^ 31"
        "h = ((heap s)(buffptr ?w := None))(p \<mapsto> bs)"
      and keep: "\<forall>old. heap s (buffptr ?w) = Some old \<longrightarrow> take (length old) bs = take (unat (esize ?w + cnt)) old"
      and fresh: "p = buffptr ?w \<or> heap s p = None"
      using ok by blast
    have new: "p \<notin> buffptr ` set (stored s)"
      using fresh own fresh_not_stored [OF inv, of p] by metis
    have "take (unat (esize ?w)) bs = take (unat (esize ?w)) (content (heap s) ?w)" if nz: "buffptr ?w \<noteq> 0"
    proof -
      obtain old where old: "heap s (buffptr ?w) = Some old" "unat (esize ?w) \<le> length old"
        "content (heap s) ?w = take (unat (esize ?w)) old"
        using mem_invD(4) [OF inv nz] by (rule backedD)
      have "take (unat (esize ?w)) (take (length old) bs) = take (unat (esize ?w)) (take (unat (esize ?w + cnt)) old)"
        using keep old(1) by simp
      then show ?thesis using old size by (simp add: min_def)
    qed
    moreover have "h q = heap s q" if "q \<in> buffptr ` set (stored s)" for q
    proof -
      have "q \<noteq> p" "q \<noteq> buffptr ?w" using that new own by metis+
      then show ?thesis by (simp add: bs)
    qed
    moreover have "h 0 = None" using p mem_invD(6) [OF inv] by (simp add: bs)
    moreover have "dom h \<subseteq> insert p (dom (heap s) - {buffptr ?w})" by (auto simp: bs)
    ultimately show ?thesis
      using False p bs new by (simp add: alloc_post_def)
  qed (use ok mem_invD(6) [OF inv] in \<open>simp add: alloc_post_def krealloc_ok_def kmalloc_ok_def split: if_splits\<close>)
  moreover have "krealloc K (heap s) (buffptr ?w) (esize ?w + cnt) = Some (p, h)"
    using mem_invD(4) [OF inv] ph by (cases "buffptr ?w = 0") (auto simp: krealloc_def backed_def split: option.splits)
  ultimately show thesis
    using that [of p ?s] False by (simp add: write_alloc_def)
qed

lemma alloc_post_inv:
  assumes "alloc_post s cnt p s'" "mem_inv s"
  shows "mem_inv s'" "map (content (heap s')) (stored s') = map (content (heap s)) (stored s)"
proof -
  note A = assms(1) [unfolded alloc_post_def]
  have dev: "circle_buff (aesd_device s') = circle_buff (aesd_device s)" using A by simp
  have frame: "e \<in> set (stored s) \<Longrightarrow> heap s' (buffptr e) = heap s (buffptr e)" for e
    using A by simp
  show "map (content (heap s')) (stored s') = map (content (heap s)) (stored s)"
    using frame dev by (auto intro: content_frame)
  have "distinct (map buffptr (stored s))"
    using mem_invD(5) [OF assms(2)] by (simp add: owned_def)
  then have "distinct (owned s')"
    using A dev by (auto simp: owned_def)
  moreover have "\<forall>e \<in> set (stored s'). stored_ok (heap s') e"
    using mem_invD(2) [OF assms(2)] dev stored_frame [of "heap s'" _ "heap s", OF frame] by simp
  moreover have "buffptr (working s') = 0 \<or> backed (heap s') (working s')"
    using A by (auto simp: backed_def)
  ultimately show "mem_inv s'"
    using A mem_invD(1,3) [OF assms(2)] dev by (simp add: mem_inv_def)
qed


section \<open>Copying and completing a command\<close>

lemma heap_store_in:
  assumes "h p = Some bs" "length bs = off + length xs"
  shows "heap_store h p off xs = Some (h(p \<mapsto> take off bs @ xs))"
  using assms by (simp add: heap_store_def)

lemma kmemchr_in:
  assumes "h (buffptr w) = Some bs" "unat (esize w) \<le> length bs"
  shows "kmemchr h (buffptr w) c (esize w) = Some (c \<in> set (content h w))"
  using assms by (simp add: kmemchr_def heap_load_def content_def)

text \<open>The state in which a complete command \<open>w\<close> has been stored.\<close>

lemma push_command:
  assumes K: "kernel_ok K" and inv: "mem_inv s" and w: "w = working s"
    and complete: "buffptr w \<noteq> 0" "newline \<in> set (content (heap s) w)"
  obtains old cb h s' where
    "aesd_circular_buffer_add_entry (circle_buff (aesd_device s)) w = Some (old, cb)"
    "(if old \<noteq> 0 then kfree K (heap s) old else Some (heap s)) = Some h"
    "s' = s\<lparr>heap := h, aesd_device := (aesd_device s)\<lparr>circle_buff := cb,
            circle_buff_entry := \<lparr>buffptr = 0, esize = 0\<rparr>\<rparr>\<rparr>"
    "mem_inv s'" "map (content (heap s')) (stored s') =
       keep_last 10 (map (content (heap s)) (stored s) @ [content (heap s) w])"
    "no_leak s \<longrightarrow> no_leak s'"
proof -
  let ?xs = "stored s @ [w]"
  let ?old = "if full (circle_buff (aesd_device s)) then buffptr (hd (stored s)) else 0"
  let ?h = "if full (circle_buff (aesd_device s)) then (heap s)(buffptr (hd (stored s)) := None) else heap s"
  obtain cb where add: "aesd_circular_buffer_add_entry (circle_buff (aesd_device s)) w = Some (?old, cb)"
    and cb: "ring_inv cb" "ring_list cb = keep_last 10 ?xs"
    using add_entry_fifo [OF mem_invD(1) [OF inv]] by blast
  let ?s = "s\<lparr>heap := ?h, aesd_device := (aesd_device s)\<lparr>circle_buff := cb,
            circle_buff_entry := \<lparr>buffptr = 0, esize = 0\<rparr>\<rparr>\<rparr>"
  have own: "owned s = map buffptr ?xs" using complete(1) by (simp add: owned_def w)
  then have dist: "distinct (map buffptr ?xs)" using mem_invD(5) [OF inv] by simp
  have ok: "\<forall>e \<in> set ?xs. stored_ok (heap s) e"
    using mem_invD(2,3,4) [OF inv] complete by (auto simp: stored_ok_def w)
  have ten: "full (circle_buff (aesd_device s)) \<Longrightarrow> length (stored s) = 10"
    by (simp add: ring_count_def)
  have nonempty: "full (circle_buff (aesd_device s)) \<Longrightarrow> stored s \<noteq> []"
    using ten by (metis list.size(3) zero_neq_numeral)
  have kept: "keep_last 10 ?xs = (if full (circle_buff (aesd_device s)) then tl (stored s) @ [w] else ?xs)"
  proof (cases "full (circle_buff (aesd_device s))")
    case True
    then show ?thesis using ten by (simp add: keep_last_snoc_full)
  next
    case False
    then have "length ?xs \<le> 10"
      using ring_count_not_full [OF mem_invD(1) [OF inv]] ring_invD(2) [OF mem_invD(1) [OF inv]] by simp
    then show ?thesis using False keep_last_short by metis
  qed
  have free: "(if ?old \<noteq> 0 then kfree K (heap s) ?old else Some (heap s)) = Some ?h"
  proof (cases "full (circle_buff (aesd_device s))")
    case True
    then have "hd (stored s) \<in> set (stored s)" using nonempty by (intro hd_in_set)
    then have "buffptr (hd (stored s)) \<noteq> 0" "heap s (buffptr (hd (stored s))) \<noteq> None"
      using ok by (auto simp: stored_ok_def backed_def split: option.splits)
    then show ?thesis using True kernel_okD(4) [OF K] by (simp add: kfree_def)
  qed simp
  have frame: "?h (buffptr e) = heap s (buffptr e)" if "e \<in> set (keep_last 10 ?xs)" for e
  proof (cases "full (circle_buff (aesd_device s))")
    case True
    then have "buffptr (hd (stored s)) \<notin> set (map buffptr (tl (stored s) @ [w]))"
      using nonempty dist by (cases "stored s") auto
    moreover have "buffptr e \<in> set (map buffptr (tl (stored s) @ [w]))"
      using that True unfolding kept by auto
    ultimately have "buffptr e \<noteq> buffptr (hd (stored s))" by metis
    then show ?thesis by simp
  qed simp
  show thesis
  proof (rule that [OF add free refl])
    have "\<forall>e \<in> set (keep_last 10 ?xs). stored_ok ?h e"
      using ok set_keep_last [of 10 ?xs] stored_frame [of ?h _ "heap s", OF frame] by blast
    moreover have "distinct (map buffptr (keep_last 10 ?xs))"
      unfolding keep_last_map [symmetric] by (rule distinct_keep_last [OF dist])
    ultimately show "mem_inv ?s"
      using cb mem_invD(6) [OF inv] by (simp add: mem_inv_def owned_def)
    have "map (content ?h) (keep_last 10 ?xs) = map (content (heap s)) (keep_last 10 ?xs)"
      using content_frame [of ?h _ "heap s", OF frame] by simp
    then show "map (content (heap ?s)) (stored ?s) =
       keep_last 10 (map (content (heap s)) (stored s) @ [content (heap s) w])"
      by (simp add: cb keep_last_map [symmetric])
    show "no_leak s \<longrightarrow> no_leak ?s"
    proof (cases "full (circle_buff (aesd_device s))")
      case True
      then have "stored s = hd (stored s) # tl (stored s)" using nonempty by (cases "stored s") auto
      then have "set (map buffptr ?xs) \<subseteq> insert (buffptr (hd (stored s))) (set (map buffptr (tl (stored s) @ [w])))"
        by (metis append_Cons list.simps(15) list.simps(9) order_refl)
      moreover have "dom (heap ?s) = dom (heap s) - {buffptr (hd (stored s))}"
        using True by auto
      moreover have "set (owned ?s) = set (map buffptr (tl (stored s) @ [w]))"
        using True kept by (simp add: owned_def cb)
      ultimately show ?thesis
        unfolding no_leak_def own by blast
    next
      case False
      then show ?thesis using kept unfolding no_leak_def own by (simp add: owned_def cb)
    qed
  qed
qed


lemma write_copy_post:
  assumes K: "kernel_ok K" and inv: "mem_inv s" and ubuf: "length ubuf = unat cnt"
    and block: "heap s (buffptr (working s)) = Some bs" "length bs = unat (esize (working s)) + unat cnt"
      "length bs < 2 ^ 31"
  obtains r s' where "write_copy K ubuf cnt s = Some (r, s')"
    "r = cnt - snd (k_copy_from_user K ubuf cnt)" "unat r \<le> unat cnt"
    "mem_inv s'" "lock (aesd_device s') = lock (aesd_device s)"
    "newline \<notin> set (content (heap s') (working s'))"
    "view s' = spec_write (take (unat r) ubuf)
       \<lparr>commands = map (content (heap s)) (stored s), partial = take (unat (esize (working s))) bs\<rparr>"
    "no_leak s \<longrightarrow> no_leak s'"
    "working s' = null_entry \<or>
     working s' = (working s)\<lparr>esize := esize (working s) + r\<rparr>"
proof -
  let ?w = "working s"
  obtain copied u where cu: "k_copy_from_user K ubuf cnt = (copied, u)" by (cases "k_copy_from_user K ubuf cnt")
  note copy = copy_from_userD [OF K ubuf cu]
  let ?r = "cnt - u"
  have r: "unat ?r \<le> unat cnt" using copy(1) by (simp add: unat_sub_le)
  have size: "unat (esize ?w + ?r) = unat (esize ?w) + unat ?r"
    using block r by (intro unat_add_nowrap) simp
  let ?bs = "take (unat (esize ?w)) bs @ copied"
  let ?w' = "?w\<lparr>esize := esize ?w + ?r\<rparr>"
  let ?h = "(heap s)(buffptr ?w \<mapsto> ?bs)"
  let ?s = "s\<lparr>heap := ?h, aesd_device := (aesd_device s)\<lparr>circle_buff_entry := ?w'\<rparr>\<rparr>"
  have nz: "buffptr ?w \<noteq> 0" using block(1) mem_invD(6) [OF inv] by auto
  have len: "length ?bs = length bs" using block copy by simp
  have total: "content ?h ?w' = take (unat (esize ?w)) bs @ take (unat ?r) ubuf"
    using block(2) copy size by (simp add: content_def)
  have store: "heap_store (heap s) (buffptr ?w) (unat (esize ?w)) copied = Some ?h"
    using block copy by (intro heap_store_in) simp_all
  have chr: "kmemchr ?h (buffptr ?w) newline (esize ?w + ?r) = Some (newline \<in> set (content ?h ?w'))"
    using kmemchr_in [of ?h ?w' ?bs newline] len block r size by simp
  have frame: "?h (buffptr e) = heap s (buffptr e)" if "e \<in> set (stored s)" for e
    using working_not_stored [OF inv] that by (auto simp: image_iff)
  have stored_eq: "map (content ?h) (stored s) = map (content (heap s)) (stored s)"
    using content_frame [of ?h _ "heap s", OF frame] by simp
  have inv': "mem_inv ?s"
  proof -
    have "\<forall>e \<in> set (stored s). stored_ok ?h e"
      using mem_invD(2) [OF inv] stored_frame [of ?h _ "heap s", OF frame] by simp
    moreover have "backed ?h ?w'" using nz len block r size by (simp add: backed_def)
    ultimately show ?thesis
      using mem_invD [OF inv] nz block r size by (simp add: mem_inv_def owned_def)
  qed
  have leak: "no_leak s \<longrightarrow> no_leak ?s"
    using nz by (auto simp: no_leak_def owned_def)
  show thesis
  proof (cases "newline \<in> set (content ?h ?w')")
    case False
    then have "write_copy K ubuf cnt s = Some (?r, ?s)"
      using store chr by (simp add: write_copy_def cu Let_def)
    then show thesis
    proof (rule that)
      show "view ?s = spec_write (take (unat ?r) ubuf)
        \<lparr>commands = map (content (heap s)) (stored s), partial = take (unat (esize ?w)) bs\<rparr>"
        using False total stored_eq by (simp add: view_def spec_write_def)
    qed (use False inv' leak r in \<open>simp_all add: cu\<close>)
  next
    case True
    obtain old cb h s' where push:
      "aesd_circular_buffer_add_entry (circle_buff (aesd_device ?s)) ?w' = Some (old, cb)"
      "(if old \<noteq> 0 then kfree K (heap ?s) old else Some (heap ?s)) = Some h"
      "s' = ?s\<lparr>heap := h, aesd_device := (aesd_device ?s)\<lparr>circle_buff := cb,
            circle_buff_entry := \<lparr>buffptr = 0, esize = 0\<rparr>\<rparr>\<rparr>"
      "mem_inv s'" "map (content (heap s')) (stored s') =
       keep_last 10 (map (content (heap ?s)) (stored ?s) @ [content (heap ?s) ?w'])"
      "no_leak ?s \<longrightarrow> no_leak s'"
      by (rule push_command [OF K inv', of ?w']) (use True nz in simp_all)
    have "write_copy K ubuf cnt s = Some (?r, s')"
      using store chr push(1,2) True by (simp add: write_copy_def cu Let_def push(3))
    then show thesis
    proof (rule that)
      have work: "working s' = null_entry" by (simp add: push(3) null_entry_def)
      then have none: "content (heap s') (working s') = []"
        by (simp add: content_def null_entry_def split: option.splits)
      show "view s' = spec_write (take (unat ?r) ubuf)
        \<lparr>commands = map (content (heap s)) (stored s), partial = take (unat (esize ?w)) bs\<rparr>"
        using True total stored_eq none push(5) by (simp add: view_def spec_write_def del: map_eq_conv)
      show "newline \<notin> set (content (heap s') (working s'))" by (simp add: none)
      show "working s' = null_entry \<or>
          working s' = ?w\<lparr>esize := esize ?w + ?r\<rparr>" by (simp add: work)
    qed (use push(4,6) leak r in \<open>simp_all add: cu push(3)\<close>)
  qed
qed

end
