(* ===== verification/Driver_Write.thy ===== *)
theory Driver_Write
  imports Driver_Safety
begin

text \<open>
  What \<open>aesd_write\<close> does, in every outcome: the case lemma joins the two halves analysed in
  \<open>Driver_Safety\<close> under the guards and the lock; the properties are its consequences.
\<close>

section \<open>All outcomes of a write\<close>

text \<open>The collected bytes are still there: the state after a failed reallocation is not healthy,
  since the pointer is gone and the size is not.\<close>

definition healthy :: "kstate \<Rightarrow> bool" where
  "healthy s \<longleftrightarrow> (buffptr (working s) = 0 \<longrightarrow> esize (working s) = 0)"

lemma dev_invD: "dev_inv s \<Longrightarrow> mem_inv s" "dev_inv s \<Longrightarrow> \<not> lock (aesd_device s)"
  "dev_inv s \<Longrightarrow> newline \<notin> set (content (heap s) (working s))"
  by (simp_all add: dev_inv_def)

lemma dev_inv_interrupted:
  assumes "kernel_ok K" "dev_inv s" "k_mutex_lock_interruptible K (lock (aesd_device s)) = (r, l)" "r \<noteq> 0"
  shows "set_lock l s = s"
proof -
  have "l = lock (aesd_device s)"
    using lock_okD(2) [OF kernel_okD(1) [OF assms(1)] assms(3,4)] .
  then show ?thesis by (simp add: set_lock_def)
qed

lemma dev_inv_unlock:
  assumes "kernel_ok K" "mem_inv s" "newline \<notin> set (content (heap s) (working s))"
  shows "dev_inv (mutex_unlock K s)"
  using assms lock_okD(3) [OF kernel_okD(1)] by (simp add: dev_inv_def)

lemma no_content [simp]: "h 0 = None \<Longrightarrow> content h \<lparr>buffptr = 0, esize = n\<rparr> = []"
  by (simp add: content_def)

lemma write_cases:
  assumes K: "kernel_ok K" and inv: "dev_inv s" and f: "private_data f = AesdDevice"
    and cnt: "unat cnt < 2 ^ 31" and ubuf: "length ubuf = unat cnt"
  obtains
    (empty) "cnt = 0" "aesd_write K (Some f) (Some ubuf) cnt (Some pos) s = Some (0, pos, s)"
  | (interrupted) "fst (k_mutex_lock_interruptible K False) \<noteq> 0"
      "aesd_write K (Some f) (Some ubuf) cnt (Some pos) s = Some (- ERESTARTSYS, pos, s)"
  | (no_memory) s' where "cnt \<noteq> 0" "fst (k_mutex_lock_interruptible K False) = 0"
      "aesd_write K (Some f) (Some ubuf) cnt (Some pos) s = Some (- ENOMEM, pos, s')" "dev_inv s'"
      "fst (the (write_alloc K cnt (set_lock True s))) = 0"
      "heap s' = heap s" "stored s' = stored s" "working s' = \<lparr>buffptr = 0, esize = esize (working s)\<rparr>"
  | (copied) r s' old where "cnt \<noteq> 0" "fst (k_mutex_lock_interruptible K False) = 0"
      "aesd_write K (Some f) (Some ubuf) cnt (Some pos) s = Some (r, pos, s')" "dev_inv s'"
      "fst (the (write_alloc K cnt (set_lock True s))) \<noteq> 0"
      "r = cnt - snd (k_copy_from_user K ubuf cnt)" "unat r \<le> unat cnt"
      "length old = unat (esize (working s))" "healthy s \<longrightarrow> old = partial (view s)"
      "view s' = spec_write (take (unat r) ubuf) \<lparr>commands = commands (view s), partial = old\<rparr>"
      "healthy s'" "no_leak s \<and> (esize (working s) = 0 \<longrightarrow> buffptr (working s) = 0) \<longrightarrow> no_leak s'"
      "r \<noteq> 0 \<or> esize (working s) \<noteq> 0 \<longrightarrow> (esize (working s') = 0 \<longrightarrow> buffptr (working s') = 0)"
proof -
  have unlocked: "lock (aesd_device s) = False" using dev_invD(2) [OF inv] by simp
  obtain lr l where lk: "k_mutex_lock_interruptible K False = (lr, l)" by (cases "k_mutex_lock_interruptible K False")
  show thesis
  proof (cases "cnt = 0")
    case True
    then show thesis by (intro empty) (simp_all add: aesd_write_def)
  next
    case nz: False
    show thesis
    proof (cases "lr = 0")
      case False
      then show thesis
        using nz lk f unlocked by (intro interrupted) (simp_all add: aesd_write_def deref_device_def)
    next
      case True
      then have l: "l" using lock_okD(1) [OF kernel_okD(1) [OF K] lk] by simp
      let ?s = "set_lock True s"
      have inv1: "mem_inv ?s" using dev_invD(1) [OF inv] by simp
      obtain p s1 where al: "write_alloc K cnt ?s = Some (p, s1)" and post: "alloc_post ?s cnt p s1"
        by (rule write_alloc_post [OF K inv1 nz cnt])
      note A = post [unfolded alloc_post_def]
      have inv2: "mem_inv s1" by (rule alloc_post_inv(1) [OF post inv1])
      show thesis
      proof (cases "p = 0")
        case p: True
        have w: "working s1 = \<lparr>buffptr = 0, esize = esize (working s)\<rparr>" using A p by simp
        have "heap s1 0 = None" using A by blast
        then have nl: "newline \<notin> set (content (heap s1) (working s1))" by (simp add: w)
        show thesis
        proof (rule no_memory [OF nz])
          show "aesd_write K (Some f) (Some ubuf) cnt (Some pos) s = Some (- ENOMEM, pos, mutex_unlock K s1)"
            using nz lk True l f unlocked al p by (simp add: aesd_write_def deref_device_def)
          show "dev_inv (mutex_unlock K s1)" by (rule dev_inv_unlock [OF K inv2 nl])
        qed (use lk True al p A w in simp_all)
      next
        case p: False
        have w: "working s1 = \<lparr>buffptr = p, esize = esize (working s)\<rparr>" using A by simp
        obtain bs where bs: "heap s1 p = Some bs" "length bs = unat (esize (working s)) + unat cnt" "length bs < 2 ^ 31"
          "esize (working s) = 0 \<or> buffptr (working s) \<noteq> 0 \<longrightarrow>
             take (unat (esize (working s))) bs = take (unat (esize (working s))) (content (heap s) (working s))"
          using A p by auto
        let ?old = "take (unat (esize (working s))) bs"
        have cmds: "map (content (heap s1)) (stored s1) = commands (view s)"
          using alloc_post_inv(2) [OF post inv1] by (simp add: view_def)
        have pre: "heap s1 (buffptr (working s1)) = Some bs"
          "length bs = unat (esize (working s1)) + unat cnt" "length bs < 2 ^ 31"
          using bs w by simp_all
        obtain r s2 where wc0: "write_copy K ubuf cnt s1 = Some (r, s2)"
          "r = cnt - snd (k_copy_from_user K ubuf cnt)" "unat r \<le> unat cnt" "mem_inv s2"
          "lock (aesd_device s2) = lock (aesd_device s1)"
          "newline \<notin> set (content (heap s2) (working s2))"
          "view s2 = spec_write (take (unat r) ubuf)
             \<lparr>commands = map (content (heap s1)) (stored s1), partial = take (unat (esize (working s1))) bs\<rparr>"
          "no_leak s1 \<longrightarrow> no_leak s2"
          "working s2 = null_entry \<or> working s2 = (working s1)\<lparr>esize := esize (working s1) + r\<rparr>"
          by (rule write_copy_post [OF K inv2 ubuf pre])
        have wc: "write_copy K ubuf cnt s1 = Some (r, s2)"
          "r = cnt - snd (k_copy_from_user K ubuf cnt)" "unat r \<le> unat cnt" "mem_inv s2"
          "newline \<notin> set (content (heap s2) (working s2))"
          "view s2 = spec_write (take (unat r) ubuf) \<lparr>commands = commands (view s), partial = ?old\<rparr>"
          "no_leak s1 \<longrightarrow> no_leak s2"
          "working s2 = null_entry \<or> working s2 = \<lparr>buffptr = p, esize = esize (working s) + r\<rparr>"
          using wc0 by (simp_all add: w cmds del: map_eq_conv)
        have partial: "healthy s \<longrightarrow> ?old = partial (view s)"
          using bs(4) by (auto simp: healthy_def view_def content_def split: option.splits)
        have leak: "no_leak s \<and> (esize (working s) = 0 \<longrightarrow> buffptr (working s) = 0) \<longrightarrow> no_leak s1"
        proof
          assume "no_leak s \<and> (esize (working s) = 0 \<longrightarrow> buffptr (working s) = 0)"
          then have "dom (heap s) \<subseteq> set (map buffptr (stored s)) \<union> {buffptr (working s)}"
            "esize (working s) = 0 \<longrightarrow> dom (heap s) \<subseteq> set (map buffptr (stored s))"
            by (auto simp: no_leak_def owned_def split: if_splits)
          then have "dom (heap s1) \<subseteq> insert p (set (map buffptr (stored s)))"
            using A p by (simp split: if_splits) blast+
          moreover have "set (owned s1) = insert p (set (map buffptr (stored s)))"
            using A p by (simp add: owned_def)
          ultimately show "no_leak s1" by (simp add: no_leak_def)
        qed
        have sum: "esize (working s) + r = 0 \<longrightarrow> esize (working s) = 0 \<and> r = 0"
        proof -
          have "unat (esize (working s) + r) = unat (esize (working s)) + unat r"
            using bs wc(3) by (intro unat_add_nowrap) simp
          then show ?thesis by (metis add_is_0 unat_eq_0)
        qed
        show thesis
        proof (rule copied [OF nz])
          show "aesd_write K (Some f) (Some ubuf) cnt (Some pos) s = Some (r, pos, mutex_unlock K s2)"
            using nz lk True l f unlocked al p wc(1) by (simp add: aesd_write_def deref_device_def)
          show "dev_inv (mutex_unlock K s2)" by (rule dev_inv_unlock [OF K wc(4,5)])
          show "healthy (mutex_unlock K s2)"
            using wc(8) p by (auto simp: healthy_def null_entry_def)
          show "no_leak s \<and> (esize (working s) = 0 \<longrightarrow> buffptr (working s) = 0) \<longrightarrow> no_leak (mutex_unlock K s2)"
            using leak wc(7) by (simp add: no_leak_def)
          show "r \<noteq> 0 \<or> esize (working s) \<noteq> 0 \<longrightarrow>
              (esize (working (mutex_unlock K s2)) = 0 \<longrightarrow> buffptr (working (mutex_unlock K s2)) = 0)"
            using wc(8) sum by (auto simp: null_entry_def)
        qed (use lk True al p wc(2,3,6) bs partial in simp_all)
      qed
    qed
  qed
qed


section \<open>A fresh device\<close>

definition fresh_state :: kstate where
  "fresh_state = \<lparr>heap = Map.empty, aesd_device =
     \<lparr>circle_buff = aesd_circular_buffer_init, circle_buff_entry = null_entry, lock = False\<rparr>\<rparr>"

text \<open>No size without a pointer and no pointer without a size.\<close>

definition tidy :: "kstate \<Rightarrow> bool" where
  "tidy s \<longleftrightarrow> (buffptr (working s) = 0 \<longleftrightarrow> esize (working s) = 0)"

lemma tidy_healthy: "tidy s \<Longrightarrow> healthy s"
  by (simp add: tidy_def healthy_def)

lemma fresh_state:
  "dev_inv fresh_state" "healthy fresh_state" "tidy fresh_state" "no_leak fresh_state"
  "view fresh_state = \<lparr>commands = [], partial = []\<rparr>"
  by (simp_all add: fresh_state_def dev_inv_def mem_inv_def ring_inv_init ring_list_init owned_def
      content_def null_entry_def healthy_def tidy_def no_leak_def view_def)

abbreviation some_file :: struct_file where
  "some_file \<equiv> \<lparr>f_pos = 0, private_data = AesdDevice\<rparr>"

section \<open>Properties\<close>

text \<open>C11. A write through an open file never has undefined behaviour, whatever the kernel
  services do (interrupted lock, no memory, short copy) and whatever happened before: it returns
  an error of the two kinds or at most \<open>cnt\<close>, leaves the file position alone, releases the mutex and
  keeps the device invariant.\<close>

theorem write_memory_safe:
  assumes "kernel_ok K" "dev_inv s" "private_data f = AesdDevice"
    and "unat cnt < 2 ^ 31" "length ubuf = unat cnt"
  shows "\<exists>r s'. aesd_write K (Some f) (Some ubuf) cnt (Some pos) s = Some (r, pos, s') \<and> dev_inv s' \<and>
    (r = - ERESTARTSYS \<or> r = - ENOMEM \<or> unat r \<le> unat cnt)"
  by (rule write_cases [OF assms, of pos]) (use assms(2) in auto)

theorem write_memory_safe_witness:
  "\<exists>r s'. aesd_write demo_kernel (Some some_file) (Some [104, 105, 10]) 3 (Some 0) fresh_state =
     Some (r, 0, s') \<and> dev_inv s' \<and> (r = - ERESTARTSYS \<or> r = - ENOMEM \<or> unat r \<le> 3)"
  using write_memory_safe [OF demo_kernel_ok fresh_state(1), of some_file 3 "[104, 105, 10]" 0] by simp

text \<open>C5. When the lock is taken and memory is found, a write appends exactly the bytes the user copy
  delivered and returns their number: they extend the command being collected, and if the result
  contains a newline it becomes the newest of the (at most ten) commands. The collected bytes are those written
  before, as long as the state is healthy, that is, unless an earlier reallocation failed while bytes were collected;
  after such a failure as many bytes as had been collected stand in their place, and the state is healthy again.\<close>

theorem write_refines_spec:
  assumes "kernel_ok K" "dev_inv s" "private_data f = AesdDevice"
    and "unat cnt < 2 ^ 31" "length ubuf = unat cnt"
    and "cnt \<noteq> 0" "fst (k_mutex_lock_interruptible K False) = 0"
    and "fst (the (write_alloc K cnt (set_lock True s))) \<noteq> 0"
  shows "\<exists>collected s'. aesd_write K (Some f) (Some ubuf) cnt (Some pos) s =
      Some (cnt - snd (k_copy_from_user K ubuf cnt), pos, s') \<and>
    length collected = unat (esize (working s)) \<and> (healthy s \<longrightarrow> collected = partial (view s)) \<and>
    view s' = spec_write (take (unat (cnt - snd (k_copy_from_user K ubuf cnt))) ubuf)
      \<lparr>commands = commands (view s), partial = collected\<rparr> \<and>
    dev_inv s' \<and> healthy s'"
proof (rule write_cases [OF assms(1-5), of pos])
  fix r s' old
  assume "aesd_write K (Some f) (Some ubuf) cnt (Some pos) s = Some (r, pos, s')" "dev_inv s'"
    "r = cnt - snd (k_copy_from_user K ubuf cnt)" "length old = unat (esize (working s))"
    "healthy s \<longrightarrow> old = partial (view s)"
    "view s' = spec_write (take (unat r) ubuf) \<lparr>commands = commands (view s), partial = old\<rparr>" "healthy s'"
  then show ?thesis by (intro exI [of _ old] exI [of _ s']) simp
qed (use assms in simp_all)

lemma demo_alloc_fresh: "n < 2 ^ 22 \<Longrightarrow>
  write_alloc demo_kernel (word_of_nat n) (set_lock True fresh_state) \<noteq> None \<and>
  fst (the (write_alloc demo_kernel (word_of_nat n) (set_lock True fresh_state))) = 4096"
  by (simp add: write_alloc_def fresh_state_def set_lock_def null_entry_def demo_kernel_simps demo_kmalloc_def
      demo_fresh_def upt_rec unat_of_nat take_bit_nat_eq_self)

theorem write_refines_spec_witness:
  "\<exists>s'. aesd_write demo_kernel (Some some_file) (Some [104, 105, 10]) 3 (Some 0) fresh_state = Some (3, 0, s') \<and>
     view s' = \<lparr>commands = [[104, 105, 10]], partial = []\<rparr>"
proof -
  have lk: "fst (k_mutex_lock_interruptible demo_kernel False) = 0" by (simp add: demo_kernel_simps)
  have al: "fst (the (write_alloc demo_kernel 3 (set_lock True fresh_state))) \<noteq> 0"
    using demo_alloc_fresh [of 3] by simp
  show ?thesis
    using write_refines_spec [OF demo_kernel_ok fresh_state(1) _ _ _ _ lk al,
        of some_file "[104, 105, 10]" 0] fresh_state(2)
    by (auto simp: demo_kernel_simps fresh_state(5) spec_write_def newline_def)
qed

text \<open>C31. No block is lost while the reallocation succeeds and every copy delivers something: the
  blocks the driver holds are then those of the stored commands and of the one being collected.\<close>

theorem write_no_leak:
  assumes "kernel_ok K" "dev_inv s" "private_data f = AesdDevice"
    and "unat cnt < 2 ^ 31" "length ubuf = unat cnt"
    and "tidy s" "no_leak s" "cnt \<noteq> 0" "fst (k_mutex_lock_interruptible K False) = 0"
    and "fst (the (write_alloc K cnt (set_lock True s))) \<noteq> 0" "snd (k_copy_from_user K ubuf cnt) \<noteq> cnt"
  shows "\<exists>r s'. aesd_write K (Some f) (Some ubuf) cnt (Some pos) s = Some (r, pos, s') \<and>
    no_leak s' \<and> tidy s'"
proof (rule write_cases [OF assms(1-5), of pos])
  fix r s' old
  assume w: "aesd_write K (Some f) (Some ubuf) cnt (Some pos) s = Some (r, pos, s')"
    and r: "r = cnt - snd (k_copy_from_user K ubuf cnt)" and "healthy s'"
    and "no_leak s \<and> (esize (working s) = 0 \<longrightarrow> buffptr (working s) = 0) \<longrightarrow> no_leak s'"
      "r \<noteq> 0 \<or> esize (working s) \<noteq> 0 \<longrightarrow> (esize (working s') = 0 \<longrightarrow> buffptr (working s') = 0)"
  moreover have "r \<noteq> 0" using r assms(11) by simp
  ultimately have "no_leak s'" "tidy s'"
    using assms(6,7) by (auto simp: tidy_def healthy_def)
  then show ?thesis using w by blast
qed (use assms in simp_all)

theorem write_no_leak_witness:
  "\<exists>r s'. aesd_write demo_kernel (Some some_file) (Some [104]) 1 (Some 0) fresh_state = Some (r, 0, s') \<and>
     no_leak s' \<and> tidy s'"
proof -
  have lk: "fst (k_mutex_lock_interruptible demo_kernel False) = 0" by (simp add: demo_kernel_simps)
  have al: "fst (the (write_alloc demo_kernel 1 (set_lock True fresh_state))) \<noteq> 0"
    using demo_alloc_fresh [of 1] by simp
  show ?thesis
    by (rule write_no_leak [OF demo_kernel_ok fresh_state(1) _ _ _ fresh_state(3,4) _ lk al])
      (simp_all add: demo_kernel_simps)
qed

text \<open>A failed reallocation drops the command being collected: \<open>-ENOMEM\<close> is returned, its bytes
  are no longer visible, its size is kept, and its block stays allocated without an owner.\<close>

theorem failed_realloc_loses_block:
  assumes "kernel_ok K" "dev_inv s" "private_data f = AesdDevice"
    and "unat cnt < 2 ^ 31" "length ubuf = unat cnt"
    and "tidy s" "partial (view s) \<noteq> []" "cnt \<noteq> 0" "fst (k_mutex_lock_interruptible K False) = 0"
    and "fst (the (write_alloc K cnt (set_lock True s))) = 0"
  shows "\<exists>s'. aesd_write K (Some f) (Some ubuf) cnt (Some pos) s = Some (- ENOMEM, pos, s') \<and>
    commands (view s') = commands (view s) \<and> partial (view s') = [] \<and>
    esize (working s') = esize (working s) \<and> \<not> healthy s' \<and> \<not> no_leak s'"
proof (rule write_cases [OF assms(1-5), of pos])
  fix s'
  assume w: "aesd_write K (Some f) (Some ubuf) cnt (Some pos) s = Some (- ENOMEM, pos, s')"
    and s': "heap s' = heap s" "stored s' = stored s" "working s' = \<lparr>buffptr = 0, esize = esize (working s)\<rparr>"
  note inv = dev_invD(1) [OF assms(2)]
  have size: "esize (working s) \<noteq> 0" and own: "buffptr (working s) \<in> dom (heap s)"
    using assms(7) by (auto simp: view_def content_def split: option.splits)
  have "buffptr (working s) \<notin> set (owned s')"
    using working_not_stored [OF inv] by (simp add: owned_def s')
  then have "\<not> no_leak s'" using own by (auto simp: no_leak_def s')
  moreover have "commands (view s') = commands (view s)" "partial (view s') = []"
    using mem_invD(6) [OF inv] by (simp_all add: view_def s')
  ultimately show ?thesis using w size by (simp add: healthy_def s')
qed (use assms in simp_all)

text \<open>The services of \<open>demo_kernel\<close> with no memory left for a reallocation.\<close>

definition no_realloc_kernel :: kenv where
  "no_realloc_kernel = demo_kernel\<lparr>k_krealloc := (\<lambda>h p n. (0, h))\<rparr>"

lemma no_realloc_kernel:
  "kernel_ok no_realloc_kernel" "fst (k_mutex_lock_interruptible no_realloc_kernel l) = 0"
  using demo_kernel_ok
  by (auto simp: no_realloc_kernel_def kernel_ok_def lock_ok_def alloc_ok_def copy_ok_def demo_kernel_simps)

text \<open>The state after the two bytes \<open>a b\<close> were written to a fresh device.\<close>

definition collecting_state :: kstate where
  "collecting_state = fresh_state\<lparr>heap := [4096 \<mapsto> [97, 98]],
     aesd_device := (aesd_device fresh_state)\<lparr>circle_buff_entry := \<lparr>buffptr = 4096, esize = 2\<rparr>\<rparr>\<rparr>"

lemma collecting_state:
  "dev_inv collecting_state" "tidy collecting_state" "partial (view collecting_state) = [97, 98]"
  by (simp_all add: collecting_state_def fresh_state_def dev_inv_def mem_inv_def ring_inv_init ring_list_init
      owned_def backed_def content_def tidy_def view_def newline_def)

theorem failed_realloc_loses_block_witness:
  "\<exists>s'. aesd_write no_realloc_kernel (Some some_file) (Some [99]) 1 (Some 0) collecting_state =
      Some (- ENOMEM, 0, s') \<and> \<not> no_leak s'"
proof -
  have al: "fst (the (write_alloc no_realloc_kernel 1 (set_lock True collecting_state))) = 0"
    by (simp add: write_alloc_def krealloc_def collecting_state_def set_lock_def no_realloc_kernel_def)
  show ?thesis
    using failed_realloc_loses_block [OF no_realloc_kernel(1) collecting_state(1) _ _ _ collecting_state(2) _ _
        no_realloc_kernel(2) al, of some_file "[99]" 0]
    by (auto simp: collecting_state(3))
qed

text \<open>The next successful write after that stores bytes nobody wrote: nothing is visible as
  collected, yet the command stored for a write of \<open>ubuf\<close> starts with as many bytes of the fresh
  block's memory as had been collected before the failure.\<close>

theorem write_after_failed_realloc_stores_garbage:
  assumes "kernel_ok K" "dev_inv s" "private_data f = AesdDevice"
    and "unat cnt < 2 ^ 31" "length ubuf = unat cnt"
    and "\<not> healthy s" "cnt \<noteq> 0" "fst (k_mutex_lock_interruptible K False) = 0"
    and "fst (the (write_alloc K cnt (set_lock True s))) \<noteq> 0" "snd (k_copy_from_user K ubuf cnt) = 0"
    and "newline \<in> set ubuf"
  shows "partial (view s) = [] \<and>
    (\<exists>garbage s'. garbage \<noteq> [] \<and> length garbage = unat (esize (working s)) \<and>
      aesd_write K (Some f) (Some ubuf) cnt (Some pos) s = Some (cnt, pos, s') \<and>
      commands (view s') = keep_last 10 (commands (view s) @ [garbage @ ubuf]))"
proof -
  have w: "buffptr (working s) = 0" "esize (working s) \<noteq> 0"
    using assms(6) by (simp_all add: healthy_def)
  then have "partial (view s) = []"
    using mem_invD(6) [OF dev_invD(1) [OF assms(2)]] by (simp add: view_def content_def)
  moreover have "\<exists>garbage s'. garbage \<noteq> [] \<and> length garbage = unat (esize (working s)) \<and>
      aesd_write K (Some f) (Some ubuf) cnt (Some pos) s = Some (cnt, pos, s') \<and>
      commands (view s') = keep_last 10 (commands (view s) @ [garbage @ ubuf])"
  proof (rule write_cases [OF assms(1-5), of pos])
    fix r s' old
    assume "aesd_write K (Some f) (Some ubuf) cnt (Some pos) s = Some (r, pos, s')"
      "r = cnt - snd (k_copy_from_user K ubuf cnt)" "length old = unat (esize (working s))"
      "view s' = spec_write (take (unat r) ubuf) \<lparr>commands = commands (view s), partial = old\<rparr>"
    moreover from this(3) have "old \<noteq> []" using w(2) by (auto simp: unat_eq_0)
    ultimately show ?thesis
      using assms(5,10,11) by (intro exI [of _ old] exI [of _ s']) (auto simp: spec_write_def)
  qed (use assms in simp_all)
  ultimately show ?thesis by blast
qed

text \<open>The state that the refused write of \<open>c\<close> leaves behind when \<open>a b\<close> were collected.\<close>

definition poisoned_state :: kstate where
  "poisoned_state = collecting_state\<lparr>aesd_device :=
     (aesd_device collecting_state)\<lparr>circle_buff_entry := \<lparr>buffptr = 0, esize = 2\<rparr>\<rparr>\<rparr>"

lemma poisoned_state: "dev_inv poisoned_state" "\<not> healthy poisoned_state"
  by (simp_all add: poisoned_state_def collecting_state_def fresh_state_def dev_inv_def mem_inv_def ring_inv_init
      ring_list_init owned_def healthy_def)

theorem write_after_failed_realloc_stores_garbage_witness:
  "\<exists>garbage s'. garbage \<noteq> [] \<and>
      aesd_write demo_kernel (Some some_file) (Some [100, 10]) 2 (Some 0) poisoned_state = Some (2, 0, s') \<and>
      commands (view s') = keep_last 10 (commands (view poisoned_state) @ [garbage @ [100, 10]])"
proof -
  have lk: "fst (k_mutex_lock_interruptible demo_kernel False) = 0" by (simp add: demo_kernel_simps)
  have al: "fst (the (write_alloc demo_kernel 2 (set_lock True poisoned_state))) \<noteq> 0"
    by (simp add: write_alloc_def krealloc_def poisoned_state_def collecting_state_def fresh_state_def set_lock_def
        demo_kernel_simps demo_krealloc_def demo_kmalloc_def demo_fresh_def upt_rec)
  show ?thesis
    using write_after_failed_realloc_stores_garbage [OF demo_kernel_ok poisoned_state(1) _ _ _ poisoned_state(2) _ lk al,
        of some_file "[100, 10]" 0]
    by (auto simp: demo_kernel_simps newline_def)
qed

end
