(* ===== verification/Driver_Read.thy ===== *)
theory Driver_Read
  imports Driver_Write
begin

text \<open>
  What \<open>aesd_read\<close> returns, over the content of the device: the concatenation of the stored commands.
  The search in the circular buffer is used through the interface \<open>searchable_fifo\<close> (the
  interpretation \<open>ring\<close>), with the bytes of an entry read from its block.
\<close>

definition dev_bytes :: "kstate \<Rightarrow> byte list" where
  "dev_bytes s = concat (commands (view s))"

lemma dev_bytes_alt: "dev_bytes s = concat (map (content (heap s)) (stored s))"
  by (simp add: dev_bytes_def view_def)

lemma mem_small: "mem_inv s \<Longrightarrow> \<forall>e \<in> set (stored s). unat (esize e) < 2 ^ 31"
  using stored_small by (auto simp: ring_small_def)

lemma length_dev_bytes:
  assumes "mem_inv s"
  shows "length (dev_bytes s) = sum_list (map (\<lambda>e. unat (esize e)) (stored s))"
proof -
  have "map (\<lambda>e. length (content (heap s) e)) (stored s) = map (\<lambda>e. unat (esize e)) (stored s)"
    using stored_length [OF assms] by simp
  then show ?thesis by (simp add: dev_bytes_alt length_concat comp_def del: map_eq_conv)
qed

lemma dev_bytes_bound:
  assumes "mem_inv s"
  shows "length (dev_bytes s) < 2 ^ 35"
proof -
  have "length (dev_bytes s) \<le> length (map (\<lambda>e. unat (esize e)) (stored s)) * 2 ^ 31"
    unfolding length_dev_bytes [OF assms] using mem_small [OF assms]
    by (intro sum_list_le_length) (auto simp: less_imp_le)
  also have "\<dots> \<le> 10 * 2 ^ 31"
    using ring_count_le [OF mem_invD(1) [OF assms]] by simp
  finally show ?thesis by simp
qed

section \<open>One read\<close>

lemma read_locked_miss:
  assumes "mem_inv s" "length (dev_bytes s) \<le> unat pos"
  shows "aesd_read_locked K cnt pos s = Some (0, pos, [])"
  using ring.search_miss [OF mem_invD(1) [OF assms(1)] mem_small [OF assms(1)], of pos] assms
  by (simp add: aesd_read_locked_def length_dev_bytes)

text \<open>The bytes a read may deliver: the rest of the command that holds the position.\<close>

lemma read_locked_hit:
  assumes inv: "mem_inv s" and pos: "unat pos < length (dev_bytes s)"
  obtains tail cs where "chunks_from (commands (view s)) (unat pos) = tail # cs" "tail \<noteq> []" "length tail < 2 ^ 31"
    "aesd_read_locked K cnt pos s =
       (let (delivered, unread) = k_copy_to_user K (take (unat cnt) tail);
            n = word_of_nat (min (unat cnt) (length tail)) - unread
        in Some (n, pos + n, delivered))"
proof -
  have bytes: "\<forall>e \<in> set (stored s). length (content (heap s) e) = unat (esize e)"
    using stored_length [OF inv] by simp
  obtain i r e cs where hit:
    "aesd_circular_buffer_find_entry_offset_for_fpos (circle_buff (aesd_device s)) pos = Some (Some (i, r))"
    "arr_get (entry (circle_buff (aesd_device s))) i = Some e" "e \<in> set (stored s)" "unat r < unat (esize e)"
    "chunks_from (commands (view s)) (unat pos) = drop (unat r) (content (heap s) e) # cs"
    using ring.search_hit [OF mem_invD(1) [OF inv] mem_small [OF inv] bytes] pos
    unfolding dev_bytes_alt view_def dev_view.simps by metis
  let ?tail = "drop (unat r) (content (heap s) e)"
  have ok: "stored_ok (heap s) e" by (rule mem_invD(2) [OF inv hit(3)])
  then obtain bs where bs: "heap s (buffptr e) = Some bs" "unat (esize e) \<le> length bs"
    "content (heap s) e = take (unat (esize e)) bs"
    by (auto simp: stored_ok_def elim: backedD)
  have small: "unat (esize e) < 2 ^ 31" using ok by (simp add: stored_ok_def)
  have len: "length ?tail = unat (esize e) - unat r" using bs by simp
  have avail: "unat (esize e - r) = unat (esize e) - unat r"
    using hit(4) by (intro unat_sub_le) (simp add: word_le_nat_alt)
  let ?c = "if esize e - r < cnt then esize e - r else cnt"
  have c: "unat ?c = min (unat cnt) (length ?tail)"
    using avail len by (auto simp: word_less_nat_alt min_def)
  have c': "?c = word_of_nat (min (unat cnt) (length ?tail))"
    unfolding c [symmetric] by simp
  have load: "heap_load (heap s) (buffptr e) (unat r) (unat ?c) = Some (take (unat cnt) ?tail)"
  proof -
    have "unat r + unat ?c \<le> length bs" using c len hit(4) bs(2) by simp
    moreover have "take (unat ?c) (drop (unat r) bs) = take (unat cnt) ?tail"
      unfolding c len by (simp only: bs(3) drop_take take_take)
    ultimately show ?thesis using bs(1) by (simp add: heap_load_def)
  qed
  show thesis
  proof (rule that [OF hit(5)])
    show "?tail \<noteq> []" "length ?tail < 2 ^ 31" using len hit(4) small by auto
    show "aesd_read_locked K cnt pos s =
       (let (delivered, unread) = k_copy_to_user K (take (unat cnt) ?tail);
            n = word_of_nat (min (unat cnt) (length ?tail)) - unread
        in Some (n, pos + n, delivered))"
      using hit(1,2) load c' by (simp add: aesd_read_locked_def Let_def split: prod.splits)
  qed
qed


lemma word_of_nat_diff_u64:
  assumes "unat (u :: u64) \<le> m"
  shows "word_of_nat m - u = word_of_nat (m - unat u)"
proof -
  have "(word_of_nat (m - unat u) :: u64) = word_of_nat m - word_of_nat (unat u)"
    using assms by (rule of_nat_diff)
  then show ?thesis by simp
qed

text \<open>The command in front of the reader, from the position on.\<close>

definition next_chunk :: "kstate \<Rightarrow> i64 \<Rightarrow> byte list" where
  "next_chunk s pos = (case chunks_from (commands (view s)) (unat pos) of [] \<Rightarrow> [] | c # cs \<Rightarrow> c)"

lemma dev_bytes_ahead:
  "drop (unat pos) (dev_bytes s) = next_chunk s pos @ concat (tl (chunks_from (commands (view s)) (unat pos)))"
  using concat_chunks_from [of "commands (view s)" "unat pos"]
  by (cases "chunks_from (commands (view s)) (unat pos)") (simp_all add: dev_bytes_def next_chunk_def)

lemma read_locked_prefix:
  assumes K: "kernel_ok K" and inv: "mem_inv s"
  obtains out m where
    "aesd_read_locked K cnt pos s = Some (word_of_nat (length out), pos + word_of_nat (length out), out)"
    "out = take m (next_chunk s pos)" "length out \<le> unat cnt" "length out < 2 ^ 31"
    "unat pos < length (dev_bytes s) \<longrightarrow> next_chunk s pos \<noteq> []"
    "(\<forall>bs. snd (k_copy_to_user K bs) = 0) \<longrightarrow> m = unat cnt"
proof (cases "unat pos < length (dev_bytes s)")
  case False
  then have "drop (unat pos) (dev_bytes s) = []" by simp
  then have "next_chunk s pos = []" using dev_bytes_ahead [of pos s] by simp
  then show thesis
    using read_locked_miss [OF inv, of pos K cnt] False by (intro that [of "[]" "unat cnt"]) simp_all
next
  case True
  obtain tail cs where hit: "chunks_from (commands (view s)) (unat pos) = tail # cs" "tail \<noteq> []" "length tail < 2 ^ 31"
    "aesd_read_locked K cnt pos s =
       (let (delivered, unread) = k_copy_to_user K (take (unat cnt) tail);
            n = word_of_nat (min (unat cnt) (length tail)) - unread
        in Some (n, pos + n, delivered))"
    by (rule read_locked_hit [OF inv True])
  obtain out u where cu: "k_copy_to_user K (take (unat cnt) tail) = (out, u)"
    by (cases "k_copy_to_user K (take (unat cnt) tail)")
  let ?m = "min (unat cnt) (length tail)"
  have len: "length (take (unat cnt) tail) = ?m" by (simp add: min.commute)
  have u: "unat u \<le> ?m" using copy_to_userD(1) [OF K cu] len by simp
  have out: "out = take (?m - unat u) (take (unat cnt) tail)" using copy_to_userD(2) [OF K cu] len by simp
  have length: "length out = ?m - unat u" unfolding out by simp
  have "?m - unat u \<le> unat cnt" by simp
  then have prefix: "out = take (?m - unat u) tail" unfolding out take_take by (simp only: min_absorb1)
  show thesis
  proof (rule that [of out "if unat u = 0 then unat cnt else ?m - unat u"])
    show "aesd_read_locked K cnt pos s = Some (word_of_nat (length out), pos + word_of_nat (length out), out)"
      using hit(4) cu word_of_nat_diff_u64 [OF u] length by (simp add: Let_def)
    show "out = take (if unat u = 0 then unat cnt else ?m - unat u) (next_chunk s pos)"
      using prefix by (auto simp: next_chunk_def hit(1) min_def)
    show "length out \<le> unat cnt" "length out < 2 ^ 31" using length hit(3) by simp_all
    show "unat pos < length (dev_bytes s) \<longrightarrow> next_chunk s pos \<noteq> []" by (simp add: next_chunk_def hit(1,2))
    show "(\<forall>bs. snd (k_copy_to_user K bs) = 0) \<longrightarrow> (if unat u = 0 then unat cnt else ?m - unat u) = unat cnt"
      using cu by (metis snd_conv unat_0)
  qed
qed

lemma read_interrupted:
  assumes "dev_inv s" "private_data f = AesdDevice" "fst (k_mutex_lock_interruptible K False) \<noteq> 0"
  shows "aesd_read K (Some f) True cnt (Some pos) s = Some (- ERESTARTSYS, pos, [], s)"
  using assms dev_invD(2) [OF assms(1)]
  by (cases "k_mutex_lock_interruptible K False") (simp add: aesd_read_def deref_device_def)

lemma read_taken:
  assumes "kernel_ok K" "dev_inv s" "private_data f = AesdDevice" "fst (k_mutex_lock_interruptible K False) = 0"
  obtains out m s' where
    "aesd_read K (Some f) True cnt (Some pos) s =
       Some (word_of_nat (length out), pos + word_of_nat (length out), out, s')"
    "out = take m (next_chunk s pos)" "length out \<le> unat cnt" "length out < 2 ^ 31"
    "unat pos < length (dev_bytes s) \<longrightarrow> next_chunk s pos \<noteq> []"
    "(\<forall>bs. snd (k_copy_to_user K bs) = 0) \<longrightarrow> m = unat cnt"
    "view s' = view s" "dev_inv s'"
proof -
  obtain l where lk: "k_mutex_lock_interruptible K False = (0, l)"
    using assms(4) by (cases "k_mutex_lock_interruptible K False") auto
  have inv: "mem_inv (set_lock l s)" using dev_invD(1) [OF assms(2)] by simp
  have same: "dev_bytes (set_lock l s) = dev_bytes s" "next_chunk (set_lock l s) pos = next_chunk s pos"
    by (simp_all add: dev_bytes_def next_chunk_def)
  obtain out m where r:
    "aesd_read_locked K cnt pos (set_lock l s) = Some (word_of_nat (length out), pos + word_of_nat (length out), out)"
    "out = take m (next_chunk s pos)" "length out \<le> unat cnt" "length out < 2 ^ 31"
    "unat pos < length (dev_bytes s) \<longrightarrow> next_chunk s pos \<noteq> []"
    "(\<forall>bs. snd (k_copy_to_user K bs) = 0) \<longrightarrow> m = unat cnt"
    by (rule read_locked_prefix [OF assms(1) inv, of cnt pos]) (simp only: same)
  have "dev_inv (mutex_unlock K (set_lock l s))"
    using dev_invD(3) [OF assms(2)] by (intro dev_inv_unlock [OF assms(1) inv]) simp
  moreover have "aesd_read K (Some f) True cnt (Some pos) s =
       Some (word_of_nat (length out), pos + word_of_nat (length out), out, mutex_unlock K (set_lock l s))"
    using lk assms(3) dev_invD(2) [OF assms(2)] r(1) by (simp add: aesd_read_def deref_device_def)
  ultimately show thesis
    using that r by simp
qed

text \<open>C6. A read through an open file never has undefined behaviour. Interrupted at the lock it
  returns \<open>-ERESTARTSYS\<close> and changes nothing; otherwise it delivers a prefix, at most \<open>cnt\<close> long, of
  the rest of the command that holds the file position (so of the device content from there on), returns
  its length, advances the position by it, and leaves the content and the invariant as they were. When
  the user copy is complete the prefix is as long as \<open>cnt\<close> and the command allow; nothing is ahead
  only at the end of the content.\<close>

theorem read_delivers_content:
  assumes "kernel_ok K" "dev_inv s" "private_data f = AesdDevice"
  shows "if fst (k_mutex_lock_interruptible K False) \<noteq> 0
    then aesd_read K (Some f) True cnt (Some pos) s = Some (- ERESTARTSYS, pos, [], s)
    else \<exists>out m rest s'. aesd_read K (Some f) True cnt (Some pos) s =
        Some (word_of_nat (length out), pos + word_of_nat (length out), out, s') \<and>
      out = take m (next_chunk s pos) \<and> drop (unat pos) (dev_bytes s) = next_chunk s pos @ rest \<and>
      length out \<le> unat cnt \<and>
      (unat pos < length (dev_bytes s) \<longrightarrow> next_chunk s pos \<noteq> []) \<and>
      ((\<forall>bs. snd (k_copy_to_user K bs) = 0) \<longrightarrow> m = unat cnt) \<and>
      view s' = view s \<and> dev_inv s'"
proof (cases "fst (k_mutex_lock_interruptible K False) = 0")
  case True
  then show ?thesis
    using read_taken [OF assms, of cnt pos] dev_bytes_ahead [of pos s] by (simp, metis)
qed (use read_interrupted [OF assms(2,3), of K cnt pos] in simp)

text \<open>A device that stores the one command \<open>h i\<close> newline.\<close>

definition one_command_state :: kstate where
  "one_command_state = fresh_state\<lparr>heap := [4096 \<mapsto> [104, 105, 10]],
     aesd_device := (aesd_device fresh_state)\<lparr>circle_buff := aesd_circular_buffer_init\<lparr>
       entry := \<lparr>buffptr = 4096, esize = 3\<rparr> # replicate 9 null_entry, in_offs := 1\<rparr>\<rparr>\<rparr>"

lemma one_command_stored: "stored one_command_state = [\<lparr>buffptr = 4096, esize = 3\<rparr>]"
  by (simp add: one_command_state_def fresh_state_def aesd_circular_buffer_init_def
      ring_list_def ring_count_def ring_slot_def upt_rec)

lemma one_command_state:
  "dev_inv one_command_state" "view one_command_state = \<lparr>commands = [[104, 105, 10]], partial = []\<rparr>"
proof -
  have "ring_inv (circle_buff (aesd_device one_command_state))"
    by (auto simp: one_command_state_def fresh_state_def ring_inv_def aesd_circular_buffer_init_def nth_Cons split: nat.splits)
  moreover have "working one_command_state = null_entry" "lock (aesd_device one_command_state) = False"
    "heap one_command_state = [4096 \<mapsto> [104, 105, 10]]"
    by (simp_all add: one_command_state_def fresh_state_def)
  ultimately show "dev_inv one_command_state"
    "view one_command_state = \<lparr>commands = [[104, 105, 10]], partial = []\<rparr>"
    by (simp_all add: dev_inv_def mem_inv_def one_command_stored stored_ok_def backed_def content_def owned_def
        null_entry_def view_def newline_def)
qed

theorem read_delivers_content_witness:
  "\<exists>s'. aesd_read demo_kernel (Some some_file) True 1024 (Some 1) one_command_state = Some (2, 3, [105, 10], s') \<and>
     view s' = view one_command_state"
proof -
  have "next_chunk one_command_state 1 = [105, 10]"
    by (simp add: next_chunk_def one_command_state(2))
  then show ?thesis
    using read_delivers_content [OF demo_kernel_ok one_command_state(1), of some_file 1024 1]
    by (auto simp: demo_kernel_simps)
qed

end
