(* ===== verification/Driver_Seek.thy ===== *)
theory Driver_Seek
  imports Driver_Read
begin

text \<open>
  The position handlers: \<open>aesd_adjust_file_offset\<close> behind \<open>aesd_ioctl\<close>, and \<open>aesd_llseek\<close>. The
  lemma \<open>adjust_exec\<close> gives the exact result of the seek over the array of slots; the properties
  compare it with the order of the commands, where the two agree and where they do not.
\<close>

section \<open>Sums over slots\<close>

lemma fold_opt_sum_slots:
  "n \<le> length es \<Longrightarrow>
   fold_opt (\<lambda>i p. do { e \<leftarrow> arr_get es i; Some (p + esize e) }) [0..<n] p =
     Some (p + sum_list (map esize (take n es)))"
proof (induction n)
  case (Suc n)
  then show ?case
    by (simp add: fold_opt_append access_simps take_Suc_conv_app_nth add.assoc)
qed simp

lemma unat_sum_list_u64:
  "sum_list (map unat xs) < 2 ^ 64 \<Longrightarrow> unat (sum_list (xs :: u64 list)) = sum_list (map unat xs)"
  by (induction xs) (simp_all add: unat_add_nowrap)

lemma sum_esize:
  assumes "mem_inv s"
  shows "sum_list (map esize (entry (circle_buff (aesd_device s)))) = word_of_nat (length (dev_bytes s))"
proof -
  let ?es = "entry (circle_buff (aesd_device s))"
  have "sum_list (map (\<lambda>e. unat (esize e)) ?es) = length (dev_bytes s)"
    unfolding length_dev_bytes [OF assms]
    by (rule sum_entries [OF mem_invD(1) [OF assms]]) (simp add: null_entry_def)
  then have *: "sum_list (map unat (map esize ?es)) = length (dev_bytes s)"
    by (simp add: comp_def)
  then have "unat (sum_list (map esize ?es)) = length (dev_bytes s)"
    using dev_bytes_bound [OF assms] by (subst unat_sum_list_u64) simp_all
  then show ?thesis by (metis of_nat_unat ucast_id)
qed

section \<open>The exact result of a seek\<close>

definition seek_target :: "kstate \<Rightarrow> struct_file \<Rightarrow> u32 \<Rightarrow> u32 \<Rightarrow> i64" where
  "seek_target s f wc wo =
     f_pos f + sum_list (map esize (take (unat wc) (entry (circle_buff (aesd_device s))))) + ucast wo"

lemma adjust_exec:
  assumes K: "kernel_ok K" and inv: "dev_inv s" and f: "private_data f = AesdDevice"
    and lk: "k_mutex_lock_interruptible K False = (0, l)"
  shows "aesd_adjust_file_offset K (Some f) wc wo s =
    (let s' = mutex_unlock K (set_lock l s); es = entry (circle_buff (aesd_device s))
     in if 10 < unat wc then Some (- EINVAL, f, s')
        else if unat wc = 10 then None
        else if esize (es ! unat wc) \<le> ucast wo then Some (- EINVAL, f, s')
        else Some (0, f\<lparr>f_pos := seek_target s f wc wo\<rparr>, s'))"
proof -
  have unlocked: "lock (aesd_device s) = False" using dev_invD(2) [OF inv] by simp
  have ring: "ring_inv (circle_buff (aesd_device s))" by (rule mem_invD(1) [OF dev_invD(1) [OF inv]])
  have each: "AESD_CIRCULAR_BUFFER_FOREACH (circle_buff (aesd_device s)) (\<lambda>e u. Some u) () = Some ((), 10)"
    using foreach_fold [OF ring, of "\<lambda>e u. Some u" "()"]
      fold_opt_total [of "\<lambda>e u. u" "entry (circle_buff (aesd_device s))" "()"] by simp
  have len: "length (entry (circle_buff (aesd_device s))) = 10" by (rule ring_invD(1) [OF ring])
  have sum: "unat wc < 10 \<Longrightarrow>
    fold_opt (\<lambda>i p. do { e \<leftarrow> arr_get (entry (circle_buff (aesd_device s))) i; Some (p + esize e) }) [0..<unat wc] (f_pos f) =
      Some (f_pos f + sum_list (map esize (take (unat wc) (entry (circle_buff (aesd_device s))))))"
    using len by (intro fold_opt_sum_slots) simp
  show ?thesis
  proof (cases "unat wc < 10")
    case True
    then show ?thesis
      using lk f unlocked each sum len
      by (auto simp: aesd_adjust_file_offset_def deref_device_def access_simps Let_def seek_target_def)
  next
    case False
    then show ?thesis
      using lk f unlocked each len
      by (auto simp: aesd_adjust_file_offset_def deref_device_def arr_get_out Let_def)
  qed
qed


lemma adjust_interrupted:
  assumes "dev_inv s" "private_data f = AesdDevice" "fst (k_mutex_lock_interruptible K False) \<noteq> 0"
  shows "aesd_adjust_file_offset K (Some f) wc wo s = Some (- ERESTARTSYS, f, s)"
  using assms dev_invD(2) [OF assms(1)]
  by (cases "k_mutex_lock_interruptible K False") (simp add: aesd_adjust_file_offset_def deref_device_def)

lemma seek_state:
  assumes "kernel_ok K" "dev_inv s" "k_mutex_lock_interruptible K False = (0, l)"
  shows "dev_inv (mutex_unlock K (set_lock l s))" "view (mutex_unlock K (set_lock l s)) = view s"
  using dev_inv_unlock [OF assms(1), of "set_lock l s"] assms(2) by (simp_all add: dev_invD)

section \<open>Commands and slots in the same order\<close>

text \<open>While the extraction index is zero the slots are in command order.\<close>

lemma slots_in_order:
  assumes inv: "ring_inv b" and "out_offs b = 0"
  shows "i < ring_count b \<Longrightarrow> entry b ! i = ring_list b ! i"
    "ring_count b \<le> i \<Longrightarrow> i < 10 \<Longrightarrow> entry b ! i = null_entry"
proof -
  show "entry b ! i = ring_list b ! i" if "i < ring_count b"
    using that ring_count_le [OF inv] assms(2) by (simp add: ring_list_nth ring_slot_def)
  show "entry b ! i = null_entry" if "ring_count b \<le> i" "i < 10"
  proof (cases "full b")
    case True
    then show ?thesis using that by (simp add: ring_count_def)
  next
    case False
    then show ?thesis using that ring_count_not_full [OF inv False] ring_invD(6) [OF inv False] by simp
  qed
qed

lemma take_slots_in_order:
  assumes "ring_inv b" "out_offs b = 0" "n \<le> ring_count b"
  shows "take n (entry b) = take n (ring_list b)"
  using assms ring_count_le [OF assms(1)] ring_invD(1) [OF assms(1)] slots_in_order(1) [OF assms(1,2)]
  by (intro nth_equalityI) simp_all

lemma unat_seek_target:
  assumes inv: "mem_inv s" and out: "out_offs (circle_buff (aesd_device s)) = 0"
    and f: "f_pos f = 0" and wc: "unat wc < length (commands (view s))"
    and wo: "unat wo < length (commands (view s) ! unat wc)"
  shows "unat (seek_target s f wc wo) = length (concat (take (unat wc) (commands (view s)))) + unat wo"
    "unat (seek_target s f wc wo) < length (dev_bytes s)"
    "dev_bytes s ! unat (seek_target s f wc wo) = commands (view s) ! unat wc ! unat wo"
proof -
  let ?cmds = "commands (view s)" and ?n = "unat wc"
  have split: "dev_bytes s = concat (take ?n ?cmds) @ ?cmds ! ?n @ concat (drop (Suc ?n) ?cmds)"
    unfolding dev_bytes_def using wc by (metis concat.simps(2) concat_append id_take_nth_drop)
  have n: "?n \<le> ring_count (circle_buff (aesd_device s))" using wc by (simp add: view_def)
  have es: "map unat (map esize (take ?n (entry (circle_buff (aesd_device s))))) = map length (take ?n ?cmds)"
    unfolding take_slots_in_order [OF mem_invD(1) [OF inv] out n]
    using stored_length [OF inv] by (auto simp: view_def take_map dest: in_set_takeD)
  have len: "sum_list (map length (take ?n ?cmds)) = length (concat (take ?n ?cmds))"
    by (simp add: length_concat)
  have bound: "length (concat (take ?n ?cmds)) + unat wo < length (dev_bytes s)"
    using wo split by simp
  then have sum: "unat (sum_list (map esize (take ?n (entry (circle_buff (aesd_device s)))))) = length (concat (take ?n ?cmds))"
    using dev_bytes_bound [OF inv] es len by (subst unat_sum_list_u64) simp_all
  show eq: "unat (seek_target s f wc wo) = length (concat (take ?n ?cmds)) + unat wo"
    using bound dev_bytes_bound [OF inv] sum f unfolding seek_target_def
    by (simp add: unat_add_nowrap unat_ucast_u32)
  show "unat (seek_target s f wc wo) < length (dev_bytes s)" using eq bound by simp
  show "dev_bytes s ! unat (seek_target s f wc wo) = ?cmds ! ?n ! unat wo"
    unfolding eq using wo by (subst split) (simp add: nth_append)
qed


section \<open>The control call\<close>

text \<open>What the driver relies on in an \<open>ioctl\<close>: the fields of an encoded command number can be read
  back, and a complete copy of the argument delivers it.\<close>

definition ioc_ok :: "kenv \<Rightarrow> bool" where
  "ioc_ok K \<longleftrightarrow>
     (\<forall>t nr sz. t < 256 \<and> nr < 256 \<and> sz < 16384 \<longrightarrow>
        k_IOC_TYPE K (k_IOWR K t nr sz) = t \<and> k_IOC_NR K (k_IOWR K t nr sz) = nr \<and>
        k_IOC_SIZE K (k_IOWR K t nr sz) = sz \<and>
        k_IOC_DIR K (k_IOWR K t nr sz) AND k_IOC_WRITE K \<noteq> 0) \<and>
     (\<forall>x. snd (k_copy_seekto K x) = 0 \<longrightarrow> fst (k_copy_seekto K x) = x)"

lemma ioctl_other_cmd:
  assumes "cmd \<noteq> AESDCHAR_IOCSEEKTO K"
  shows "aesd_ioctl K (Some f) cmd arg us s \<in> {Some (- ENOTTY, Some f, s), Some (- EFAULT, Some f, s)}"
  using assms by (simp add: aesd_ioctl_def Let_def)

lemma ioctl_seekto:
  assumes "ioc_ok K"
  shows "aesd_ioctl K (Some f) (AESDCHAR_IOCSEEKTO K) arg us s =
    (if \<not> k_access_ok K arg 8 \<or> snd (k_copy_seekto K (write_cmd us, write_cmd_offset us)) \<noteq> 0
     then Some (- EFAULT, Some f, s)
     else map_option (\<lambda>(r, f', s'). (r, Some f', s'))
            (aesd_adjust_file_offset K (Some f) (write_cmd us) (write_cmd_offset us) s))"
proof -
  have enc: "k_IOC_TYPE K (AESDCHAR_IOCSEEKTO K) = AESD_IOC_MAGIC" "k_IOC_NR K (AESDCHAR_IOCSEEKTO K) = 1"
    "k_IOC_SIZE K (AESDCHAR_IOCSEEKTO K) = 8"
    "k_IOC_DIR K (AESDCHAR_IOCSEEKTO K) AND k_IOC_WRITE K \<noteq> 0"
    using assms unfolding ioc_ok_def AESDCHAR_IOCSEEKTO_def by (simp_all add: AESD_IOC_MAGIC_def word_less_nat_alt)
  obtain x u where cs: "k_copy_seekto K (write_cmd us, write_cmd_offset us) = (x, u)"
    by (cases "k_copy_seekto K (write_cmd us, write_cmd_offset us)")
  have x: "x = (write_cmd us, write_cmd_offset us)" if "u = 0"
    using assms cs that unfolding ioc_ok_def by (metis fst_conv snd_conv)
  have bind: "Option.bind m (\<lambda>(r, f', s'). Some (r, Some f', s')) = map_option (\<lambda>(r, f', s'). (r, Some f', s')) m"
    for m :: "(i64 \<times> struct_file \<times> kstate) option"
    by (cases m) (auto split: prod.splits)
  show ?thesis
    unfolding aesd_ioctl_def Let_def using enc cs x by (auto simp: AESDCHAR_IOC_MAXNR_def bind)
qed

lemma llseek_taken:
  assumes "kernel_ok K" "dev_inv s" "private_data f = AesdDevice"
    and "fst (k_mutex_lock_interruptible K False) = 0"
  shows "\<exists>s'. aesd_llseek K (Some f) offset whence s =
      (case k_fixed_size_llseek K f offset whence (word_of_nat (length (dev_bytes s))) of
         (f', pos) \<Rightarrow> Some (pos, f', s')) \<and> view s' = view s \<and> dev_inv s'"
proof -
  obtain l where lk: "k_mutex_lock_interruptible K False = (0, l)"
    using assms(4) by (cases "k_mutex_lock_interruptible K False") auto
  let ?b = "circle_buff (aesd_device s)"
  have unlocked: "lock (aesd_device s) = False" using dev_invD(2) [OF assms(2)] by simp
  have sum: "fold (\<lambda>e t. t + esize e) es t = t + sum_list (map esize es)" for es t
    by (induction es arbitrary: t) (simp_all add: add.assoc)
  have "AESD_CIRCULAR_BUFFER_FOREACH ?b (\<lambda>e t. Some (t + esize e)) 0 = Some (sum_list (map esize (entry ?b)), 10)"
    using foreach_fold [OF mem_invD(1) [OF dev_invD(1) [OF assms(2)]], of "\<lambda>e t. Some (t + esize e)" 0]
    by (simp add: fold_opt_total sum)
  then have "aesd_llseek K (Some f) offset whence s =
      (case k_fixed_size_llseek K f offset whence (word_of_nat (length (dev_bytes s))) of
         (f', pos) \<Rightarrow> Some (pos, f', mutex_unlock K (set_lock l s)))"
    using lk assms(3) unlocked sum_esize [OF dev_invD(1) [OF assms(2)]]
    by (simp add: aesd_llseek_def deref_device_def Let_def split: prod.split)
  then show ?thesis using seek_state [OF assms(1,2) lk] by blast
qed

lemma llseek_interrupted:
  assumes "dev_inv s" "private_data f = AesdDevice" "fst (k_mutex_lock_interruptible K False) \<noteq> 0"
  shows "aesd_llseek K (Some f) offset whence s = Some (- ERESTARTSYS, f, s)"
  using assms dev_invD(2) [OF assms(1)]
  by (cases "k_mutex_lock_interruptible K False") (simp add: aesd_llseek_def deref_device_def)

section \<open>Properties\<close>

text \<open>C19. While the extraction index is zero (no more than ten commands so far, or a multiple of
  ten), a seek to byte \<open>wo\<close> of command \<open>wc\<close> with a file position of zero succeeds exactly when the
  command exists and has that byte, and then the file position is the place of that byte in the
  device content; otherwise it returns \<open>-EINVAL\<close> and keeps the position. The commands and the
  invariant are as before. (The one number excluded, ten, is undefined, see below.)\<close>

theorem seek_lands_on_command:
  assumes "kernel_ok K" "dev_inv s" "private_data f = AesdDevice"
    and "fst (k_mutex_lock_interruptible K False) = 0"
    and "out_offs (circle_buff (aesd_device s)) = 0" "f_pos f = 0" "unat wc \<noteq> 10"
  shows "\<exists>s'. view s' = view s \<and> dev_inv s' \<and>
    (if unat wc < length (commands (view s)) \<and> unat wo < length (commands (view s) ! unat wc)
     then \<exists>pos. aesd_adjust_file_offset K (Some f) wc wo s = Some (0, f\<lparr>f_pos := pos\<rparr>, s') \<and>
       unat pos = length (concat (take (unat wc) (commands (view s)))) + unat wo \<and>
       unat pos < length (dev_bytes s) \<and>
       dev_bytes s ! unat pos = commands (view s) ! unat wc ! unat wo
     else aesd_adjust_file_offset K (Some f) wc wo s = Some (- EINVAL, f, s'))"
proof -
  obtain l where lk: "k_mutex_lock_interruptible K False = (0, l)"
    using assms(4) by (cases "k_mutex_lock_interruptible K False") auto
  let ?s = "mutex_unlock K (set_lock l s)" and ?b = "circle_buff (aesd_device s)"
  note inv = dev_invD(1) [OF assms(2)]
  have cmds: "length (commands (view s)) = ring_count ?b" by (simp add: view_def)
  have hit: "esize (entry ?b ! unat wc) \<le> ucast wo \<longleftrightarrow> \<not> unat wo < length (commands (view s) ! unat wc)"
    if c: "unat wc < length (commands (view s))"
  proof -
    have "entry ?b ! unat wc = stored s ! unat wc"
      using c slots_in_order(1) [OF mem_invD(1) [OF inv] assms(5)] by (simp add: cmds)
    moreover have "stored s ! unat wc \<in> set (stored s)"
      using c by (simp add: cmds)
    ultimately have "unat (esize (entry ?b ! unat wc)) = length (commands (view s) ! unat wc)"
      using c stored_length [OF inv] by (simp add: view_def)
    then show ?thesis by (simp add: word_le_nat_alt unat_ucast_u32 not_less)
  qed
  have miss: "esize (entry ?b ! unat wc) \<le> ucast wo" if "\<not> unat wc < length (commands (view s))" "unat wc < 10"
    using that slots_in_order(2) [OF mem_invD(1) [OF inv] assms(5)] by (simp add: cmds null_entry_def)
  have small: "length (commands (view s)) \<le> 10"
    using ring_count_le [OF mem_invD(1) [OF inv]] by (simp add: cmds)
  show ?thesis
  proof (intro exI [of _ ?s] conjI)
    show "view ?s = view s" "dev_inv ?s" by (rule seek_state [OF assms(1,2) lk])+
    show "if unat wc < length (commands (view s)) \<and> unat wo < length (commands (view s) ! unat wc)
     then \<exists>pos. aesd_adjust_file_offset K (Some f) wc wo s = Some (0, f\<lparr>f_pos := pos\<rparr>, ?s) \<and>
       unat pos = length (concat (take (unat wc) (commands (view s)))) + unat wo \<and>
       unat pos < length (dev_bytes s) \<and>
       dev_bytes s ! unat pos = commands (view s) ! unat wc ! unat wo
     else aesd_adjust_file_offset K (Some f) wc wo s = Some (- EINVAL, f, ?s)"
    proof (cases "unat wc < length (commands (view s)) \<and> unat wo < length (commands (view s) ! unat wc)")
      case True
      then show ?thesis
        using unat_seek_target [OF inv assms(5,6), of wc wo] adjust_exec [OF assms(1-3) lk, of wc wo] hit small
        by (auto simp: Let_def)
    next
      case False
      then have "10 < unat wc \<or> (unat wc < 10 \<and> esize (entry ?b ! unat wc) \<le> ucast wo)"
        using hit miss assms(7) by linarith
      then show ?thesis
        using adjust_exec [OF assms(1-3) lk, of wc wo] False by (auto simp: Let_def)
    qed
  qed
qed

theorem seek_lands_on_command_witness:
  "\<exists>s' pos. aesd_adjust_file_offset demo_kernel (Some some_file) 0 2 one_command_state =
     Some (0, some_file\<lparr>f_pos := pos\<rparr>, s') \<and> unat pos = 2 \<and> dev_bytes one_command_state ! unat pos = 10"
proof -
  have "out_offs (circle_buff (aesd_device one_command_state)) = 0"
    by (simp add: one_command_state_def fresh_state_def aesd_circular_buffer_init_def)
  then show ?thesis
    using seek_lands_on_command [OF demo_kernel_ok one_command_state(1), of some_file 0 2]
    by (auto simp: demo_kernel_simps one_command_state(2))
qed

text \<open>The guard of a seek admits the command number ten, and slot ten of the ten-slot array is
  then read: such a seek is undefined in every device state.\<close>

theorem seek_to_command_ten_undefined:
  assumes "kernel_ok K" "dev_inv s" "private_data f = AesdDevice"
    and "fst (k_mutex_lock_interruptible K False) = 0"
  shows "aesd_adjust_file_offset K (Some f) 10 wo s = None"
proof -
  obtain l where "k_mutex_lock_interruptible K False = (0, l)"
    using assms(4) by (cases "k_mutex_lock_interruptible K False") auto
  then show ?thesis using adjust_exec [OF assms(1-3), of l 10 wo] by simp
qed

theorem seek_to_command_ten_undefined_witness:
  "aesd_adjust_file_offset demo_kernel (Some some_file) 10 0 fresh_state = None"
  using seek_to_command_ten_undefined [OF demo_kernel_ok fresh_state(1), of some_file 0]
  by (simp add: demo_kernel_simps)

text \<open>The command in a slot of the full buffer: slot \<open>out_offs\<close> has the oldest one.\<close>

definition slot_command :: "kstate \<Rightarrow> nat \<Rightarrow> byte list" where
  "slot_command s j = commands (view s) ! ((j + 10 - unat (out_offs (circle_buff (aesd_device s)))) mod 10)"

lemma full_slots:
  assumes inv: "mem_inv s" and full: "full (circle_buff (aesd_device s))" and j: "j < 10"
  shows "unat (esize (entry (circle_buff (aesd_device s)) ! j)) = length (slot_command s j)"
proof -
  let ?b = "circle_buff (aesd_device s)"
  let ?o = "unat (out_offs ?b)"
  let ?i = "(j + 10 - ?o) mod 10"
  have o: "?o < 10" using ring_invD(3) [OF mem_invD(1) [OF inv]] by simp
  have ten: "ring_count ?b = 10" using full by (simp add: ring_count_def)
  have "(?o + ?i) mod 10 = (?o + (j + 10 - ?o)) mod 10" by (rule mod_add_right_eq)
  also have "\<dots> = j" using o j by simp
  finally have "entry ?b ! j = stored s ! ?i"
    using ten ring_list_nth [of ?i ?b] by (simp add: ring_slot_def)
  moreover have "stored s ! ?i \<in> set (stored s)" using ten by simp
  moreover have "slot_command s j = content (heap s) (stored s ! ?i)"
    unfolding slot_command_def using ten by (simp add: view_def)
  ultimately show ?thesis using stored_length [OF inv] by simp
qed

lemma full_seek_target:
  assumes "mem_inv s" "full (circle_buff (aesd_device s))" "unat wc < 10"
  shows "seek_target s f wc wo =
    f_pos f + word_of_nat (length (concat (map (slot_command s) [0..<unat wc])) + unat wo)"
proof -
  let ?es = "entry (circle_buff (aesd_device s))"
  have len: "length ?es = 10" by (rule ring_invD(1) [OF mem_invD(1) [OF assms(1)]])
  have size: "esize (?es ! j) = word_of_nat (length (slot_command s j))" if "j < 10" for j
    using full_slots [OF assms(1,2) that] by (metis of_nat_unat ucast_id)
  have "map esize (take (unat wc) ?es) = map (\<lambda>j. word_of_nat (length (slot_command s j))) [0..<unat wc]"
    using len assms(3) size by (intro nth_equalityI) simp_all
  moreover have "sum_list (map (\<lambda>j. word_of_nat (length (slot_command s j))) js) =
      (word_of_nat (length (concat (map (slot_command s) js))) :: u64)" for js
    by (induction js) simp_all
  moreover have "(ucast wo :: u64) = word_of_nat (unat wo)" by (metis of_nat_unat unat_ucast_u32 ucast_id)
  ultimately show ?thesis by (simp add: seek_target_def)
qed

text \<open>C33. The seek counts slots and not commands. Once the buffer is full, wherever the oldest command is, a seek to byte
  \<open>wo\<close> of command \<open>wc\<close> (any number but ten) succeeds exactly when the command in slot \<open>wc\<close> has that byte, and then
  moves the file position on by the lengths of the commands in the slots before it and by \<open>wo\<close>;
  otherwise it returns \<open>-EINVAL\<close> and keeps the position. Slot \<open>wc\<close> has command \<open>wc\<close> only while the oldest one is in slot
  zero.\<close>

theorem seek_after_wrap_counts_slots:
  assumes "kernel_ok K" "dev_inv s" "private_data f = AesdDevice"
    and "fst (k_mutex_lock_interruptible K False) = 0"
    and "full (circle_buff (aesd_device s))" "unat wc \<noteq> 10"
  shows "\<exists>s'. view s' = view s \<and> dev_inv s' \<and>
    aesd_adjust_file_offset K (Some f) wc wo s =
      (if unat wc < 10 \<and> unat wo < length (slot_command s (unat wc))
       then Some (0, f\<lparr>f_pos := f_pos f + word_of_nat (length (concat (map (slot_command s) [0..<unat wc])) + unat wo)\<rparr>, s')
       else Some (- EINVAL, f, s'))"
proof -
  obtain l where lk: "k_mutex_lock_interruptible K False = (0, l)"
    using assms(4) by (cases "k_mutex_lock_interruptible K False") auto
  note inv = dev_invD(1) [OF assms(2)]
  have hit: "esize (entry (circle_buff (aesd_device s)) ! unat wc) \<le> ucast wo \<longleftrightarrow>
      \<not> unat wo < length (slot_command s (unat wc))" if "unat wc < 10"
    using full_slots [OF inv assms(5) that] by (simp add: word_le_nat_alt unat_ucast_u32 not_less)
  show ?thesis
    using adjust_exec [OF assms(1-3) lk, of wc wo] seek_state [OF assms(1,2) lk] hit
      full_seek_target [OF inv assms(5), of wc f wo] assms(6)
    by (cases "unat wc < 10") (auto simp: Let_def)
qed

text \<open>A device after eleven writes: the newest command is in slot 0 and the oldest in slot 1.\<close>

definition wrapped_state :: kstate where
  "wrapped_state = fresh_state\<lparr>
     heap := (\<lambda>p. if unat p \<in> {1..9} then Some [newline] else if p = 10 then Some [104, newline] else None),
     aesd_device := (aesd_device fresh_state)\<lparr>circle_buff :=
       \<lparr>entry = \<lparr>buffptr = 10, esize = 2\<rparr> # map (\<lambda>i. \<lparr>buffptr = word_of_nat (Suc i), esize = 1\<rparr>) [0..<9],
        in_offs = 1, out_offs = 1, full = True\<rparr>\<rparr>\<rparr>"

lemma wrapped_stored: "stored wrapped_state =
    map (\<lambda>i. \<lparr>buffptr = word_of_nat (Suc i), esize = 1\<rparr>) [0..<9] @ [\<lparr>buffptr = 10, esize = 2\<rparr>]"
  by (simp add: wrapped_state_def fresh_state_def ring_list_def ring_count_def ring_slot_def upt_rec)

lemma wrapped_state: "dev_inv wrapped_state" "last (commands (view wrapped_state)) = [104, newline]"
proof -
  have heap: "heap wrapped_state = (\<lambda>p. if unat p \<in> {1..9} then Some [newline] else if p = 10 then Some [104, newline] else None)"
    by (simp add: wrapped_state_def)
  have "ring_inv (circle_buff (aesd_device wrapped_state))"
    by (simp add: wrapped_state_def fresh_state_def ring_inv_def)
  moreover have "working wrapped_state = null_entry" "lock (aesd_device wrapped_state) = False"
    by (simp_all add: wrapped_state_def fresh_state_def)
  moreover have "\<forall>e \<in> set (stored wrapped_state). stored_ok (heap wrapped_state) e"
    by (simp add: wrapped_stored upt_rec stored_ok_def backed_def content_def heap newline_def)
  moreover have "distinct (map buffptr (stored wrapped_state))"
    by (simp add: wrapped_stored upt_rec)
  ultimately show "dev_inv wrapped_state"
    by (simp add: dev_inv_def mem_inv_def owned_def null_entry_def content_def heap)
  show "last (commands (view wrapped_state)) = [104, newline]"
    by (simp add: view_def wrapped_stored content_def heap)
qed

theorem seek_after_wrap_counts_slots_witness:
  "\<exists>s'. aesd_adjust_file_offset demo_kernel (Some some_file) 1 0 wrapped_state =
     Some (0, some_file\<lparr>f_pos := 2\<rparr>, s') \<and> length (commands (view wrapped_state) ! 0) = 1"
proof -
  have "full (circle_buff (aesd_device wrapped_state))" by (simp add: wrapped_state_def)
  moreover have "slot_command wrapped_state 0 = [104, newline]" "slot_command wrapped_state 1 = [newline]"
    "length (commands (view wrapped_state) ! 0) = 1"
    by (simp_all add: slot_command_def view_def wrapped_stored content_def upt_rec)
      (simp_all add: wrapped_state_def)
  ultimately show ?thesis
    using seek_after_wrap_counts_slots [OF demo_kernel_ok wrapped_state(1), of some_file 1 0]
    by (auto simp: demo_kernel_simps)
qed

text \<open>The control call: only the seek command is carried out. It reports \<open>-EFAULT\<close> when the
  argument cannot be copied and is otherwise exactly the seek with the copied numbers; every other
  command number is answered by \<open>-ENOTTY\<close> or \<open>-EFAULT\<close> and changes neither the file nor the device.\<close>

theorem ioctl_dispatch:
  assumes "ioc_ok K"
  shows "if cmd = AESDCHAR_IOCSEEKTO K
    then aesd_ioctl K (Some f) cmd arg us s =
      (if \<not> k_access_ok K arg 8 \<or> snd (k_copy_seekto K (write_cmd us, write_cmd_offset us)) \<noteq> 0
       then Some (- EFAULT, Some f, s)
       else map_option (\<lambda>(r, f', s'). (r, Some f', s'))
              (aesd_adjust_file_offset K (Some f) (write_cmd us) (write_cmd_offset us) s))
    else aesd_ioctl K (Some f) cmd arg us s \<in> {Some (- ENOTTY, Some f, s), Some (- EFAULT, Some f, s)}"
  using ioctl_seekto [OF assms, of f arg us s] ioctl_other_cmd [of cmd K f arg us s] by simp

text \<open>C34. \<open>llseek\<close> works on the total length of the stored commands: it hands exactly that length to the
  kernel's helper and returns the helper's answer, under the lock, with the device unchanged.
  Interrupted at the lock it returns \<open>-ERESTARTSYS\<close> and moves nothing.\<close>

theorem llseek_uses_content_length:
  assumes "kernel_ok K" "dev_inv s" "private_data f = AesdDevice"
  shows "if fst (k_mutex_lock_interruptible K False) \<noteq> 0
    then aesd_llseek K (Some f) offset whence s = Some (- ERESTARTSYS, f, s)
    else \<exists>s'. aesd_llseek K (Some f) offset whence s =
      (case k_fixed_size_llseek K f offset whence (word_of_nat (length (dev_bytes s))) of
         (f', pos) \<Rightarrow> Some (pos, f', s')) \<and> view s' = view s \<and> dev_inv s'"
  using llseek_interrupted [OF assms(2,3), of K offset whence] llseek_taken [OF assms, of offset whence] by simp

lemma demo_llseek: "k_fixed_size_llseek demo_kernel some_file 0 2 3 = (some_file\<lparr>f_pos := 3\<rparr>, 3)"
proof -
  have "(0 :: i64) \<le>s 3" by (simp add: word_sle_eq)
  then show ?thesis by (simp add: demo_kernel_def)
qed

theorem llseek_uses_content_length_witness:
  "\<exists>s'. aesd_llseek demo_kernel (Some some_file) 0 2 one_command_state = Some (3, some_file\<lparr>f_pos := 3\<rparr>, s')"
  using llseek_uses_content_length [OF demo_kernel_ok one_command_state(1), of some_file 0 2]
  by (auto simp: demo_kernel_simps demo_llseek dev_bytes_def one_command_state(2))

lemma take_bit_small: "unat (w :: u32) < 2 ^ n \<Longrightarrow> take_bit n w = w"
  by (simp add: word_unat_eq_iff unsigned_take_bit_eq take_bit_nat_eq_self)

lemma demo_ioc_fields:
  assumes "t < 256" "nr < 256" "sz < 16384" "c = push_bit 30 3 OR push_bit 8 t OR nr OR push_bit 16 (sz :: u32)"
  shows "drop_bit 8 c AND 255 = t" "c AND 255 = nr" "drop_bit 16 c AND 16383 = sz" "(drop_bit 30 c AND 3) AND 1 \<noteq> 0"
proof -
  have m: "(255 :: u32) = mask 8" "(16383 :: u32) = mask 14" "(3 :: u32) = mask 2"
    by (simp_all add: mask_eq_exp_minus_1)
  have "take_bit 8 t = t" "take_bit 8 nr = nr" "take_bit 14 sz = sz"
    using assms by (simp_all add: take_bit_small word_less_nat_alt)
  then have b: "bit t n \<longleftrightarrow> n < 8 \<and> bit t n" "bit nr n \<longleftrightarrow> n < 8 \<and> bit nr n" "bit sz n \<longleftrightarrow> n < 14 \<and> bit sz n" for n
    by (metis bit_take_bit_iff)+
  have c: "c = push_bit 30 (mask 2) OR push_bit 8 t OR nr OR push_bit 16 sz" by (simp only: assms(4) m)
  show "drop_bit 8 c AND 255 = t"
    unfolding m c by (rule bit_word_eqI) (auto simp: bit_simps dest: b [THEN iffD1])
  show "c AND 255 = nr"
    unfolding m c by (rule bit_word_eqI) (auto simp: bit_simps dest: b [THEN iffD1])
  show "drop_bit 16 c AND 16383 = sz"
    unfolding m c by (rule bit_word_eqI) (auto simp: bit_simps dest: b [THEN iffD1])
  have "bit ((drop_bit 30 c AND 3) AND 1) 0"
    unfolding m c by (simp add: bit_simps)
  then show "(drop_bit 30 c AND 3) AND 1 \<noteq> 0" by auto
qed

lemma demo_ioc_ok: "ioc_ok demo_kernel"
  using demo_ioc_fields by (simp add: ioc_ok_def demo_kernel_def del: push_bit_numeral)

theorem ioctl_dispatch_witness:
  "\<exists>s' pos. aesd_ioctl demo_kernel (Some some_file) (AESDCHAR_IOCSEEKTO demo_kernel) 0
      \<lparr>write_cmd = 0, write_cmd_offset = 2\<rparr> one_command_state = Some (0, Some (some_file\<lparr>f_pos := pos\<rparr>), s')"
proof -
  have "k_access_ok demo_kernel 0 8" "snd (k_copy_seekto demo_kernel x) = 0" for x
    by (simp_all add: demo_kernel_def)
  moreover have "aesd_adjust_file_offset demo_kernel (Some some_file) 0 2 one_command_state =
    Some (0, some_file\<lparr>f_pos := 2\<rparr>, mutex_unlock demo_kernel (set_lock True one_command_state))"
    using adjust_exec [OF demo_kernel_ok one_command_state(1), of some_file True 0 2]
    by (simp add: demo_kernel_simps one_command_state_def seek_target_def)
  ultimately show ?thesis
    using ioctl_dispatch [OF demo_ioc_ok, of "AESDCHAR_IOCSEEKTO demo_kernel" some_file 0
        "\<lparr>write_cmd = 0, write_cmd_offset = 2\<rparr>" one_command_state] by auto
qed

text \<open>A seek is relative to where the file is: when a seek succeeds, the same seek issued again on the
  same open file succeeds too and moves the position by the same distance once more, so it only lands on
  the command the first time.\<close>

theorem second_seek_moves_on:
  assumes "kernel_ok K" "dev_inv s" "private_data f = AesdDevice"
    and "aesd_adjust_file_offset K (Some f) wc wo s = Some (0, f', s')"
  shows "\<exists>s''. aesd_adjust_file_offset K (Some f') wc wo s' =
      Some (0, f'\<lparr>f_pos := f_pos f' + (f_pos f' - f_pos f)\<rparr>, s'') \<and> view s'' = view s"
proof -
  obtain l where lk: "k_mutex_lock_interruptible K False = (0, l)"
  proof (cases "fst (k_mutex_lock_interruptible K False) = 0")
    case False
    then show thesis using adjust_interrupted [OF assms(2,3) False, of wc wo] assms(4) by (simp add: ERESTARTSYS_def)
  qed (metis prod.collapse that)
  let ?s = "mutex_unlock K (set_lock l s)" and ?es = "entry (circle_buff (aesd_device s))"
  have ok: "unat wc < 10" "\<not> esize (?es ! unat wc) \<le> ucast wo" "f' = f\<lparr>f_pos := seek_target s f wc wo\<rparr>" "s' = ?s"
    using adjust_exec [OF assms(1-3) lk, of wc wo] assms(4)
    by (simp_all add: Let_def EINVAL_def split: if_splits)
  note st = seek_state [OF assms(1,2) lk]
  have same: "circle_buff (aesd_device ?s) = circle_buff (aesd_device s)" by simp
  have "private_data f' = AesdDevice" using ok(3) assms(3) by simp
  note again = adjust_exec [OF assms(1) st(1) this lk, of wc wo]
  have "seek_target ?s f' wc wo = f_pos f' + (f_pos f' - f_pos f)"
    using ok(3) same by (simp add: seek_target_def)
  then have "aesd_adjust_file_offset K (Some f') wc wo s' =
      Some (0, f'\<lparr>f_pos := f_pos f' + (f_pos f' - f_pos f)\<rparr>, mutex_unlock K (set_lock l ?s))"
    using again ok(1,2,4) same by (simp add: Let_def)
  then show ?thesis using seek_state(2) [OF assms(1) st(1) lk] st(2) by auto
qed

theorem second_seek_moves_on_witness:
  "\<exists>s' s''. aesd_adjust_file_offset demo_kernel (Some some_file) 0 2 one_command_state =
      Some (0, some_file\<lparr>f_pos := 2\<rparr>, s') \<and>
    aesd_adjust_file_offset demo_kernel (Some (some_file\<lparr>f_pos := 2\<rparr>)) 0 2 s' = Some (0, some_file\<lparr>f_pos := 4\<rparr>, s'')"
proof -
  have first: "aesd_adjust_file_offset demo_kernel (Some some_file) 0 2 one_command_state =
      Some (0, some_file\<lparr>f_pos := 2\<rparr>, mutex_unlock demo_kernel (set_lock True one_command_state))"
    using adjust_exec [OF demo_kernel_ok one_command_state(1), of some_file True 0 2]
    by (simp add: demo_kernel_simps one_command_state_def seek_target_def)
  have f: "private_data some_file = AesdDevice" "f_pos some_file = 0" by simp_all
  show ?thesis
    using second_seek_moves_on [OF demo_kernel_ok one_command_state(1) f(1) first] first f(2) by auto
qed

end
