(* ===== verification/Driver_Module.thy ===== *)
theory Driver_Module
  imports Driver_Seek
begin

text \<open>
  Loading and unloading the module: \<open>aesd_setup_cdev\<close>, \<open>aesd_init_module\<close> and
  \<open>aesd_cleanup_module\<close> of \<^verbatim>\<open>aesd-char-driver/main.c\<close>. The module state holds the file-scope
  variables, the device numbers the module has reserved in the kernel, the character device the kernel
  knows, and the device state of \<open>Char_Driver\<close>. The kernel's answers are parameters; their effects on
  the tables are written out.
\<close>

section \<open>The table of operations\<close>

text \<open>\<open>struct file_operations aesd_fops\<close>, over one record of kernel services per call.\<close>

record file_operations =
  op_read :: "kenv \<Rightarrow> struct_file option \<Rightarrow> bool \<Rightarrow> u64 \<Rightarrow> i64 option \<Rightarrow> kstate \<Rightarrow> (i64 \<times> i64 \<times> byte list \<times> kstate) option"
  op_write :: "kenv \<Rightarrow> struct_file option \<Rightarrow> byte list option \<Rightarrow> u64 \<Rightarrow> i64 option \<Rightarrow> kstate \<Rightarrow> (i64 \<times> i64 \<times> kstate) option"
  op_open :: "inode \<Rightarrow> struct_file \<Rightarrow> i32 \<times> struct_file"
  op_release :: "inode \<Rightarrow> struct_file \<Rightarrow> i32 \<times> struct_file"
  op_llseek :: "kenv \<Rightarrow> struct_file option \<Rightarrow> i64 \<Rightarrow> i32 \<Rightarrow> kstate \<Rightarrow> (i64 \<times> struct_file \<times> kstate) option"
  op_unlocked_ioctl :: "kenv \<Rightarrow> struct_file option \<Rightarrow> u32 \<Rightarrow> u64 \<Rightarrow> aesd_seekto \<Rightarrow> kstate \<Rightarrow>
    (i64 \<times> struct_file option \<times> kstate) option"

definition aesd_fops :: file_operations where
  "aesd_fops = \<lparr>op_read = aesd_read, op_write = aesd_write, op_open = aesd_open, op_release = aesd_release,
     op_llseek = aesd_llseek, op_unlocked_ioctl = aesd_ioctl\<rparr>"

section \<open>State and services\<close>

record chrdev_env =
  k_alloc_chrdev_region :: "u32 \<Rightarrow> i32 \<times> u32"
  k_MAJOR :: "u32 \<Rightarrow> u32"
  k_MKDEV :: "u32 \<Rightarrow> u32 \<Rightarrow> u32"
  k_cdev_add :: "u32 \<Rightarrow> i32"

text \<open>\<open>live\<close> is the operations table and the number under which the kernel knows \<open>dev->cdev\<close>;
  \<open>cdev_ops\<close> is the field of the structure itself.\<close>

record module_state =
  aesd_major :: u32
  aesd_minor :: u32
  regions :: "u32 set"
  cdev_ops :: "file_operations option"
  live :: "(u32 \<times> file_operations option) option"
  kernel_side :: kstate

definition cdev_init :: "file_operations \<Rightarrow> module_state \<Rightarrow> module_state" where
  "cdev_init ops m = m\<lparr>cdev_ops := Some ops\<rparr>"

definition unregister_chrdev_region :: "u32 \<Rightarrow> module_state \<Rightarrow> module_state" where
  "unregister_chrdev_region dev m = m\<lparr>regions := regions m - {dev}\<rparr>"

section \<open>Set-up and tear-down\<close>

definition aesd_setup_cdev :: "chrdev_env \<Rightarrow> module_state \<Rightarrow> i32 \<times> module_state" where
  "aesd_setup_cdev E m =
     (let devno = k_MKDEV E (aesd_major m) (aesd_minor m);
          m = cdev_init aesd_fops m;
          m = m\<lparr>cdev_ops := Some aesd_fops\<rparr>;
          err = k_cdev_add E devno;
          m = (if err = 0 then m\<lparr>live := Some (devno, cdev_ops m)\<rparr> else m)
      in (err, m))"

text \<open>\<open>memset\<close> clears the whole device structure; the blocks in memory are not touched.\<close>

definition zero_device :: "module_state \<Rightarrow> module_state" where
  "zero_device m = m\<lparr>cdev_ops := None, kernel_side := (kernel_side m)\<lparr>aesd_device :=
     \<lparr>circle_buff = \<lparr>entry = replicate max_ops null_entry, in_offs = 0, out_offs = 0, full = False\<rparr>,
      circle_buff_entry = null_entry, lock = False\<rparr>\<rparr>\<rparr>"

definition aesd_init_module :: "chrdev_env \<Rightarrow> module_state \<Rightarrow> i32 \<times> module_state" where
  "aesd_init_module E m =
     (let (result, dev) = k_alloc_chrdev_region E (aesd_minor m);
          m = (if 0 \<le>s result then m\<lparr>regions := insert dev (regions m)\<rparr> else m);
          m = m\<lparr>aesd_major := k_MAJOR E dev\<rparr>
      in if result <s 0 then (result, m)
         else
           (let m = zero_device m;
                s = kernel_side m;
                s = s\<lparr>aesd_device := (aesd_device s)\<lparr>circle_buff := aesd_circular_buffer_init\<rparr>\<rparr>;
                s = s\<lparr>aesd_device := (aesd_device s)\<lparr>lock := False\<rparr>\<rparr>;
                (result, m) = aesd_setup_cdev E (m\<lparr>kernel_side := s\<rparr>);
                m = (if result \<noteq> 0 then unregister_chrdev_region dev m else m)
            in (result, m)))"

definition aesd_cleanup_module :: "chrdev_env \<Rightarrow> kenv \<Rightarrow> module_state \<Rightarrow> module_state option" where
  "aesd_cleanup_module E K m =
     do {
       let devno = k_MKDEV E (aesd_major m) (aesd_minor m);
       let m = m\<lparr>live := None\<rparr>;
       let s = kernel_side m;
       h \<leftarrow> kfree K (heap s) (buffptr (working s));
       (h, _) \<leftarrow> AESD_CIRCULAR_BUFFER_FOREACH (circle_buff (aesd_device s))
         (\<lambda>e h. if buffptr e \<noteq> 0 then kfree K h (buffptr e) else Some h) h;
       Some (unregister_chrdev_region devno (m\<lparr>kernel_side := s\<lparr>heap := h\<rparr>\<rparr>))
     }"

section \<open>Freeing every slot\<close>

lemma free_slots:
  assumes "kernel_ok K" "h 0 = None"
    and "distinct (filter (\<lambda>p. p \<noteq> 0) (map buffptr es))"
    and "\<forall>e \<in> set es. buffptr e \<noteq> 0 \<longrightarrow> h (buffptr e) \<noteq> None"
  shows "fold_opt (\<lambda>e h. if buffptr e \<noteq> 0 then kfree K h (buffptr e) else Some h) es h =
    Some (h |` (- buffptr ` set es))"
  using assms(2-)
proof (induction es arbitrary: h)
  case Nil
  then show ?case by simp
next
  case (Cons e es)
  show ?case
  proof (cases "buffptr e = 0")
    case True
    moreover have "h |` (- buffptr ` set (e # es)) = h |` (- buffptr ` set es)"
      using True Cons.prems(1) by (auto simp: restrict_map_def)
    ultimately show ?thesis using Cons by simp
  next
    case False
    have free: "kfree K h (buffptr e) = Some (h(buffptr e := None))"
      using False Cons.prems(3) kernel_okD(4) [OF assms(1)] by (simp add: kfree_def)
    have notin: "buffptr e \<notin> buffptr ` set es"
      using False Cons.prems(2) by (auto simp: image_iff)
    have "fold_opt (\<lambda>e h. if buffptr e \<noteq> 0 then kfree K h (buffptr e) else Some h) es (h(buffptr e := None)) =
      Some ((h(buffptr e := None)) |` (- buffptr ` set es))"
    proof (rule Cons.IH)
      show "\<forall>e' \<in> set es. buffptr e' \<noteq> 0 \<longrightarrow> (h(buffptr e := None)) (buffptr e') \<noteq> None"
        using Cons.prems(3) notin by (metis (no_types, lifting) fun_upd_other imageI list.set_intros(2))
    qed (use Cons.prems False in auto)
    moreover have "(h(buffptr e := None)) |` (- buffptr ` set es) = h |` (- buffptr ` set (e # es))"
      by (auto simp: restrict_map_def)
    ultimately show ?thesis using False free by simp
  qed
qed

lemma slot_pointers:
  assumes "mem_inv s"
  shows "insert 0 (buffptr ` set (entry (circle_buff (aesd_device s)))) = insert 0 (buffptr ` set (stored s))"
    "distinct (filter (\<lambda>p. p \<noteq> 0) (map buffptr (entry (circle_buff (aesd_device s)))))"
proof -
  let ?b = "circle_buff (aesd_device s)"
  note ms = mset_entries [OF mem_invD(1) [OF assms]]
  have "set (entry ?b) = set (stored s) \<union> (if ring_count ?b < 10 then {null_entry} else {})"
    using arg_cong [OF ms, of set_mset] by (auto split: if_splits)
  then show "insert 0 (buffptr ` set (entry ?b)) = insert 0 (buffptr ` set (stored s))"
    by (auto simp: null_entry_def)
  have "filter (\<lambda>p. p \<noteq> 0) (map buffptr (stored s)) = map buffptr (stored s)"
    using stored_nonzero [OF assms] by (auto simp: filter_id_conv)
  then have "filter_mset (\<lambda>p. p \<noteq> 0) (image_mset buffptr (mset (stored s))) = image_mset buffptr (mset (stored s))"
    by (metis mset_filter mset_map)
  then have "mset (filter (\<lambda>p. p \<noteq> 0) (map buffptr (entry ?b))) = mset (map buffptr (stored s))"
    by (simp add: ms null_entry_def)
  moreover have "distinct (map buffptr (stored s))"
    using mem_invD(5) [OF assms] by (simp add: owned_def)
  ultimately show "distinct (filter (\<lambda>p. p \<noteq> 0) (map buffptr (entry ?b)))"
    using mset_eq_imp_distinct_iff by blast
qed

lemma cleanup_exec:
  assumes K: "kernel_ok K" and inv: "mem_inv (kernel_side m)"
  shows "aesd_cleanup_module E K m = Some (unregister_chrdev_region (k_MKDEV E (aesd_major m) (aesd_minor m))
    (m\<lparr>live := None, kernel_side := (kernel_side m)\<lparr>heap := heap (kernel_side m) |` (- set (owned (kernel_side m)))\<rparr>\<rparr>))"
proof -
  let ?s = "kernel_side m"
  let ?w = "buffptr (working ?s)"
  let ?es = "entry (circle_buff (aesd_device ?s))"
  have free: "kfree K (heap ?s) ?w = Some ((heap ?s)(?w := None))"
    using mem_invD(4,6) [OF inv] kernel_okD(4) [OF K]
    by (cases "?w = 0") (auto simp: kfree_def backed_def fun_upd_idem split: option.splits)
  have ne: "buffptr e = 0 \<or> ((heap ?s)(?w := None)) (buffptr e) \<noteq> None" if "e \<in> set ?es" for e
  proof (cases "buffptr e = 0")
    case False
    then have p: "buffptr e \<in> buffptr ` set (stored ?s)"
      using slot_pointers(1) [OF inv] that by blast
    then have "heap ?s (buffptr e) \<noteq> None" using fresh_not_stored [OF inv] by metis
    then show ?thesis using p working_not_stored [OF inv] by auto
  qed simp
  have loop: "fold_opt (\<lambda>e h. if buffptr e \<noteq> 0 then kfree K h (buffptr e) else Some h) ?es ((heap ?s)(?w := None)) =
    Some (((heap ?s)(?w := None)) |` (- buffptr ` set ?es))"
  proof (rule free_slots [OF K _ slot_pointers(2) [OF inv]])
    show "((heap ?s)(?w := None)) 0 = None" using mem_invD(6) [OF inv] by simp
    show "\<forall>e \<in> set ?es. buffptr e \<noteq> 0 \<longrightarrow> ((heap ?s)(?w := None)) (buffptr e) \<noteq> None" using ne by blast
  qed
  have "((heap ?s)(?w := None)) |` (- buffptr ` set ?es) = heap ?s |` (- set (owned ?s))"
  proof
    fix p
    have "p = 0 \<or> (p \<in> buffptr ` set ?es \<longleftrightarrow> p \<in> buffptr ` set (stored ?s))"
      using slot_pointers(1) [OF inv] by blast
    then show "(((heap ?s)(?w := None)) |` (- buffptr ` set ?es)) p = (heap ?s |` (- set (owned ?s))) p"
      using mem_invD(6) [OF inv] by (auto simp: restrict_map_def owned_def)
  qed
  then have "AESD_CIRCULAR_BUFFER_FOREACH (circle_buff (aesd_device ?s))
      (\<lambda>e h. if buffptr e \<noteq> 0 then kfree K h (buffptr e) else Some h) ((heap ?s)(?w := None)) =
    Some (heap ?s |` (- set (owned ?s)), 10)"
    by (simp only: foreach_fold [OF mem_invD(1) [OF inv]] loop option.map)
  then show ?thesis
    using free by (simp add: aesd_cleanup_module_def Let_def)
qed

section \<open>Properties\<close>

text \<open>C27. Loading the module has three outcomes. When the kernel has no device number the error is
  returned and nothing was registered; when the character device cannot be added the error is returned
  and the number is given back; otherwise the result is zero, the number is reserved, the kernel knows
  the device under it with the driver's operations, and the device is empty and satisfies the
  invariant of all later calls.\<close>

theorem init_module_outcomes:
  assumes "heap (kernel_side m) = Map.empty" "k_alloc_chrdev_region E (aesd_minor m) = (result, dev)"
    and "aesd_init_module E m = (r, m')"
  shows "if result <s 0 then r = result \<and> regions m' = regions m \<and> live m' = live m \<and> kernel_side m' = kernel_side m
    else (let err = k_cdev_add E (k_MKDEV E (k_MAJOR E dev) (aesd_minor m)) in
      r = err \<and> dev_inv (kernel_side m') \<and> tidy (kernel_side m') \<and> no_leak (kernel_side m') \<and>
      view (kernel_side m') = \<lparr>commands = [], partial = []\<rparr> \<and>
      (if err \<noteq> 0 then dev \<notin> regions m' \<and> live m' = live m
       else regions m' = insert dev (regions m) \<and>
         live m' = Some (k_MKDEV E (k_MAJOR E dev) (aesd_minor m), Some aesd_fops)))"
proof (cases "result <s 0")
  case True
  then have "\<not> 0 \<le>s result" by (simp add: word_sless_alt word_sle_eq)
  then show ?thesis using True assms by (auto simp: aesd_init_module_def Let_def)
next
  case False
  then have nn: "0 \<le>s result" by (simp add: word_sless_alt word_sle_eq)
  have fresh: "kernel_side m' = fresh_state"
    using False nn assms
    by (auto simp: aesd_init_module_def aesd_setup_cdev_def zero_device_def cdev_init_def fresh_state_def
        unregister_chrdev_region_def Let_def split: if_splits)
  show ?thesis
    unfolding fresh using False nn assms fresh_state
    by (auto simp: aesd_init_module_def aesd_setup_cdev_def zero_device_def cdev_init_def
        unregister_chrdev_region_def Let_def)
qed

text \<open>A kernel that gives out major number 240, and a module state before loading.\<close>

definition demo_chrdev :: chrdev_env where
  "demo_chrdev = \<lparr>k_alloc_chrdev_region = (\<lambda>minor. (0, push_bit 20 240 OR minor)),
     k_MAJOR = (\<lambda>d. drop_bit 20 d), k_MKDEV = (\<lambda>ma mi. push_bit 20 ma OR mi), k_cdev_add = (\<lambda>d. 0)\<rparr>"

definition unloaded :: module_state where
  "unloaded = \<lparr>aesd_major = 0, aesd_minor = 0, regions = {}, cdev_ops = None, live = None, kernel_side = fresh_state\<rparr>"

theorem init_module_outcomes_witness:
  "\<exists>m'. aesd_init_module demo_chrdev unloaded = (0, m') \<and> dev_inv (kernel_side m') \<and>
     live m' = Some (251658240, Some aesd_fops)"
proof -
  obtain r m' where run: "aesd_init_module demo_chrdev unloaded = (r, m')"
    by (cases "aesd_init_module demo_chrdev unloaded")
  have "heap (kernel_side unloaded) = Map.empty" "aesd_minor unloaded = 0"
    "k_alloc_chrdev_region demo_chrdev (aesd_minor unloaded) = (0, 251658240)"
    by (simp_all add: unloaded_def fresh_state_def demo_chrdev_def)
  moreover have "k_MKDEV demo_chrdev (k_MAJOR demo_chrdev 251658240) 0 = 251658240"
    "k_cdev_add demo_chrdev 251658240 = 0"
    by (simp_all add: demo_chrdev_def)
  ultimately show ?thesis
    using init_module_outcomes [OF _ _ run, of 0 251658240] run by (simp add: Let_def)
qed

text \<open>C26. Unloading never frees a block twice and never frees what is not a block: from every state
  that satisfies the device invariant it completes, and exactly the blocks of the stored commands and
  of the command being collected are gone; when no block had been lost, none is left.\<close>

theorem cleanup_frees_everything_once:
  assumes "kernel_ok K" "dev_inv (kernel_side m)"
  shows "\<exists>m'. aesd_cleanup_module E K m = Some m' \<and> live m' = None \<and>
    regions m' = regions m - {k_MKDEV E (aesd_major m) (aesd_minor m)} \<and>
    dom (heap (kernel_side m')) = dom (heap (kernel_side m)) - set (owned (kernel_side m)) \<and>
    (no_leak (kernel_side m) \<longrightarrow> heap (kernel_side m') = Map.empty)"
proof -
  have "heap (kernel_side m) |` (- set (owned (kernel_side m))) = Map.empty" if "no_leak (kernel_side m)"
    using that by (auto simp: no_leak_def restrict_map_def fun_eq_iff)
  then show ?thesis
    using cleanup_exec [OF assms(1) dev_invD(1) [OF assms(2)], of E]
    by (auto simp: unregister_chrdev_region_def)
qed

theorem cleanup_frees_everything_once_witness:
  "\<exists>m'. aesd_cleanup_module demo_chrdev demo_kernel (unloaded\<lparr>kernel_side := one_command_state\<rparr>) = Some m' \<and>
     heap (kernel_side m') = Map.empty"
proof -
  have "no_leak one_command_state"
    using one_command_stored by (simp add: no_leak_def owned_def one_command_state_def fresh_state_def)
  then show ?thesis
    using cleanup_frees_everything_once [OF demo_kernel_ok, of "unloaded\<lparr>kernel_side := one_command_state\<rparr>" demo_chrdev]
      one_command_state(1) by auto
qed

end
