(* ===== verification/Driver_Runs.thy ===== *)
theory Driver_Runs
  imports Driver_Module
begin

text \<open>
  The driver over time. Several processes hold the device open and call it in any order; the mutex
  makes the body of every call one step (\<open>Driver_Preemption\<close> justifies this). The first part is the step
  relation over all file operations with arbitrary behaviour of the kernel in every call, and what holds in
  every reachable state; the second part follows a sequence of writes and a reader from the first byte to the end of the content.
\<close>

section \<open>Any sequence of calls\<close>

text \<open>The calls a process can make through an open file number.\<close>

datatype call =
    Open
  | Read nat u64
  | Write nat "byte list"
  | Ioctl nat u32 u64 aesd_seekto
  | Llseek nat i64 i32

record system =
  device_state :: kstate
  files :: "struct_file list"

text \<open>The helper \<open>fixed_size_llseek\<close> moves the position of the file and nothing else.\<close>

definition llseek_ok :: "kenv \<Rightarrow> bool" where
  "llseek_ok K \<longleftrightarrow> (\<forall>f off wh size. private_data (fst (k_fixed_size_llseek K f off wh size)) = private_data f)"

text \<open>What a call returns and how the system continues; \<open>None\<close> is undefined behaviour. A file number
  that is not open does not reach the driver.\<close>

definition run_call :: "kenv \<Rightarrow> call \<Rightarrow> system \<Rightarrow> (i64 \<times> byte list \<times> system) option" where
  "run_call K c y =
     (case c of
        Open \<Rightarrow>
          let (r, f) = op_open aesd_fops \<lparr>i_cdev = AesdDevice\<rparr> \<lparr>f_pos = 0, private_data = NoDevice\<rparr>
          in Some (ucast r, [], y\<lparr>files := files y @ [f]\<rparr>)
      | Read i n \<Rightarrow> do {
          f \<leftarrow> arr_get (files y) i;
          (r, pos, out, s) \<leftarrow> op_read aesd_fops K (Some f) True n (Some (f_pos f)) (device_state y);
          Some (r, out, y\<lparr>device_state := s, files := (files y)[i := f\<lparr>f_pos := pos\<rparr>]\<rparr>)
        }
      | Write i xs \<Rightarrow> do {
          f \<leftarrow> arr_get (files y) i;
          (r, pos, s) \<leftarrow> op_write aesd_fops K (Some f) (Some xs) (word_of_nat (length xs)) (Some (f_pos f)) (device_state y);
          Some (r, [], y\<lparr>device_state := s, files := (files y)[i := f\<lparr>f_pos := pos\<rparr>]\<rparr>)
        }
      | Ioctl i cmd arg us \<Rightarrow> do {
          f \<leftarrow> arr_get (files y) i;
          (r, f', s) \<leftarrow> op_unlocked_ioctl aesd_fops K (Some f) cmd arg us (device_state y);
          g \<leftarrow> f';
          Some (r, [], y\<lparr>device_state := s, files := (files y)[i := g]\<rparr>)
        }
      | Llseek i off wh \<Rightarrow> do {
          f \<leftarrow> arr_get (files y) i;
          (r, f', s) \<leftarrow> op_llseek aesd_fops K (Some f) off wh (device_state y);
          Some (r, [], y\<lparr>device_state := s, files := (files y)[i := f']\<rparr>)
        })"

text \<open>The calls a process may make: a file number that is open, and a buffer below two gigabytes
  (the kernel cuts longer counts).\<close>

fun call_ok :: "call \<Rightarrow> system \<Rightarrow> bool" where
  "call_ok Open y = True"
| "call_ok (Read i n) y = (i < length (files y))"
| "call_ok (Write i xs) y = (i < length (files y) \<and> length xs < 2 ^ 31)"
| "call_ok (Ioctl i cmd arg us) y = (i < length (files y))"
| "call_ok (Llseek i off wh) y = (i < length (files y))"

text \<open>The one call that reads behind the array of ten slots: a seek to command ten that passes the checks
  of the argument and gets the mutex.\<close>

fun reads_past_slots :: "kenv \<Rightarrow> call \<Rightarrow> bool" where
  "reads_past_slots K (Ioctl i cmd arg us) =
     (cmd = AESDCHAR_IOCSEEKTO K \<and> k_access_ok K arg 8 \<and>
      snd (k_copy_seekto K (write_cmd us, write_cmd_offset us)) = 0 \<and> write_cmd us = 10 \<and>
      fst (k_mutex_lock_interruptible K False) = 0)"
| "reads_past_slots K c = False"

definition env_ok :: "kenv \<Rightarrow> bool" where
  "env_ok K \<longleftrightarrow> kernel_ok K \<and> ioc_ok K \<and> llseek_ok K"

inductive step :: "system \<Rightarrow> call \<Rightarrow> i64 \<Rightarrow> byte list \<Rightarrow> system \<Rightarrow> bool" where
  call: "env_ok K \<Longrightarrow> call_ok c y \<Longrightarrow> run_call K c y = Some (r, out, y') \<Longrightarrow> step y c r out y'"

inductive reachable :: "system \<Rightarrow> bool" where
  start: "reachable \<lparr>device_state = fresh_state, files = []\<rparr>"
| next_call: "reachable y \<Longrightarrow> step y c r out y' \<Longrightarrow> reachable y'"

inductive_cases step_elim: "step y c r out y'"

definition system_inv :: "system \<Rightarrow> bool" where
  "system_inv y \<longleftrightarrow> dev_inv (device_state y) \<and> (\<forall>f \<in> set (files y). private_data f = AesdDevice)"

text \<open>Every operation but that one is defined from a state of the invariant, and keeps it.\<close>

lemma read_step:
  assumes "kernel_ok K" "dev_inv s" "private_data f = AesdDevice"
  obtains r pos out s' where "aesd_read K (Some f) True n (Some p) s = Some (r, pos, out, s')" "dev_inv s'"
  using read_interrupted [OF assms(2,3), of K n p] read_taken [OF assms, of n p] assms(2)
  by (cases "fst (k_mutex_lock_interruptible K False) = 0") (metis that)+

lemma write_step:
  assumes "kernel_ok K" "dev_inv s" "private_data f = AesdDevice" "length xs < 2 ^ 31"
  obtains r s' where "aesd_write K (Some f) (Some xs) (word_of_nat (length xs)) (Some p) s = Some (r, p, s')" "dev_inv s'"
proof -
  have len: "unat (word_of_nat (length xs) :: u64) = length xs"
    using assms(4) by (intro unat_of_nat_u64) simp
  show thesis
    by (rule write_cases [OF assms(1-3), of "word_of_nat (length xs)" xs p]) (use assms(2,4) len that in auto)
qed

lemma adjust_step:
  assumes "kernel_ok K" "dev_inv s" "private_data f = AesdDevice"
    and "wc \<noteq> 10 \<or> fst (k_mutex_lock_interruptible K False) \<noteq> 0"
  obtains r f' s' where "aesd_adjust_file_offset K (Some f) wc wo s = Some (r, f', s')" "dev_inv s'"
    "private_data f' = AesdDevice"
proof (cases "fst (k_mutex_lock_interruptible K False) = 0")
  case True
  then obtain l where lk: "k_mutex_lock_interruptible K False = (0, l)"
    by (cases "k_mutex_lock_interruptible K False") auto
  have "unat wc \<noteq> 10"
  proof
    assume "unat wc = 10"
    then have "wc = word_of_nat 10" by (metis of_nat_unat ucast_id)
    then show False using assms(4) True by simp
  qed
  then show thesis
    using adjust_exec [OF assms(1-3) lk, of wc wo] seek_state(1) [OF assms(1,2) lk] assms(3) that
    by (simp add: Let_def split: if_splits)
qed (use adjust_interrupted [OF assms(2,3), of K wc wo] assms that in simp)

lemma ioctl_step:
  assumes "kernel_ok K" "ioc_ok K" "dev_inv s" "private_data f = AesdDevice" "\<not> reads_past_slots K (Ioctl i cmd arg us)"
  obtains r f' s' where "aesd_ioctl K (Some f) cmd arg us s = Some (r, Some f', s')" "dev_inv s'"
    "private_data f' = AesdDevice"
proof (cases "cmd = AESDCHAR_IOCSEEKTO K")
  case True
  note exec = ioctl_seekto [OF assms(2), of f arg us s, folded True]
  show thesis
  proof (cases "\<not> k_access_ok K arg 8 \<or> snd (k_copy_seekto K (write_cmd us, write_cmd_offset us)) \<noteq> 0")
    case rejected: True
    then show thesis using exec assms(3,4) that by simp
  next
    case False
    then have "write_cmd us \<noteq> 10 \<or> fst (k_mutex_lock_interruptible K False) \<noteq> 0" using assms(5) True by simp
    then obtain r f' s' where "aesd_adjust_file_offset K (Some f) (write_cmd us) (write_cmd_offset us) s = Some (r, f', s')"
      "dev_inv s'" "private_data f' = AesdDevice"
      by (rule adjust_step [OF assms(1,3,4)])
    then show thesis using exec False that by simp
  qed
qed (use ioctl_other_cmd [of cmd K f arg us s] assms that in auto)

lemma llseek_step:
  assumes "kernel_ok K" "llseek_ok K" "dev_inv s" "private_data f = AesdDevice"
  obtains r f' s' where "aesd_llseek K (Some f) off wh s = Some (r, f', s')" "dev_inv s'"
    "private_data f' = AesdDevice"
proof (cases "fst (k_mutex_lock_interruptible K False) = 0")
  case True
  obtain g p where g: "k_fixed_size_llseek K f off wh (word_of_nat (length (dev_bytes s))) = (g, p)"
    by (cases "k_fixed_size_llseek K f off wh (word_of_nat (length (dev_bytes s)))")
  then have "private_data g = AesdDevice" using assms(2,4) unfolding llseek_ok_def by (metis fst_conv)
  then show thesis using llseek_taken [OF assms(1,3,4) True, of off wh] g that by auto
qed (use llseek_interrupted [OF assms(3,4), of K off wh] assms that in simp)

lemma run_call_defined:
  assumes "env_ok K" "system_inv y" "call_ok c y" "\<not> reads_past_slots K c"
  obtains r out y' where "run_call K c y = Some (r, out, y')" "system_inv y'"
proof -
  note K = assms(1) [unfolded env_ok_def]
  have inv: "dev_inv (device_state y)" using assms(2) by (simp add: system_inv_def)
  have handle: "arr_get (files y) i = Some (files y ! i) \<and> private_data (files y ! i) = AesdDevice"
    if "i < length (files y)" for i
    using that assms(2) by (simp add: access_simps system_inv_def)
  have keep: "system_inv (y\<lparr>device_state := s, files := (files y)[i := f]\<rparr>)"
    if "dev_inv s" "private_data f = AesdDevice" for s i f
    using that assms(2) set_update_subset_insert [of "files y" i f] by (auto simp: system_inv_def)
  show thesis
  proof (cases c)
    case Open
    then show thesis
      using assms(2) by (intro that [of _ _ "y\<lparr>files := files y @ [_]\<rparr>"])
        (auto simp: run_call_def aesd_fops_def aesd_open_def system_inv_def)
  next
    case (Read i n)
    then have i: "i < length (files y)" using assms(3) by simp
    show thesis
      by (rule read_step [of K "device_state y" "files y ! i" n "f_pos (files y ! i)"])
        (use K inv handle [OF i] keep Read that in \<open>auto simp: run_call_def aesd_fops_def\<close>)
  next
    case (Write i xs)
    then have i: "i < length (files y)" and xs: "length xs < 2 ^ 31" using assms(3) by simp_all
    show thesis
      by (rule write_step [of K "device_state y" "files y ! i" xs "f_pos (files y ! i)"])
        (use K inv handle [OF i] xs keep [of _ "files y ! i" i] Write that in \<open>auto simp: run_call_def aesd_fops_def\<close>)
  next
    case (Ioctl i cmd arg us)
    then have i: "i < length (files y)" and us: "\<not> reads_past_slots K (Ioctl i cmd arg us)" using assms(3,4) by simp_all
    show thesis
      by (rule ioctl_step [OF _ _ _ _ us, of "device_state y" "files y ! i"])
        (use K inv handle [OF i] keep Ioctl that in \<open>auto simp: run_call_def aesd_fops_def\<close>)
  next
    case (Llseek i off wh)
    then have i: "i < length (files y)" using assms(3) by simp
    show thesis
      by (rule llseek_step [of K "device_state y" "files y ! i" off wh])
        (use K inv handle [OF i] keep Llseek that in \<open>auto simp: run_call_def aesd_fops_def\<close>)
  qed
qed

lemma run_call_undefined:
  assumes "env_ok K" "system_inv y" "call_ok c y" "reads_past_slots K c"
  shows "run_call K c y = None"
proof -
  note K = assms(1) [unfolded env_ok_def]
  obtain i cmd arg us where c: "c = Ioctl i cmd arg us" using assms(4) by (cases c) auto
  have i: "i < length (files y)" using assms(3) c by simp
  then have f: "private_data (files y ! i) = AesdDevice" using assms(2) by (simp add: system_inv_def)
  have past: "cmd = AESDCHAR_IOCSEEKTO K" "k_access_ok K arg 8"
    "snd (k_copy_seekto K (write_cmd us, write_cmd_offset us)) = 0" "write_cmd us = 10"
    "fst (k_mutex_lock_interruptible K False) = 0"
    using assms(4) unfolding c reads_past_slots.simps by blast+
  have "aesd_adjust_file_offset K (Some (files y ! i)) (write_cmd us) (write_cmd_offset us) (device_state y) = None"
    unfolding past(4) by (rule seek_to_command_ten_undefined) (use K assms(2) f past(5) in \<open>simp_all add: system_inv_def\<close>)
  then have "aesd_ioctl K (Some (files y ! i)) cmd arg us (device_state y) = None"
    using ioctl_seekto [of K "files y ! i" arg us "device_state y"] K past by simp
  then show ?thesis using c i by (simp add: run_call_def aesd_fops_def access_simps)
qed

lemma run_call_keeps_inv:
  assumes "env_ok K" "system_inv y" "call_ok c y" "run_call K c y = Some (r, out, y')"
  shows "system_inv y'"
proof -
  have "\<not> reads_past_slots K c" using run_call_undefined [OF assms(1-3)] assms(4) by auto
  then show ?thesis using run_call_defined [OF assms(1-3)] assms(4) by force
qed

lemma step_keeps_inv:
  assumes "step y c r out y'" "system_inv y"
  shows "system_inv y'"
  using assms by (auto elim: step_elim intro: run_call_keeps_inv)

lemma reachable_inv: "reachable y \<Longrightarrow> system_inv y"
proof (induction rule: reachable.induct)
  case start
  then show ?case by (simp add: system_inv_def fresh_state)
qed (rule step_keeps_inv)


section \<open>Writing and reading a stream\<close>

text \<open>The lines of a byte sequence, each with its newline, and the rest without one; \<open>acc\<close> is the
  beginning of the current line.\<close>

fun split_lines :: "byte list \<Rightarrow> byte list \<Rightarrow> byte list list \<times> byte list" where
  "split_lines acc [] = ([], acc)"
| "split_lines acc (x # xs) =
     (if x = newline then (let (ls, r) = split_lines [] xs in ((acc @ [x]) # ls, r))
      else split_lines (acc @ [x]) xs)"

lemma split_lines_plain:
  "newline \<notin> set c \<Longrightarrow> split_lines acc (c @ xs) = split_lines (acc @ c) xs"
  by (induction c arbitrary: acc) auto

text \<open>A chunk with no newline, or with one at its end.\<close>

definition chunk_ok :: "byte list \<Rightarrow> bool" where
  "chunk_ok c \<longleftrightarrow> newline \<notin> set (butlast c)"

lemma chunk_cases:
  assumes "chunk_ok c"
  obtains "newline \<notin> set c" | d where "c = d @ [newline]" "newline \<notin> set d"
  using assms by (cases c rule: rev_cases) (auto simp: chunk_ok_def)

text \<open>The commands the driver makes of a sequence of writes: a write with a newline anywhere in it ends the
  command that is being collected, whole. The second component is what is being collected at the end.\<close>

fun cut_commands :: "byte list \<Rightarrow> byte list list \<Rightarrow> byte list list \<times> byte list" where
  "cut_commands acc [] = ([], acc)"
| "cut_commands acc (c # cs) =
     (if newline \<in> set c then (let (ls, r) = cut_commands [] cs in ((acc @ c) # ls, r))
      else cut_commands (acc @ c) cs)"

lemma fold_spec_write_cut:
  assumes "newline \<notin> set (partial v)" "length (commands v) \<le> 10"
  shows "fold spec_write cs v =
    (let (ls, r) = cut_commands (partial v) cs
     in \<lparr>commands = keep_last 10 (commands v @ ls), partial = r\<rparr>)"
  using assms
proof (induction cs arbitrary: v)
  case (Cons c cs)
  show ?case
  proof (cases "newline \<in> set c")
    case False
    then have "spec_write c v = v\<lparr>partial := partial v @ c\<rparr>"
      using Cons.prems by (simp add: spec_write_def)
    then show ?thesis using Cons.IH [of "spec_write c v"] Cons.prems False by simp
  next
    case True
    let ?v = "\<lparr>commands = keep_last 10 (commands v @ [partial v @ c]), partial = []\<rparr>"
    have "spec_write c v = ?v" using True by (simp add: spec_write_def)
    then show ?thesis
      using Cons.IH [of ?v] True by (simp add: Let_def split_beta keep_last_append_absorb)
  qed
qed simp

text \<open>While a newline stands only at the end of a write, these are the lines of the stream.\<close>

lemma cut_commands_lines:
  "\<forall>c \<in> set cs. chunk_ok c \<Longrightarrow> cut_commands acc cs = split_lines acc (concat cs)"
proof (induction cs arbitrary: acc)
  case (Cons c cs)
  from Cons.prems have "chunk_ok c" by simp
  then show ?case
    by (cases rule: chunk_cases) (use Cons in \<open>auto simp: split_lines_plain\<close>)
qed simp

lemma fold_spec_write:
  assumes "\<forall>c \<in> set cs. chunk_ok c" "newline \<notin> set (partial v)" "length (commands v) \<le> 10"
  shows "fold spec_write cs v =
    (let (ls, r) = split_lines (partial v) (concat cs)
     in \<lparr>commands = keep_last 10 (commands v @ ls), partial = r\<rparr>)"
  using fold_spec_write_cut [OF assms(2,3), of cs] cut_commands_lines [OF assms(1)] by simp

text \<open>A sequence of writes to one file, each of which returned the length it was given.\<close>

inductive written :: "kstate \<Rightarrow> byte list list \<Rightarrow> kstate \<Rightarrow> bool" where
  none: "written s [] s"
| more: "kernel_ok K \<Longrightarrow> private_data f = AesdDevice \<Longrightarrow> length c < 2 ^ 31 \<Longrightarrow>
    aesd_write K (Some f) (Some c) (word_of_nat (length c)) (Some (f_pos f)) s =
      Some (word_of_nat (length c), pos, s') \<Longrightarrow> written s' cs s'' \<Longrightarrow> written s (c # cs) s''"

lemma full_write:
  assumes "kernel_ok K" "private_data f = AesdDevice" "length c < 2 ^ 31" "dev_inv s" "healthy s"
    and w: "aesd_write K (Some f) (Some c) (word_of_nat (length c)) (Some p) s = Some (word_of_nat (length c), p', s')"
  shows "dev_inv s'" "healthy s'" "view s' = spec_write c (view s)"
proof -
  have len: "unat (word_of_nat (length c) :: u64) = length c"
    using assms(3) by (intro unat_of_nat_u64) simp
  have no_error: "word_of_nat (length c) \<noteq> - ERESTARTSYS" "word_of_nat (length c) \<noteq> - ENOMEM"
  proof -
    have "unat (- ERESTARTSYS) = 2 ^ 64 - 512" "unat (- ENOMEM) = 2 ^ 64 - 12"
      by (simp_all add: ERESTARTSYS_def ENOMEM_def)
    then show "word_of_nat (length c) \<noteq> - ERESTARTSYS" "word_of_nat (length c) \<noteq> - ENOMEM"
      using len assms(3) by (auto dest!: arg_cong [of _ _ unat])
  qed
  have "dev_inv s' \<and> healthy s' \<and> view s' = spec_write c (view s)"
  proof (rule write_cases [OF assms(1,4,2), of "word_of_nat (length c)" c p])
    assume z: "word_of_nat (length c) = (0 :: u64)"
      and e: "aesd_write K (Some f) (Some c) (word_of_nat (length c)) (Some p) s = Some (0, p, s)"
    have "s' = s" using trans [OF e [symmetric] w] by simp
    moreover have "c = []" using z len by (metis length_0_conv unat_0)
    moreover have "spec_write [] (view s) = view s"
      using dev_invD(3) [OF assms(4)] by (simp add: spec_write_def view_def)
    ultimately show ?thesis using assms(4,5) by simp
  next
    fix r s2 old
    assume a: "aesd_write K (Some f) (Some c) (word_of_nat (length c)) (Some p) s = Some (r, p, s2)" "dev_inv s2"
      "healthy s \<longrightarrow> old = partial (view s)" "healthy s2"
      "view s2 = spec_write (take (unat r) c) \<lparr>commands = commands (view s), partial = old\<rparr>"
    then have "r = word_of_nat (length c)" "s2 = s'" using w by simp_all
    then show ?thesis using a assms(5) len by (cases "view s") simp
  qed (use len assms(3) w no_error in simp_all)
  then show "dev_inv s'" "healthy s'" "view s' = spec_write c (view s)" by simp_all
qed

lemma written_view:
  "written s cs s' \<Longrightarrow> dev_inv s \<Longrightarrow> healthy s \<Longrightarrow>
   dev_inv s' \<and> healthy s' \<and> view s' = fold spec_write cs (view s)"
proof (induction rule: written.induct)
  case (more K f c s pos s' cs s'')
  note w = full_write [OF more.hyps(1-3) more.prems more.hyps(4)]
  then show ?case using more.IH by simp
qed simp

text \<open>A reader that calls \<open>read\<close> until it gets nothing, with the position carried along.\<close>

fun read_to_end :: "nat \<Rightarrow> kenv \<Rightarrow> u64 \<Rightarrow> struct_file \<Rightarrow> kstate \<Rightarrow> byte list option" where
  "read_to_end 0 K n f s = None"
| "read_to_end (Suc fuel) K n f s =
     do {
       (r, pos, out, s) \<leftarrow> aesd_read K (Some f) True n (Some (f_pos f)) s;
       if r = 0 then Some [] else map_option (\<lambda>rest. out @ rest) (read_to_end fuel K n (f\<lparr>f_pos := pos\<rparr>) s)
     }"

lemma read_to_end_content:
  assumes "kernel_ok K" "fst (k_mutex_lock_interruptible K False) = 0" "\<forall>bs. snd (k_copy_to_user K bs) = 0" "n \<noteq> 0"
  shows "dev_inv s \<Longrightarrow> private_data f = AesdDevice \<Longrightarrow> length (dev_bytes s) - unat (f_pos f) < fuel \<Longrightarrow>
    read_to_end fuel K n f s = Some (drop (unat (f_pos f)) (dev_bytes s))"
proof (induction fuel arbitrary: f s)
  case (Suc fuel)
  let ?p = "f_pos f"
  obtain out m s' where tk:
    "aesd_read K (Some f) True n (Some ?p) s = Some (word_of_nat (length out), ?p + word_of_nat (length out), out, s')"
    "out = take m (next_chunk s ?p)" "length out \<le> unat n" "length out < 2 ^ 31"
    "unat ?p < length (dev_bytes s) \<longrightarrow> next_chunk s ?p \<noteq> []"
    "(\<forall>bs. snd (k_copy_to_user K bs) = 0) \<longrightarrow> m = unat n" "view s' = view s" "dev_inv s'"
    by (rule read_taken [OF assms(1) Suc.prems(1,2) assms(2)])
  let ?rest = "drop m (next_chunk s ?p) @ concat (tl (chunks_from (commands (view s)) (unat ?p)))"
  have ahead: "drop (unat ?p) (dev_bytes s) = out @ ?rest"
    unfolding dev_bytes_ahead tk(2) by simp
  have "0 < unat n" using assms(4) by (simp add: unat_gt_0)
  then have some: "unat ?p < length (dev_bytes s) \<longrightarrow> out \<noteq> []"
    using tk(2,5,6) assms(3) by simp
  obtain rest where r:
    "aesd_read K (Some f) True n (Some ?p) s = Some (word_of_nat (length out), ?p + word_of_nat (length out), out, s')"
    "drop (unat ?p) (dev_bytes s) = out @ rest" "length out \<le> unat n" "length out < 2 ^ 31"
    "unat ?p < length (dev_bytes s) \<longrightarrow> out \<noteq> []"
    "view s' = view s" "dev_inv s'"
    using tk ahead some by blast
  have len: "unat (word_of_nat (length out) :: u64) = length out"
    using r(4) by (intro unat_of_nat_u64) simp
  show ?case
  proof (cases "unat ?p < length (dev_bytes s)")
    case False
    then have "out = []" "drop (unat ?p) (dev_bytes s) = []" using r(2) by simp_all
    then show ?thesis using r(1) by simp
  next
    case True
    then have out: "out \<noteq> []" using r(5) assms by blast
    then have nz: "word_of_nat (length out) \<noteq> (0 :: u64)" using len by (metis length_0_conv unat_0)
    have total: "length (dev_bytes s) = unat ?p + length out + length rest"
      using True arg_cong [OF r(2), of length] by simp
    have pos: "unat (?p + word_of_nat (length out)) = unat ?p + length out"
      using total dev_bytes_bound [OF dev_invD(1) [OF Suc.prems(1)]] len by (subst unat_add_nowrap) simp_all
    have same: "dev_bytes s' = dev_bytes s" using r(6) by (simp add: dev_bytes_def)
    have "length rest < fuel"
      using Suc.prems(3) total out length_greater_0_conv [of out] by linarith
    then have "length (dev_bytes s') - unat (f_pos (f\<lparr>f_pos := ?p + word_of_nat (length out)\<rparr>)) < fuel"
      using total pos same by simp
    then have "read_to_end fuel K n (f\<lparr>f_pos := ?p + word_of_nat (length out)\<rparr>) s' =
      Some (drop (unat ?p + length out) (dev_bytes s))"
      using Suc.IH [OF r(7), of "f\<lparr>f_pos := ?p + word_of_nat (length out)\<rparr>"] Suc.prems(2) pos same by simp
    moreover have "drop (unat ?p + length out) (dev_bytes s) = rest"
      using r(2) by (metis add.commute append_eq_conv_conj drop_drop)
    ultimately show ?thesis using r(1,2) nz by simp
  qed
qed simp

section \<open>Properties\<close>

text \<open>C2. However processes mix open, read, write, llseek and seek calls, and whatever the kernel
  services do in each call: in every reachable state a call is undefined exactly when it is a seek to command ten that
  passes the checks of its argument and gets the mutex (it reads behind the ten slots). Every other call
  returns, in a state that is reachable again and where the device invariant holds, the mutex is free,
  every file has the device behind it and every stored command ends up with its newline.\<close>

theorem reachable_calls_are_defined:
  assumes "reachable y" "env_ok K" "call_ok c y"
  shows "(run_call K c y = None \<longleftrightarrow> reads_past_slots K c) \<and>
    (\<forall>r out y'. run_call K c y = Some (r, out, y') \<longrightarrow> reachable y' \<and> dev_inv (device_state y') \<and>
      \<not> lock (aesd_device (device_state y')) \<and> (\<forall>f \<in> set (files y'). private_data f = AesdDevice) \<and>
      (\<forall>cmd \<in> set (commands (view (device_state y'))). newline \<in> set cmd))"
proof -
  note inv = reachable_inv [OF assms(1)]
  have "run_call K c y = None \<longleftrightarrow> reads_past_slots K c"
    using run_call_undefined [OF assms(2) inv assms(3)] run_call_defined [OF assms(2) inv assms(3)] by fastforce
  moreover have "reachable y' \<and> system_inv y'" if "run_call K c y = Some (r, out, y')" for r out y'
    using assms that run_call_keeps_inv [OF assms(2) inv assms(3) that] by (blast intro: reachable.next_call step.call)
  moreover have "newline \<in> set cmd" if "system_inv z" "cmd \<in> set (commands (view (device_state z)))" for z cmd
    using that by (auto simp: system_inv_def dev_inv_def view_def stored_ok_def dest: mem_invD(2))
  ultimately show ?thesis by (simp add: system_inv_def dev_inv_def) blast
qed

lemma demo_env_ok: "env_ok demo_kernel"
proof -
  have "llseek_ok demo_kernel"
    by (simp add: llseek_ok_def demo_kernel_def Let_def)
  then show ?thesis by (simp add: env_ok_def demo_kernel_ok demo_ioc_ok)
qed

lemma reachable_open:
  "reachable \<lparr>device_state = fresh_state, files = [\<lparr>f_pos = 0, private_data = AesdDevice\<rparr>]\<rparr>"
proof -
  have "run_call demo_kernel Open \<lparr>device_state = fresh_state, files = []\<rparr> =
    Some (0, [], \<lparr>device_state = fresh_state, files = [\<lparr>f_pos = 0, private_data = AesdDevice\<rparr>]\<rparr>)"
    by (simp add: run_call_def aesd_fops_def aesd_open_def)
  then show ?thesis
    using reachable.start demo_env_ok by (force intro: reachable.next_call step.call)
qed

theorem reachable_calls_are_defined_witness:
  "(\<exists>r out y'. run_call demo_kernel (Write 0 [104, 105, 10])
      \<lparr>device_state = fresh_state, files = [some_file]\<rparr> = Some (r, out, y') \<and> reachable y') \<and>
   run_call demo_kernel (Ioctl 0 (AESDCHAR_IOCSEEKTO demo_kernel) 0 \<lparr>write_cmd = 10, write_cmd_offset = 0\<rparr>)
      \<lparr>device_state = fresh_state, files = [some_file]\<rparr> = None"
proof -
  note here = reachable_calls_are_defined [OF reachable_open demo_env_ok]
  obtain r out y' where "run_call demo_kernel (Write 0 [104, 105, 10]) \<lparr>device_state = fresh_state, files = [some_file]\<rparr> = Some (r, out, y')"
    using here [of "Write 0 [104, 105, 10]"] by auto
  moreover have "reads_past_slots demo_kernel (Ioctl 0 (AESDCHAR_IOCSEEKTO demo_kernel) 0 \<lparr>write_cmd = 10, write_cmd_offset = 0\<rparr>)"
    by (simp add: demo_kernel_def)
  ultimately show ?thesis
    using here [of "Write 0 [104, 105, 10]"]
      here [of "Ioctl 0 (AESDCHAR_IOCSEEKTO demo_kernel) 0 \<lparr>write_cmd = 10, write_cmd_offset = 0\<rparr>"] by simp
qed

text \<open>C1. End to end: when bytes are written in any pieces and every write reports success, a reader that
  starts at position zero and reads until it gets nothing receives exactly the last ten commands, in order, whatever
  the size of its buffer. A command is what was written from behind the last write with a newline up to and with the
  next write that has one; what follows is held back. When a newline stands only at the end of a piece,
  the commands are the lines of the stream, and the pieces do not matter.\<close>

theorem device_returns_last_ten_lines:
  assumes "written fresh_state cs s"
    and "kernel_ok K" "fst (k_mutex_lock_interruptible K False) = 0" "\<forall>bs. snd (k_copy_to_user K bs) = 0"
    and "n \<noteq> 0" "private_data f = AesdDevice" "f_pos f = 0" "length (dev_bytes s) < fuel"
  shows "read_to_end fuel K n f s = Some (concat (keep_last 10 (fst (cut_commands [] cs)))) \<and>
    partial (view s) = snd (cut_commands [] cs) \<and>
    ((\<forall>c \<in> set cs. chunk_ok c) \<longrightarrow> cut_commands [] cs = split_lines [] (concat cs))"
proof -
  have s: "dev_inv s" "view s = fold spec_write cs \<lparr>commands = [], partial = []\<rparr>"
    using written_view [OF assms(1)] by (simp_all add: fresh_state)
  then have v: "view s = \<lparr>commands = keep_last 10 (fst (cut_commands [] cs)), partial = snd (cut_commands [] cs)\<rparr>"
    using fold_spec_write_cut [of "\<lparr>commands = [], partial = []\<rparr>" cs] by (simp add: Let_def split_beta)
  moreover have "read_to_end fuel K n f s = Some (dev_bytes s)"
    using read_to_end_content [OF assms(2-5) s(1) assms(6)] assms(7,8) by simp
  ultimately show ?thesis using cut_commands_lines by (simp add: dev_bytes_def)
qed

lemma demo_written: "\<exists>s. written fresh_state [[104, 105, 10]] s"
proof -
  have len: "unat (3 :: u64) < 2 ^ 31" "length [104, 105, 10 :: byte] = unat (3 :: u64)" by simp_all
  have lk: "fst (k_mutex_lock_interruptible demo_kernel False) = 0" by (simp add: demo_kernel_simps)
  have al: "fst (the (write_alloc demo_kernel 3 (set_lock True fresh_state))) \<noteq> 0"
    using demo_alloc_fresh [of 3] by simp
  have "\<exists>s. aesd_write demo_kernel (Some some_file) (Some [104, 105, 10]) 3 (Some 0) fresh_state = Some (3, 0, s)"
    by (rule write_cases [OF demo_kernel_ok fresh_state(1) _ len, of some_file 0])
      (use lk al in \<open>auto simp: demo_kernel_simps\<close>)
  then obtain s where "aesd_write demo_kernel (Some some_file) (Some [104, 105, 10]) 3 (Some 0) fresh_state = Some (3, 0, s)"
    by blast
  then have "written fresh_state [[104, 105, 10]] s"
    by (intro written.more [OF demo_kernel_ok, of some_file, OF _ _ _ written.none]) simp_all
  then show ?thesis by blast
qed

theorem device_returns_last_ten_lines_witness:
  "\<exists>s fuel. read_to_end fuel demo_kernel 1024 some_file s = Some [104, 105, 10]"
proof -
  obtain s where "written fresh_state [[104, 105, 10]] s" using demo_written by blast
  then show ?thesis
    using device_returns_last_ten_lines [of "[[104, 105, 10]]" s demo_kernel 1024 some_file "Suc (length (dev_bytes s))"]
    by (simp add: demo_kernel_ok demo_kernel_simps newline_def del: read_to_end.simps) blast
qed

end
