(* ===== verification/Driver_Preemption.thy ===== *)
theory Driver_Preemption
  imports Driver_Runs
begin

text \<open>
  Calls of the driver that are preempted. \<open>Driver_Runs\<close> takes a call of \<^verbatim>\<open>aesd-char-driver/main.c\<close> as one step. Here
  a call is cut where the kernel may run another process: before the mutex, while waiting for it, after it is
  taken, between the allocation and the copy of a write, and before the unlock. Each process has its own
  open file; any number of them are inside the driver at the same time. The calls turn out to be
  atomic: what the processes see is what some sequence of whole calls gives.
\<close>

section \<open>The parts of a call\<close>

text \<open>The checks of a write and of a control call before the mutex, with the result of a call that ends there. (The
  tests for NULL pointers do not apply to a call through an open file.)\<close>

definition write_early :: "byte list \<Rightarrow> i64 option" where
  "write_early xs = (if (word_of_nat (length xs) :: u64) = 0 then Some 0 else None)"

definition ioctl_early :: "kenv \<Rightarrow> u32 \<Rightarrow> u64 \<Rightarrow> aesd_seekto \<Rightarrow> i64 option" where
  "ioctl_early K cmd arg us =
     (if k_IOC_TYPE K cmd \<noteq> AESD_IOC_MAGIC \<or> AESDCHAR_IOC_MAXNR < k_IOC_NR K cmd then Some (- ENOTTY)
      else if (k_IOC_DIR K cmd AND k_IOC_WRITE K \<noteq> 0 \<or> k_IOC_DIR K cmd AND k_IOC_READ K \<noteq> 0) \<and>
        \<not> k_access_ok K arg (k_IOC_SIZE K cmd) then Some (- EFAULT)
      else if cmd \<noteq> AESDCHAR_IOCSEEKTO K then Some (- ENOTTY)
      else if snd (k_copy_seekto K (write_cmd us, write_cmd_offset us)) \<noteq> 0 then Some (- EFAULT)
      else None)"

lemmas early_defs [simp] = write_early_def ioctl_early_def

fun early_return :: "kenv \<Rightarrow> call \<Rightarrow> i64 option" where
  "early_return K Open = Some 0"
| "early_return K (Read i n) = None"
| "early_return K (Write i xs) = write_early xs"
| "early_return K (Ioctl i cmd arg us) = ioctl_early K cmd arg us"
| "early_return K (Llseek i off wh) = None"

text \<open>What a seek does while it holds the mutex.\<close>

definition adjust_locked :: "u32 \<Rightarrow> u32 \<Rightarrow> struct_file \<Rightarrow> kstate \<Rightarrow> (i64 \<times> struct_file) option" where
  "adjust_locked wc wo f s =
     do {
       let cb = circle_buff (aesd_device s);
       (_, position) \<leftarrow> AESD_CIRCULAR_BUFFER_FOREACH cb (\<lambda>e u. Some u) ();
       invalid \<leftarrow> (if position < unat wc then Some True
                  else do {
                    e \<leftarrow> arr_get (entry cb) (unat wc);
                    Some (esize e \<le> ucast wo \<or> max_ops < unat wc)
                  });
       if invalid then Some (- EINVAL, f)
       else do {
         pos \<leftarrow> (if wc = 0 then Some (f_pos f + ucast wo)
                else do {
                  pos \<leftarrow> fold_opt (\<lambda>i p. do { e \<leftarrow> arr_get (entry cb) i; Some (p + esize e) })
                           [0..<unat wc] (f_pos f);
                  Some (pos + ucast wo)
                });
         Some (0, f\<lparr>f_pos := pos\<rparr>)
       }
     }"

definition llseek_locked :: "kenv \<Rightarrow> i64 \<Rightarrow> i32 \<Rightarrow> struct_file \<Rightarrow> kstate \<Rightarrow> (i64 \<times> struct_file) option" where
  "llseek_locked K offset whence f s =
     do {
       (total_buffer_size, _) \<leftarrow>
         AESD_CIRCULAR_BUFFER_FOREACH (circle_buff (aesd_device s)) (\<lambda>e t. Some (t + esize e)) 0;
       let (f, seek_position) = k_fixed_size_llseek K f offset whence total_buffer_size;
       Some (seek_position, f)
     }"

section \<open>A process inside the driver\<close>

text \<open>Where the process is. \<open>kenv\<close> is how the kernel services behave during this call; at the end the result, the
  file with its new position and the bytes delivered are known.\<close>

datatype phase =
    Idle
  | Entered kenv call
  | Waiting kenv call
  | Locked kenv call
  | Allocated kenv call
  | Unlocking kenv call i64 struct_file "byte list"

text \<open>A step: nothing to do, waiting for the mutex, a move, or the return from the call.\<close>

datatype moved =
    Stays
  | Blocked
  | Moves phase kstate
  | Returns call i64 struct_file "byte list" kstate

definition phase_step :: "struct_file \<Rightarrow> phase \<Rightarrow> kstate \<Rightarrow> moved option" where
  "phase_step f ph s =
     (case ph of
        Idle \<Rightarrow> Some Stays
      | Entered K c \<Rightarrow>
          Some (case early_return K c of Some r \<Rightarrow> Returns c r f [] s | None \<Rightarrow> Moves (Waiting K c) s)
      | Waiting K c \<Rightarrow> do {
          device \<leftarrow> deref_device f s;
          let (interrupted, l) = k_mutex_lock_interruptible K (lock device);
          Some (if interrupted \<noteq> 0 then Returns c (- ERESTARTSYS) f [] s
                else if lock device then Blocked
                else Moves (Locked K c) (set_lock l s))
        }
      | Locked K c \<Rightarrow>
          (case c of
             Open \<Rightarrow> None
           | Read i n \<Rightarrow> do {
               (r, pos, out) \<leftarrow> aesd_read_locked K n (f_pos f) s;
               Some (Moves (Unlocking K c r (f\<lparr>f_pos := pos\<rparr>) out) s)
             }
           | Write i xs \<Rightarrow> do {
               (p, s) \<leftarrow> write_alloc K (word_of_nat (length xs)) s;
               Some (if p = 0 then Moves (Unlocking K c (- ENOMEM) f []) s else Moves (Allocated K c) s)
             }
           | Ioctl i cmd arg us \<Rightarrow>
               (case fst (k_copy_seekto K (write_cmd us, write_cmd_offset us)) of
                  (wc, wo) \<Rightarrow> do {
                    (r, f) \<leftarrow> adjust_locked wc wo f s;
                    Some (Moves (Unlocking K c r f []) s)
                  })
           | Llseek i off wh \<Rightarrow> do {
               (r, f) \<leftarrow> llseek_locked K off wh f s;
               Some (Moves (Unlocking K c r f []) s)
             })
      | Allocated K c \<Rightarrow>
          (case c of
             Write i xs \<Rightarrow> do {
               (r, s) \<leftarrow> write_copy K xs (word_of_nat (length xs)) s;
               Some (Moves (Unlocking K c r f []) s)
             }
           | _ \<Rightarrow> None)
      | Unlocking K c r f out \<Rightarrow> Some (Returns c r f out (mutex_unlock K s)))"

section \<open>Any number of processes\<close>

record process =
  p_file :: struct_file
  p_phase :: phase

record machine =
  device :: kstate
  processes :: "process list"

fun file_of :: "call \<Rightarrow> nat option" where
  "file_of Open = None"
| "file_of (Read i n) = Some i"
| "file_of (Write i xs) = Some i"
| "file_of (Ioctl i cmd arg us) = Some i"
| "file_of (Llseek i off wh) = Some i"

text \<open>The completed calls are recorded in the order of their returns. A process makes calls on its own file, whose
  number is its own.\<close>

inductive preempted :: "machine \<Rightarrow> (call \<times> i64 \<times> byte list) list \<Rightarrow> bool" where
  start: "preempted \<lparr>device = fresh_state, processes = []\<rparr> []"
| opened: "preempted m log \<Longrightarrow>
    op_open aesd_fops \<lparr>i_cdev = AesdDevice\<rparr> \<lparr>f_pos = 0, private_data = NoDevice\<rparr> = (r, f) \<Longrightarrow>
    preempted (m\<lparr>processes := processes m @ [\<lparr>p_file = f, p_phase = Idle\<rparr>]\<rparr>) (log @ [(Open, ucast r, [])])"
| called: "preempted m log \<Longrightarrow> env_ok K \<Longrightarrow> i < length (processes m) \<Longrightarrow> p_phase (processes m ! i) = Idle \<Longrightarrow>
    file_of c = Some i \<Longrightarrow> call_ok c \<lparr>device_state = device m, files = map p_file (processes m)\<rparr> \<Longrightarrow>
    preempted (m\<lparr>processes := (processes m)[i := (processes m ! i)\<lparr>p_phase := Entered K c\<rparr>]\<rparr>) log"
| moved: "preempted m log \<Longrightarrow> i < length (processes m) \<Longrightarrow> p = processes m ! i \<Longrightarrow>
    phase_step (p_file p) (p_phase p) (device m) = Some (Moves ph s) \<Longrightarrow>
    preempted \<lparr>device = s, processes = (processes m)[i := p\<lparr>p_phase := ph\<rparr>]\<rparr> log"
| returned: "preempted m log \<Longrightarrow> i < length (processes m) \<Longrightarrow> p = processes m ! i \<Longrightarrow>
    phase_step (p_file p) (p_phase p) (device m) = Some (Returns c r f out s) \<Longrightarrow>
    preempted \<lparr>device = s, processes = (processes m)[i := \<lparr>p_file = f, p_phase = Idle\<rparr>]\<rparr> (log @ [(c, r, out)])"

text \<open>The same calls one after the other.\<close>

inductive history :: "(call \<times> i64 \<times> byte list) list \<Rightarrow> system \<Rightarrow> bool" where
  start: "history [] \<lparr>device_state = fresh_state, files = []\<rparr>"
| next_call: "history log y \<Longrightarrow> step y c r out y' \<Longrightarrow> history (log @ [(c, r, out)]) y'"

lemma history_reachable: "history log y \<Longrightarrow> reachable y"
  by (induction rule: history.induct) (auto intro: reachable.intros)

section \<open>The parts add up to the call\<close>

text \<open>A call on one file, and what is left of it in each phase under the mutex.\<close>

definition call_alone ::
  "kenv \<Rightarrow> call \<Rightarrow> struct_file \<Rightarrow> kstate \<Rightarrow> (i64 \<times> byte list \<times> struct_file \<times> kstate) option" where
  "call_alone K c f s =
     (case c of
        Open \<Rightarrow> None
      | Read i n \<Rightarrow> do {
          (r, pos, out, s) \<leftarrow> aesd_read K (Some f) True n (Some (f_pos f)) s;
          Some (r, out, f\<lparr>f_pos := pos\<rparr>, s)
        }
      | Write i xs \<Rightarrow> do {
          (r, pos, s) \<leftarrow> aesd_write K (Some f) (Some xs) (word_of_nat (length xs)) (Some (f_pos f)) s;
          Some (r, [], f\<lparr>f_pos := pos\<rparr>, s)
        }
      | Ioctl i cmd arg us \<Rightarrow> do { (r, f', s) \<leftarrow> aesd_ioctl K (Some f) cmd arg us s; g \<leftarrow> f'; Some (r, [], g, s) }
      | Llseek i off wh \<Rightarrow> do { (r, f, s) \<leftarrow> aesd_llseek K (Some f) off wh s; Some (r, [], f, s) })"

definition rest_of_call :: "struct_file \<Rightarrow> phase \<Rightarrow> kstate \<Rightarrow> (i64 \<times> byte list \<times> struct_file \<times> kstate) option" where
  "rest_of_call f ph s =
     (case ph of
        Locked K c \<Rightarrow>
          (case c of
             Open \<Rightarrow> None
           | Read i n \<Rightarrow> do {
               (r, pos, out) \<leftarrow> aesd_read_locked K n (f_pos f) s;
               Some (r, out, f\<lparr>f_pos := pos\<rparr>, mutex_unlock K s)
             }
           | Write i xs \<Rightarrow> do {
               (p, s) \<leftarrow> write_alloc K (word_of_nat (length xs)) s;
               if p = 0 then Some (- ENOMEM, [], f, mutex_unlock K s)
               else do { (r, s) \<leftarrow> write_copy K xs (word_of_nat (length xs)) s; Some (r, [], f, mutex_unlock K s) }
             }
           | Ioctl i cmd arg us \<Rightarrow>
               (case fst (k_copy_seekto K (write_cmd us, write_cmd_offset us)) of
                  (wc, wo) \<Rightarrow> do { (r, f) \<leftarrow> adjust_locked wc wo f s; Some (r, [], f, mutex_unlock K s) })
           | Llseek i off wh \<Rightarrow> do { (r, f) \<leftarrow> llseek_locked K off wh f s; Some (r, [], f, mutex_unlock K s) })
      | Allocated K c \<Rightarrow>
          (case c of
             Write i xs \<Rightarrow> do {
               (r, s) \<leftarrow> write_copy K xs (word_of_nat (length xs)) s;
               Some (r, [], f, mutex_unlock K s)
             }
           | _ \<Rightarrow> None)
      | Unlocking K c r f out \<Rightarrow> Some (r, out, f, mutex_unlock K s)
      | _ \<Rightarrow> None)"

definition on_file :: "nat \<Rightarrow> system \<Rightarrow> struct_file \<Rightarrow> kstate \<Rightarrow> system" where
  "on_file i y f s = y\<lparr>device_state := s, files := (files y)[i := f]\<rparr>"

lemma run_call_alone:
  assumes "file_of c = Some i" "i < length (files y)"
  shows "run_call K c y = map_option (\<lambda>(r, out, f, s). (r, out, on_file i y f s)) (call_alone K c (files y ! i) (device_state y))"
  using assms
  by (cases c)
    (auto simp: run_call_def call_alone_def aesd_fops_def access_simps on_file_def split: Option.bind_split prod.splits option.splits)

lemma alone_early:
  assumes "early_return K c = Some r" "file_of c = Some i"
  shows "call_alone K c f s = Some (r, [], f, s)"
  using assms
  by (cases c) (auto simp: call_alone_def aesd_write_def aesd_ioctl_def Let_def split: if_splits prod.splits)

lemma adjust_parts:
  "aesd_adjust_file_offset K (Some f) wc wo s =
     do {
       device \<leftarrow> deref_device f s;
       let (interrupted, l) = k_mutex_lock_interruptible K (lock device);
       if interrupted \<noteq> 0 then Some (- ERESTARTSYS, f, s)
       else do { (r, f) \<leftarrow> adjust_locked wc wo f (set_lock l s); Some (r, f, mutex_unlock K (set_lock l s)) }
     }"
  by (auto simp: aesd_adjust_file_offset_def adjust_locked_def Let_def split: prod.splits Option.bind_split)

lemma llseek_parts:
  "aesd_llseek K (Some f) off wh s =
     do {
       device \<leftarrow> deref_device f s;
       let (interrupted, l) = k_mutex_lock_interruptible K (lock device);
       if interrupted \<noteq> 0 then Some (- ERESTARTSYS, f, s)
       else do { (r, f) \<leftarrow> llseek_locked K off wh f (set_lock l s); Some (r, f, mutex_unlock K (set_lock l s)) }
     }"
  by (auto simp: aesd_llseek_def llseek_locked_def Let_def split: prod.splits Option.bind_split)

lemma ioctl_parts:
  assumes "early_return K (Ioctl i cmd arg us) = None"
  shows "aesd_ioctl K (Some f) cmd arg us s =
    (case fst (k_copy_seekto K (write_cmd us, write_cmd_offset us)) of
       (wc, wo) \<Rightarrow> do { (r, f, s) \<leftarrow> aesd_adjust_file_offset K (Some f) wc wo s; Some (r, Some f, s) })"
  using assms by (auto simp: aesd_ioctl_def Let_def split: if_splits prod.splits)

lemma alone_interrupted:
  assumes "early_return K c = None" "private_data f = AesdDevice" "k_mutex_lock_interruptible K (lock (aesd_device s)) = (n, l)" "n \<noteq> 0"
  shows "call_alone K c f s = Some (- ERESTARTSYS, [], f, s)"
proof (cases c)
  case (Ioctl i cmd arg us)
  then show ?thesis
    using assms ioctl_parts [of K i cmd arg us f s] by (auto simp: call_alone_def adjust_parts deref_device_def split: prod.splits)
qed (use assms in \<open>auto simp: call_alone_def aesd_read_def aesd_write_def llseek_parts deref_device_def split: if_splits\<close>)

lemma alone_locked:
  assumes "early_return K c = None" "private_data f = AesdDevice" "k_mutex_lock_interruptible K (lock (aesd_device s)) = (0, l)"
  shows "call_alone K c f s = rest_of_call f (Locked K c) (set_lock l s)"
proof (cases c)
  case (Ioctl i cmd arg us)
  then show ?thesis
    using assms ioctl_parts [of K i cmd arg us f s]
    by (auto simp: call_alone_def rest_of_call_def adjust_parts deref_device_def split: prod.splits Option.bind_split)
qed (use assms in \<open>auto simp: call_alone_def rest_of_call_def aesd_read_def aesd_write_def llseek_parts deref_device_def
      split: if_splits prod.splits Option.bind_split\<close>)

section \<open>Steps under the mutex\<close>

definition holds :: "phase \<Rightarrow> bool" where
  "holds ph = (case ph of Locked K c \<Rightarrow> True | Allocated K c \<Rightarrow> True | Unlocking K c r f out \<Rightarrow> True | _ \<Rightarrow> False)"

lemma holds_simps [simp]:
  "\<not> holds Idle" "\<not> holds (Entered K c)" "\<not> holds (Waiting K c)" "holds (Locked K c)" "holds (Allocated K c)"
  "holds (Unlocking K c r f out)"
  by (simp_all add: holds_def)

fun call_of :: "phase \<Rightarrow> (kenv \<times> call) option" where
  "call_of Idle = None"
| "call_of (Entered K c) = Some (K, c)"
| "call_of (Waiting K c) = Some (K, c)"
| "call_of (Locked K c) = Some (K, c)"
| "call_of (Allocated K c) = Some (K, c)"
| "call_of (Unlocking K c r f out) = Some (K, c)"

text \<open>How many steps of its own a process has at most before its call returns.\<close>

fun steps_left :: "phase \<Rightarrow> nat" where
  "steps_left Idle = 0"
| "steps_left (Entered K c) = 5"
| "steps_left (Waiting K c) = 4"
| "steps_left (Locked K c) = 3"
| "steps_left (Allocated K c) = 2"
| "steps_left (Unlocking K c r f out) = 1"

lemma write_keeps_lock:
  "write_alloc K n s = Some (p, s') \<Longrightarrow> lock (aesd_device s') = lock (aesd_device s)"
  "write_copy K xs n s = Some (r, s') \<Longrightarrow> lock (aesd_device s') = lock (aesd_device s)"
  by (auto simp: write_alloc_def write_copy_def Let_def bind_eq_Some_conv split: if_splits prod.splits)

text \<open>A step of the process that has the mutex.\<close>

lemma holder_moves:
  assumes "holds ph" "rest_of_call f ph s = Some (r, out, f', s')"
  shows "(\<exists>ph2 s2. phase_step f ph s = Some (Moves ph2 s2) \<and> holds ph2 \<and> call_of ph2 = call_of ph \<and> steps_left ph2 < steps_left ph \<and>
      (\<forall>K c. ph2 = Allocated K c \<longrightarrow> \<not> reads_past_slots K c) \<and>
      rest_of_call f ph2 s2 = rest_of_call f ph s \<and> lock (aesd_device s2) = lock (aesd_device s)) \<or>
    (\<exists>K c. ph = Unlocking K c r f' out \<and> phase_step f ph s = Some (Returns c r f' out s'))"
proof (cases ph)
  case (Locked K c)
  show ?thesis
  proof (cases c)
    case (Write i xs)
    then obtain p s2 where p: "write_alloc K (word_of_nat (length xs)) s = Some (p, s2)"
      using assms(2) Locked by (auto simp: rest_of_call_def bind_eq_Some_conv)
    show ?thesis
      by (cases "p = 0") (use p Locked Write write_keeps_lock(1) [OF p] in \<open>simp_all add: phase_step_def rest_of_call_def\<close>)
  qed (use assms Locked in \<open>auto simp: phase_step_def rest_of_call_def bind_eq_Some_conv split: prod.splits\<close>)
next
  case (Allocated K c)
  show ?thesis
    by (cases c) (use assms Allocated in \<open>auto simp: phase_step_def rest_of_call_def bind_eq_Some_conv write_keeps_lock(2)\<close>)
qed (use assms in \<open>auto simp: phase_step_def rest_of_call_def\<close>)

section \<open>Preempted calls simulate whole calls\<close>

definition fits :: "system \<Rightarrow> nat \<Rightarrow> kenv \<Rightarrow> call \<Rightarrow> bool" where
  "fits y i K c \<longleftrightarrow> env_ok K \<and> file_of c = Some i \<and> call_ok c y"

definition phase_ok :: "system \<Rightarrow> nat \<Rightarrow> struct_file \<Rightarrow> phase \<Rightarrow> kstate \<Rightarrow> bool" where
  "phase_ok y i f ph s \<longleftrightarrow>
     (case call_of ph of
        None \<Rightarrow> True
      | Some (K, c) \<Rightarrow> fits y i K c \<and> (ph \<noteq> Entered K c \<longrightarrow> early_return K c = None) \<and>
          (ph = Allocated K c \<longrightarrow> \<not> reads_past_slots K c) \<and>
          (holds ph \<longrightarrow> rest_of_call f ph s = call_alone K c f (device_state y)))"

text \<open>The state \<open>y\<close> between whole calls that belongs to a state of the machine: while a process has the mutex,
  it is the one before its call.\<close>

definition simulates :: "machine \<Rightarrow> system \<Rightarrow> bool" where
  "simulates m y \<longleftrightarrow> files y = map p_file (processes m) \<and>
     (\<forall>i < length (processes m). phase_ok y i (p_file (processes m ! i)) (p_phase (processes m ! i)) (device m)) \<and>
     (\<forall>i < length (processes m). \<forall>j < length (processes m).
        holds (p_phase (processes m ! i)) \<and> holds (p_phase (processes m ! j)) \<longrightarrow> i = j) \<and>
     (lock (aesd_device (device m)) \<longleftrightarrow> (\<exists>i < length (processes m). holds (p_phase (processes m ! i)))) \<and>
     (\<not> lock (aesd_device (device m)) \<longrightarrow> device m = device_state y)"

lemma call_ok_more: "call_ok c y \<Longrightarrow> length (files y) \<le> length (files y') \<Longrightarrow> call_ok c y'"
  by (cases c) auto

lemma phase_ok_frame:
  assumes "phase_ok y i f ph s" "length (files y) \<le> length (files y')" "holds ph \<Longrightarrow> s' = s \<and> device_state y' = device_state y"
  shows "phase_ok y' i f ph s'"
  using assms call_ok_more by (auto simp: phase_ok_def fits_def split: option.splits)

lemma phase_ok_fits:
  assumes "phase_ok y i f ph s" "call_of ph = Some (K, c)"
  shows "env_ok K" "file_of c = Some i" "call_ok c y" "ph \<noteq> Entered K c \<Longrightarrow> early_return K c = None"
    "ph = Allocated K c \<Longrightarrow> \<not> reads_past_slots K c"
    "holds ph \<Longrightarrow> rest_of_call f ph s = call_alone K c f (device_state y)"
  using assms by (auto simp: phase_ok_def fits_def)

text \<open>Replacing one process.\<close>

lemma simulates_update:
  assumes sim: "simulates m y" and i: "i < length (processes m)"
    and p': "phase_ok y' i (p_file p') (p_phase p') s'"
    and y': "files y' = (files y)[i := p_file p']"
    and others: "\<And>j. j < length (processes m) \<Longrightarrow> j \<noteq> i \<Longrightarrow> holds (p_phase (processes m ! j)) \<Longrightarrow>
      \<not> holds (p_phase p') \<and> s' = device m \<and> device_state y' = device_state y"
    and lock: "lock (aesd_device s') \<longleftrightarrow> holds (p_phase p') \<or>
      (\<exists>j < length (processes m). j \<noteq> i \<and> holds (p_phase (processes m ! j)))"
    and same: "\<not> lock (aesd_device s') \<Longrightarrow> s' = device_state y'"
  shows "simulates \<lparr>device = s', processes = (processes m)[i := p']\<rparr> y'"
proof -
  let ?P = "(processes m)[i := p']"
  have "phase_ok y' j (p_file (?P ! j)) (p_phase (?P ! j)) s'" if "j < length (processes m)" for j
  proof (cases "j = i")
    case False
    then have "phase_ok y j (p_file (processes m ! j)) (p_phase (processes m ! j)) (device m)"
      using sim that by (simp add: simulates_def)
    then have "phase_ok y' j (p_file (processes m ! j)) (p_phase (processes m ! j)) s'"
      by (rule phase_ok_frame) (use y' others [OF that False] in simp_all)
    then show ?thesis using False by simp
  qed (use p' i in simp)
  moreover have "j = k" if "j < length (processes m)" "k < length (processes m)"
    "holds (p_phase (?P ! j))" "holds (p_phase (?P ! k))" for j k
    using that sim others i by (cases "j = i"; cases "k = i") (auto simp: simulates_def)
  moreover have "(\<exists>j < length (processes m). holds (p_phase (?P ! j))) \<longleftrightarrow> lock (aesd_device s')"
    using lock i by (auto simp: nth_list_update)
  ultimately show ?thesis
    using sim y' same by (auto simp: simulates_def map_update)
qed

lemma simulates_outside:
  assumes sim: "simulates m y" and i: "i < length (processes m)"
    and out: "\<not> holds (p_phase (processes m ! i))" "\<not> holds (p_phase p')"
    and p': "p_file p' = p_file (processes m ! i)" "phase_ok y i (p_file p') (p_phase p') (device m)"
  shows "simulates \<lparr>device = device m, processes = (processes m)[i := p']\<rparr> y"
proof (rule simulates_update [OF sim i p'(2)])
  show "files y = (files y)[i := p_file p']"
    using sim i p'(1) list_update_id [of "files y" i] by (simp add: simulates_def)
  have "lock (aesd_device (device m)) \<longleftrightarrow> (\<exists>j < length (processes m). holds (p_phase (processes m ! j)))"
    using sim by (simp add: simulates_def)
  then show "lock (aesd_device (device m)) \<longleftrightarrow> holds (p_phase p') \<or>
      (\<exists>j < length (processes m). j \<noteq> i \<and> holds (p_phase (processes m ! j)))"
    using out by metis
qed (use sim out in \<open>simp_all add: simulates_def\<close>)

text \<open>A call of the machine's process is a call of the system.\<close>

lemma simulates_call:
  assumes "history log y" "simulates m y" "i < length (processes m)" "env_ok K" "file_of c = Some i" "call_ok c y"
    and "call_alone K c (p_file (processes m ! i)) (device_state y) = Some (r, out, f, s)"
  shows "history (log @ [(c, r, out)]) (on_file i y f s)"
proof -
  have "i < length (files y)" "files y ! i = p_file (processes m ! i)" using assms(2,3) by (simp_all add: simulates_def)
  then have "run_call K c y = Some (r, out, on_file i y f s)" using run_call_alone [OF assms(5)] assms(7) by simp
  then show ?thesis using assms(1,4,6) by (blast intro: history.next_call step.call)
qed

lemma alone_defined:
  assumes "system_inv y" "phase_ok y i f ph s" "call_of ph = Some (K, c)" "i < length (files y)" "files y ! i = f"
    "\<not> reads_past_slots K c"
  obtains r out f' s' where "call_alone K c f (device_state y) = Some (r, out, f', s')"
    "system_inv (on_file i y f' s')"
proof -
  note facts = phase_ok_fits [OF assms(2,3)]
  obtain r out y' where "run_call K c y = Some (r, out, y')" "system_inv y'"
    by (rule run_call_defined [OF facts(1) assms(1) facts(3) assms(6)])
  then show thesis using that run_call_alone [OF facts(2) assms(4), of K] assms(5) by auto
qed

lemma alone_undefined:
  assumes "system_inv y" "phase_ok y i f ph s" "call_of ph = Some (K, c)" "i < length (files y)" "files y ! i = f"
    "reads_past_slots K c" "holds ph"
  shows "rest_of_call f ph s = None" "ph = Locked K c"
proof -
  note facts = phase_ok_fits [OF assms(2,3)]
  have "run_call K c y = None"
    by (rule run_call_undefined [OF facts(1) assms(1) facts(3) assms(6)])
  then show r: "rest_of_call f ph s = None"
    using run_call_alone [OF facts(2) assms(4), of K] assms(5) facts(6) [OF assms(7)] by simp
  show "ph = Locked K c"
    using r assms(3,6,7) facts(5) by (cases ph) (auto simp: rest_of_call_def)
qed

text \<open>The step under the mutex of a call that reads behind the slots is the undefined one.\<close>

lemma undefined_step:
  assumes "rest_of_call f (Locked K c) s = None" "reads_past_slots K c"
  shows "phase_step f (Locked K c) s = None"
  using assms by (cases c) (auto simp: rest_of_call_def phase_step_def split: prod.splits Option.bind_split)

lemma on_file_same: "i < length (files y) \<Longrightarrow> files y ! i = f \<Longrightarrow> on_file i y f (device_state y) = y"
  by (auto simp: on_file_def)

text \<open>What one process can do next.\<close>

lemma process_cases:
  assumes sim: "simulates m y" and inv: "system_inv y" and i: "i < length (processes m)"
    and f: "f = p_file (processes m ! i)" and ph: "ph = p_phase (processes m ! i)"
  obtains (idle) "ph = Idle" "phase_step f ph (device m) = Some Stays"
  | (early) K c r where "ph = Entered K c" "early_return K c = Some r" "phase_step f ph (device m) = Some (Returns c r f [] (device m))"
  | (entered) K c where "ph = Entered K c" "early_return K c = None" "phase_step f ph (device m) = Some (Moves (Waiting K c) (device m))"
  | (interrupted) K c where "ph = Waiting K c" "fst (k_mutex_lock_interruptible K (lock (aesd_device (device m)))) \<noteq> 0"
      "phase_step f ph (device m) = Some (Returns c (- ERESTARTSYS) f [] (device m))"
  | (blocked) K c where "ph = Waiting K c" "lock (aesd_device (device m))" "phase_step f ph (device m) = Some Blocked"
  | (locks) K c where "ph = Waiting K c" "\<not> lock (aesd_device (device m))" "k_mutex_lock_interruptible K False = (0, True)"
      "phase_step f ph (device m) = Some (Moves (Locked K c) (set_lock True (device m)))"
  | (inside) ph2 s2 where "holds ph" "phase_step f ph (device m) = Some (Moves ph2 s2)" "holds ph2" "call_of ph2 = call_of ph"
      "steps_left ph2 < steps_left ph" "\<forall>K c. ph2 = Allocated K c \<longrightarrow> \<not> reads_past_slots K c"
      "rest_of_call f ph2 s2 = rest_of_call f ph (device m)"
      "lock (aesd_device s2) = lock (aesd_device (device m))"
  | (unlocks) K c r f' out s' where "ph = Unlocking K c r f' out" "rest_of_call f ph (device m) = Some (r, out, f', s')"
      "phase_step f ph (device m) = Some (Returns c r f' out s')"
  | (past_slots) K c where "ph = Locked K c" "reads_past_slots K c" "phase_step f ph (device m) = None"
proof -
  have ok: "phase_ok y i f ph (device m)" using sim i f ph by (simp add: simulates_def)
  have fi: "i < length (files y)" "files y ! i = f" using sim i f by (simp_all add: simulates_def)
  have dev: "private_data f = AesdDevice" using inv fi by (auto simp: system_inv_def)
  show thesis
  proof (cases "holds ph")
    case True
    then obtain K c where call: "call_of ph = Some (K, c)" by (cases ph) auto
    show thesis
    proof (cases "reads_past_slots K c")
      case past: True
      note undefined = alone_undefined [OF inv ok call fi past True]
      then show thesis using past_slots past undefined_step [of f K c "device m"] by blast
    next
      case False
      obtain r out f' s' where "call_alone K c f (device_state y) = Some (r, out, f', s')"
        by (rule alone_defined [OF inv ok call fi False])
      then have rest: "rest_of_call f ph (device m) = Some (r, out, f', s')" using phase_ok_fits(6) [OF ok call True] by simp
      from holder_moves [OF True this] show thesis using inside unlocks rest True by blast
    qed
  next
    case False
    then consider "ph = Idle" | K c where "ph = Entered K c" | K c where "ph = Waiting K c" by (cases ph) auto
    then show thesis
    proof cases
      case 1
      then show thesis using idle by (simp add: phase_step_def)
    next
      case (2 K c)
      then show thesis by (cases "early_return K c") (use early entered in \<open>auto simp: phase_step_def\<close>)
    next
      case (3 K c)
      have lk: "lock_ok K" using phase_ok_fits(1) [OF ok, of K c] 3 by (simp add: env_ok_def kernel_ok_def)
      obtain n l where n: "k_mutex_lock_interruptible K (lock (aesd_device (device m))) = (n, l)"
        by (cases "k_mutex_lock_interruptible K (lock (aesd_device (device m)))")
      then show thesis
        using 3 dev interrupted [of K c] blocked [of K c] locks [of K c] lock_okD(1) [OF lk n]
        by (cases "n = 0"; cases "lock (aesd_device (device m))") (auto simp: phase_step_def deref_device_def)
    qed
  qed
qed

lemma move_simulated:
  assumes sim: "simulates m y" and inv: "system_inv y" and i: "i < length (processes m)" and p: "p = processes m ! i"
    and step: "phase_step (p_file p) (p_phase p) (device m) = Some (Moves ph s)"
  shows "simulates \<lparr>device = s, processes = (processes m)[i := p\<lparr>p_phase := ph\<rparr>]\<rparr> y \<and> steps_left ph < steps_left (p_phase p)"
proof -
  have ok: "phase_ok y i (p_file p) (p_phase p) (device m)" using sim i p by (simp add: simulates_def)
  have at: "i < length (files y)" "files y ! i = p_file p" using sim i p by (simp_all add: simulates_def)
  then have fi: "files y = (files y)[i := p_file (p\<lparr>p_phase := ph\<rparr>)]" using list_update_id [of "files y" i] by simp
  have dev: "private_data (p_file p) = AesdDevice" using inv nth_mem [OF at(1)] at(2) by (simp add: system_inv_def)
  have unlocked: "\<not> lock (aesd_device (device_state y))" using inv by (simp add: system_inv_def dev_inv_def)
  have only: "\<not> holds (p_phase (processes m ! j))" if "holds (p_phase p)" "j < length (processes m)" "j \<noteq> i" for j
    using sim that i p by (auto simp: simulates_def)
  have lock: "lock (aesd_device (device m)) \<longleftrightarrow> (\<exists>j < length (processes m). holds (p_phase (processes m ! j)))"
    "\<not> lock (aesd_device (device m)) \<Longrightarrow> device m = device_state y"
    using sim by (auto simp: simulates_def)
  show ?thesis
  proof (rule process_cases [OF sim inv i arg_cong [OF p, of p_file] arg_cong [OF p, of p_phase]])
    fix K c
    assume a: "p_phase p = Entered K c" "early_return K c = None"
      "phase_step (p_file p) (p_phase p) (device m) = Some (Moves (Waiting K c) (device m))"
    then have m: "ph = Waiting K c" "s = device m" using step by simp_all
    have "phase_ok y i (p_file p) ph s" using ok a(1,2) m by (simp add: phase_ok_def)
    then show ?thesis
      using simulates_outside [OF sim i, of "p\<lparr>p_phase := ph\<rparr>"] m a(1) p by simp
  next
    fix K c
    assume a: "p_phase p = Waiting K c" "\<not> lock (aesd_device (device m))" "k_mutex_lock_interruptible K False = (0, True)"
      "phase_step (p_file p) (p_phase p) (device m) = Some (Moves (Locked K c) (set_lock True (device m)))"
    then have m: "ph = Locked K c" "s = set_lock True (device m)" using step by simp_all
    have "call_alone K c (p_file p) (device_state y) = rest_of_call (p_file p) (Locked K c) (set_lock True (device_state y))"
      by (rule alone_locked) (use ok a dev unlocked in \<open>auto simp: phase_ok_def\<close>)
    then have "phase_ok y i (p_file p) ph s"
      using ok a(1) m lock(2) [OF a(2)] by (simp add: phase_ok_def)
    then show ?thesis
      using simulates_update [OF sim i, of y "p\<lparr>p_phase := ph\<rparr>" s] fi lock m a(1,2) p by (auto simp: set_lock_def)
  next
    fix ph2 s2
    assume a: "holds (p_phase p)" "phase_step (p_file p) (p_phase p) (device m) = Some (Moves ph2 s2)" "holds ph2"
      "call_of ph2 = call_of (p_phase p)" "steps_left ph2 < steps_left (p_phase p)"
      "\<forall>K c. ph2 = Allocated K c \<longrightarrow> \<not> reads_past_slots K c" "rest_of_call (p_file p) ph2 s2 = rest_of_call (p_file p) (p_phase p) (device m)"
      "lock (aesd_device s2) = lock (aesd_device (device m))"
    then have m: "ph = ph2" "s = s2" using step by simp_all
    obtain K c where call: "call_of (p_phase p) = Some (K, c)" using a(1) by (cases "p_phase p") auto
    have "p_phase p \<noteq> Entered K c" using a(1) by auto
    then have "phase_ok y i (p_file p) ph s"
      using phase_ok_fits [OF ok call] a call m by (simp add: phase_ok_def fits_def)
    moreover have "lock (aesd_device s)" using lock(1) a(1,8) i p m by auto
    ultimately show ?thesis
      using simulates_update [OF sim i, of y "p\<lparr>p_phase := ph\<rparr>" s] fi only a m by auto
  qed (use step in simp_all)
qed

text \<open>A lock attempt that is interrupted while another process has the mutex is, for the caller, one that is
  interrupted at once.\<close>

definition interrupting :: "kenv \<Rightarrow> i32 \<Rightarrow> kenv" where
  "interrupting K n = K\<lparr>k_mutex_lock_interruptible := (\<lambda>l. (n, l))\<rparr>"

lemma interrupting:
  assumes "n \<noteq> 0"
  shows "env_ok K \<Longrightarrow> env_ok (interrupting K n)" "early_return (interrupting K n) c = early_return K c"
    "early_return K c = None \<Longrightarrow> private_data f = AesdDevice \<Longrightarrow>
      call_alone (interrupting K n) c f s = Some (- ERESTARTSYS, [], f, s)"
proof -
  show e: "early_return (interrupting K n) c = early_return K c"
    by (cases c) (simp_all add: interrupting_def AESDCHAR_IOCSEEKTO_def)
  show "env_ok K \<Longrightarrow> env_ok (interrupting K n)"
    using assms by (simp add: env_ok_def kernel_ok_def lock_ok_def alloc_ok_def copy_ok_def ioc_ok_def llseek_ok_def
        interrupting_def AESDCHAR_IOCSEEKTO_def)
  assume "early_return K c = None" "private_data f = AesdDevice"
  then show "call_alone (interrupting K n) c f s = Some (- ERESTARTSYS, [], f, s)"
    using alone_interrupted [of "interrupting K n" c f s n] e assms by (simp add: interrupting_def)
qed

lemma return_simulated:
  assumes hist: "history log y" and sim: "simulates m y" and inv: "system_inv y" and i: "i < length (processes m)"
    and p: "p = processes m ! i" and step: "phase_step (p_file p) (p_phase p) (device m) = Some (Returns c r f out s)"
  shows "\<exists>y'. history (log @ [(c, r, out)]) y' \<and>
    simulates \<lparr>device = s, processes = (processes m)[i := \<lparr>p_file = f, p_phase = Idle\<rparr>]\<rparr> y'"
proof -
  have ok: "phase_ok y i (p_file p) (p_phase p) (device m)" using sim i p by (simp add: simulates_def)
  have at: "i < length (files y)" "files y ! i = p_file p" using sim i p by (simp_all add: simulates_def)
  have dev: "private_data (p_file p) = AesdDevice" using inv nth_mem [OF at(1)] at(2) by (simp add: system_inv_def)
  have only: "\<not> holds (p_phase (processes m ! j))" if "holds (p_phase p)" "j < length (processes m)" "j \<noteq> i" for j
    using sim that i p by (auto simp: simulates_def)
  note here = on_file_same [OF at]
  have unchanged: ?thesis
    if "\<not> holds (p_phase p)" "f = p_file p" "s = device m" "history (log @ [(c, r, out)]) y"
    using simulates_outside [OF sim i, of "\<lparr>p_file = f, p_phase = Idle\<rparr>"] that p by (auto simp: phase_ok_def)
  note call = simulates_call [OF hist sim i, folded p]
  show ?thesis
  proof (rule process_cases [OF sim inv i arg_cong [OF p, of p_file] arg_cong [OF p, of p_phase]])
    fix K c2 r2
    assume a: "p_phase p = Entered K c2" "early_return K c2 = Some r2"
      "phase_step (p_file p) (p_phase p) (device m) = Some (Returns c2 r2 (p_file p) [] (device m))"
    then have m: "c2 = c" "r2 = r" "f = p_file p" "out = []" "s = device m" using step by simp_all
    note fits = phase_ok_fits(1-3) [OF ok, of K c] a(1) m(1)
    have "history (log @ [(c, r, out)]) (on_file i y f (device_state y))"
      by (rule call [of K]) (use fits alone_early a(2) m in auto)
    then show ?thesis using unchanged a(1) m here by simp
  next
    fix K c2
    assume a: "p_phase p = Waiting K c2" "fst (k_mutex_lock_interruptible K (lock (aesd_device (device m)))) \<noteq> 0"
      "phase_step (p_file p) (p_phase p) (device m) = Some (Returns c2 (- ERESTARTSYS) (p_file p) [] (device m))"
    then have m: "c2 = c" "r = - ERESTARTSYS" "f = p_file p" "out = []" "s = device m" using step by simp_all
    note fits = phase_ok_fits [OF ok, of K c] a(1) m(1)
    have "history (log @ [(c, r, out)]) (on_file i y f (device_state y))"
      by (rule call [OF interrupting(1) [OF a(2)]]) (use fits interrupting(3) [OF a(2)] dev m in auto)
    then show ?thesis using unchanged a(1) m here by simp
  next
    fix K c2 r2 f2 out2 s2
    assume a: "p_phase p = Unlocking K c2 r2 f2 out2" "rest_of_call (p_file p) (p_phase p) (device m) = Some (r2, out2, f2, s2)"
      "phase_step (p_file p) (p_phase p) (device m) = Some (Returns c2 r2 f2 out2 s2)"
    then have m: "c2 = c" "r2 = r" "f2 = f" "out2 = out" "s2 = s" using step by simp_all
    note fits = phase_ok_fits [OF ok, of K c] a(1) m(1)
    let ?y = "on_file i y f s"
    have alone: "call_alone K c (p_file p) (device_state y) = Some (r, out, f, s)" using fits a m by simp
    have h: "history (log @ [(c, r, out)]) ?y" by (rule call [of K]) (use fits alone in auto)
    have "system_inv ?y" using reachable_inv [OF history_reachable [OF h]] .
    then have "\<not> lock (aesd_device s)" by (simp add: on_file_def system_inv_def dev_inv_def)
    then have "simulates \<lparr>device = s, processes = (processes m)[i := \<lparr>p_file = f, p_phase = Idle\<rparr>]\<rparr> ?y"
      using simulates_update [OF sim i, of ?y "\<lparr>p_file = f, p_phase = Idle\<rparr>" s] only a(1)
      by (auto simp: phase_ok_def on_file_def)
    then show ?thesis using h by blast
  qed (use step in simp_all)
qed

lemma preempted_simulates: "preempted m log \<Longrightarrow> \<exists>y. history log y \<and> simulates m y"
proof (induction rule: preempted.induct)
  case start
  have "simulates \<lparr>device = fresh_state, processes = []\<rparr> \<lparr>device_state = fresh_state, files = []\<rparr>"
    by (simp add: simulates_def fresh_state_def)
  then show ?case using history.start by blast
next
  case (opened m log r f)
  then obtain y where y: "history log y" "simulates m y" by blast
  let ?y = "y\<lparr>files := files y @ [f]\<rparr>"
  have "run_call demo_kernel Open y = Some (ucast r, [], ?y)"
    using opened.hyps(2) by (simp add: run_call_def)
  then have "history (log @ [(Open, ucast r, [])]) ?y"
    using y(1) demo_env_ok by (force intro: history.next_call step.call)
  moreover have "simulates (m\<lparr>processes := processes m @ [\<lparr>p_file = f, p_phase = Idle\<rparr>]\<rparr>) ?y"
    using y(2) phase_ok_frame [of y _ _ _ "device m" ?y "device m"]
    by (auto simp: simulates_def nth_append less_Suc_eq phase_ok_def [of _ "length _"])
  ultimately show ?case by blast
next
  case (called m log K i c)
  then obtain y where y: "history log y" "simulates m y" by blast
  let ?p = "(processes m ! i)\<lparr>p_phase := Entered K c\<rparr>"
  have "call_ok c y"
    using called.hyps(6) y(2) by (intro call_ok_more [OF called.hyps(6)]) (simp add: simulates_def)
  then have "phase_ok y i (p_file ?p) (p_phase ?p) (device m)"
    using called.hyps by (simp add: phase_ok_def fits_def)
  then have "simulates \<lparr>device = device m, processes = (processes m)[i := ?p]\<rparr> y"
    using simulates_outside [OF y(2) called.hyps(3), of ?p] called.hyps(4) by simp
  then have "simulates (m\<lparr>processes := (processes m)[i := ?p]\<rparr>) y" by (cases m) simp
  then show ?case using y(1) by blast
next
  case (moved m log i p ph s)
  then obtain y where y: "history log y" "simulates m y" by blast
  show ?case
    using move_simulated [OF y(2) reachable_inv [OF history_reachable [OF y(1)]] moved.hyps(2-4)] y(1) by blast
next
  case (returned m log i p c r f out s)
  then obtain y where y: "history log y" "simulates m y" by blast
  show ?case
    by (rule return_simulated [OF y reachable_inv [OF history_reachable [OF y(1)]] returned.hyps(2-4)])
qed

section \<open>A write that is preempted\<close>

text \<open>Two processes have the device open; the first is inside a write and has the mutex.\<close>

abbreviation hello_call :: call where
  "hello_call \<equiv> Write 0 [104, 105, 10]"

abbreviation two_processes :: "kstate \<Rightarrow> phase \<Rightarrow> phase \<Rightarrow> machine" where
  "two_processes s ph0 ph1 \<equiv> \<lparr>device = s, processes = [\<lparr>p_file = some_file, p_phase = ph0\<rparr>, \<lparr>p_file = some_file, p_phase = ph1\<rparr>]\<rparr>"

lemma demo_preempted:
  "preempted (two_processes (set_lock True fresh_state) (Locked demo_kernel hello_call) (Waiting demo_kernel (Read 1 8)))
    [(Open, 0, []), (Open, 0, [])]"
proof -
  have opens: "op_open aesd_fops \<lparr>i_cdev = AesdDevice\<rparr> \<lparr>f_pos = 0, private_data = NoDevice\<rparr> = (0, some_file)"
    by (simp add: aesd_fops_def aesd_open_def)
  have "preempted \<lparr>device = fresh_state, processes = [\<lparr>p_file = some_file, p_phase = Idle\<rparr>]\<rparr> [(Open, 0, [])]"
    using preempted.opened [OF preempted.start opens] by simp
  from preempted.opened [OF this opens]
  have "preempted (two_processes fresh_state Idle Idle) [(Open, 0, []), (Open, 0, [])]" by simp
  from preempted.called [OF this demo_env_ok, of 0 hello_call]
  have "preempted (two_processes fresh_state (Entered demo_kernel hello_call) Idle) [(Open, 0, []), (Open, 0, [])]" by simp
  from preempted.called [OF this demo_env_ok, of 1 "Read 1 8"]
  have "preempted (two_processes fresh_state (Entered demo_kernel hello_call) (Entered demo_kernel (Read 1 8))) [(Open, 0, []), (Open, 0, [])]"
    by simp
  from preempted.moved [OF this, of 0, OF _ refl]
  have "preempted (two_processes fresh_state (Waiting demo_kernel hello_call) (Entered demo_kernel (Read 1 8))) [(Open, 0, []), (Open, 0, [])]"
    by (simp add: phase_step_def)
  from preempted.moved [OF this, of 1, OF _ refl]
  have "preempted (two_processes fresh_state (Waiting demo_kernel hello_call) (Waiting demo_kernel (Read 1 8))) [(Open, 0, []), (Open, 0, [])]"
    by (simp add: phase_step_def)
  from preempted.moved [OF this, of 0, OF _ refl] show ?thesis
    by (simp add: phase_step_def deref_device_def demo_kernel_simps fresh_state_def)
qed

section \<open>Properties\<close>

text \<open>C3. Calls of the driver are atomic although they are preempted. However the steps of any number of processes
  interleave, at most one is between taking and releasing the mutex, and the completed calls, with the results
  and the bytes each of them returned, are those of a run that makes the same calls whole, one after the other, in
  the order of their returns; while the mutex is free the device is in the state of that run, and the
  position of every file always is.\<close>

theorem preempted_calls_are_atomic:
  assumes "preempted m log"
  shows "(\<exists>y. history log y \<and> files y = map p_file (processes m) \<and> (\<not> lock (aesd_device (device m)) \<longrightarrow> device_state y = device m)) \<and>
    (\<forall>i < length (processes m). \<forall>j < length (processes m).
      holds (p_phase (processes m ! i)) \<and> holds (p_phase (processes m ! j)) \<longrightarrow> i = j)"
proof -
  obtain y where "history log y" "simulates m y" using preempted_simulates [OF assms] by blast
  then show ?thesis unfolding simulates_def by metis
qed

theorem preempted_calls_are_atomic_witness:
  "\<exists>y. history [(Open, 0, []), (Open, 0, [])] y \<and> files y = [some_file, some_file]"
  using preempted_calls_are_atomic [OF demo_preempted] by auto

text \<open>C20. Every call returns, but a seek to command ten. The next step of a process inside the driver is undefined
  exactly when the process has the mutex for a seek to command ten (there the array of slots is read past its
  end). Every other process inside the driver has a next step; it waits only while another process has the mutex,
  and every other step brings its call nearer to its return, so that a call takes at most five
  steps of its own.\<close>

theorem preempted_calls_return:
  assumes "preempted m log" "i < length (processes m)" "p = processes m ! i" "p_phase p \<noteq> Idle"
  shows "steps_left (p_phase p) \<le> 5 \<and>
    (phase_step (p_file p) (p_phase p) (device m) = None \<longleftrightarrow> (\<exists>K c. p_phase p = Locked K c \<and> reads_past_slots K c)) \<and>
    (\<forall>res. phase_step (p_file p) (p_phase p) (device m) = Some res \<longrightarrow> res \<noteq> Stays \<and>
      (res = Blocked \<longrightarrow> \<not> holds (p_phase p) \<and> (\<exists>j < length (processes m). j \<noteq> i \<and> holds (p_phase (processes m ! j)))) \<and>
      (\<forall>ph s. res = Moves ph s \<longrightarrow> steps_left ph < steps_left (p_phase p)))"
proof -
  obtain y where y: "history log y" "simulates m y" using preempted_simulates [OF assms(1)] by blast
  note inv = reachable_inv [OF history_reachable [OF y(1)]]
  have waits: "\<exists>j < length (processes m). j \<noteq> i \<and> holds (p_phase (processes m ! j))"
    if "lock (aesd_device (device m))" "\<not> holds (p_phase p)"
    using y(2) that assms(3) unfolding simulates_def by metis
  have "steps_left (p_phase p) \<le> 5" by (cases "p_phase p") simp_all
  moreover have "phase_step (p_file p) (p_phase p) (device m) = None" if "p_phase p = Locked K c" "reads_past_slots K c" for K c
  proof -
    have ok: "phase_ok y i (p_file p) (p_phase p) (device m)" using y(2) assms(2,3) by (simp add: simulates_def)
    have at: "i < length (files y)" "files y ! i = p_file p" using y(2) assms(2,3) by (simp_all add: simulates_def)
    have "rest_of_call (p_file p) (p_phase p) (device m) = None"
      by (rule alone_undefined(1) [OF inv ok _ at that(2)]) (simp_all add: that(1))
    then show ?thesis using undefined_step that by simp
  qed
  moreover have "(phase_step (p_file p) (p_phase p) (device m) = None \<longrightarrow> (\<exists>K c. p_phase p = Locked K c \<and> reads_past_slots K c)) \<and>
    (\<forall>res. phase_step (p_file p) (p_phase p) (device m) = Some res \<longrightarrow> res \<noteq> Stays \<and>
      (res = Blocked \<longrightarrow> \<not> holds (p_phase p) \<and> lock (aesd_device (device m))))"
    by (rule process_cases [OF y(2) inv assms(2) arg_cong [OF assms(3), of p_file] arg_cong [OF assms(3), of p_phase]])
      (use assms(4) in auto)
  ultimately show ?thesis using waits move_simulated [OF y(2) inv assms(2,3)] by blast
qed

theorem preempted_calls_return_witness:
  "\<exists>res. phase_step some_file (Waiting demo_kernel (Read 1 8)) (set_lock True fresh_state) = Some res \<and> res \<noteq> Stays"
  using preempted_calls_return [OF demo_preempted, of 1] by auto

end
