(* ===== verification/C_Strings.thy ===== *)
theory C_Strings
  imports Aesd_Prelude
begin

text \<open>
  The string and memory functions of the C library that the socket server calls, on blocks whose bytes
  may be indeterminate: reading an indeterminate byte or leaving the block has no defined result. The
  lemmas give their effect on strings, and the round trip of decimal numbers through \<open>strtoul\<close>.
\<close>

section \<open>Blocks and strings\<close>

type_synonym cblock = "byte option list"

definition c_realloc :: "cblock \<Rightarrow> nat \<Rightarrow> cblock" where
  "c_realloc b n = take n b @ replicate (n - length b) None"

text \<open>The string at the start of a block: the bytes before the first zero.\<close>

fun c_string :: "cblock \<Rightarrow> byte list option" where
  "c_string [] = None"
| "c_string (None # b) = None"
| "c_string (Some c # b) = (if c = 0 then Some [] else map_option (\<lambda>s. c # s) (c_string b))"

definition strlen :: "cblock \<Rightarrow> nat option" where
  "strlen b = map_option length (c_string b)"

text \<open>The bytes \<open>strncat\<close> takes from its source, an array whose bytes are all known.\<close>

fun c_take :: "byte list \<Rightarrow> nat \<Rightarrow> byte list option" where
  "c_take src 0 = Some []"
| "c_take [] (Suc n) = None"
| "c_take (c # src) (Suc n) = (if c = 0 then Some [] else map_option (\<lambda>s. c # s) (c_take src n))"

definition strncat :: "cblock \<Rightarrow> byte list \<Rightarrow> nat \<Rightarrow> cblock option" where
  "strncat dst src n =
     do {
       d \<leftarrow> c_string dst;
       xs \<leftarrow> c_take src n;
       if length d + length xs + 1 \<le> length dst
       then Some (map Some (d @ xs @ [0]) @ drop (length d + length xs + 1) dst)
       else None
     }"

text \<open>Whether \<open>strncmp(b, lit, strlen(lit))\<close> is zero, for a literal without a zero byte; the comparison
  stops at the first difference.\<close>

fun strncmp_eq :: "cblock \<Rightarrow> byte list \<Rightarrow> bool option" where
  "strncmp_eq b [] = Some True"
| "strncmp_eq [] (y # ys) = None"
| "strncmp_eq (None # b) (y # ys) = None"
| "strncmp_eq (Some x # b) (y # ys) = (if x = y then strncmp_eq b ys else Some False)"

text \<open>\<open>strtok\<close> with one delimiter on the remaining string: the token and what is left behind the
  delimiter, or NULL when only delimiters are left.\<close>

definition strtok :: "byte \<Rightarrow> byte list \<Rightarrow> (byte list \<times> byte list) option" where
  "strtok delim s =
     (let s = dropWhile (\<lambda>c. c = delim) s
      in if s = [] then None
         else Some (takeWhile (\<lambda>c. c \<noteq> delim) s, tl (dropWhile (\<lambda>c. c \<noteq> delim) s)))"

definition isspace :: "byte \<Rightarrow> bool" where
  "isspace c \<longleftrightarrow> c = 32 \<or> (9 \<le> c \<and> c \<le> 13)"

definition isdigit :: "byte \<Rightarrow> bool" where
  "isdigit c \<longleftrightarrow> 48 \<le> c \<and> c \<le> 57"

fun digits_value :: "nat \<Rightarrow> byte list \<Rightarrow> nat" where
  "digits_value acc [] = acc"
| "digits_value acc (c # s) = (if isdigit c then digits_value (acc * 10 + unat (c - 48)) s else acc)"

text \<open>\<open>strtoul(s, NULL, 10)\<close>: white space, a sign, digits; too large a number gives \<open>ULONG_MAX\<close>.\<close>

definition strtoul10 :: "byte list \<Rightarrow> u64" where
  "strtoul10 s =
     (let s = dropWhile isspace s;
          neg = (s \<noteq> [] \<and> hd s = 45);
          s = (if s \<noteq> [] \<and> (hd s = 45 \<or> hd s = 43) then tl s else s);
          v = digits_value 0 s
      in if 2 ^ 64 \<le> v then - 1 else if neg then - word_of_nat v else word_of_nat v)"

section \<open>Lemmas on strings\<close>

lemma c_string_known:
  "0 \<notin> set s \<Longrightarrow> c_string (map Some s @ Some 0 # b) = Some s"
  by (induction s) auto

lemma c_string_length: "c_string b = Some s \<Longrightarrow> length s < length b"
proof (induction b arbitrary: s)
  case (Cons c b)
  then show ?case by (cases c) (auto split: if_splits)
qed simp

lemma c_string_split:
  "c_string b = Some s \<Longrightarrow> \<exists>r. b = map Some s @ Some 0 # r \<and> 0 \<notin> set s"
proof (induction b arbitrary: s)
  case (Cons c b)
  then show ?case by (cases c) (auto split: if_splits)
qed simp

text \<open>A block cut inside its string, or grown from there, has no string any more.\<close>

lemma c_string_cut: "0 \<notin> set s \<Longrightarrow> c_string (map Some s @ replicate n None) = None"
proof (induction s)
  case Nil
  then show ?case by (cases n) simp_all
qed auto

lemma c_string_realloc:
  assumes "c_string b = Some s"
  shows "c_string (c_realloc b n) = (if length s < n then Some s else None)"
proof -
  obtain r where b: "b = map Some s @ Some 0 # r" and nz: "0 \<notin> set s"
    using c_string_split [OF assms] by blast
  show ?thesis
  proof (cases "length s < n")
    case True
    then obtain k where "n - length s = Suc k" by (metis Suc_diff_Suc)
    then have "c_realloc b n = map Some s @ Some 0 # (take k r @ replicate (n - length b) None)"
      using True by (simp add: c_realloc_def b)
    then show ?thesis using True nz by (simp add: c_string_known)
  next
    case False
    then have "c_realloc b n = map Some (take n s) @ replicate 0 None"
      by (simp add: c_realloc_def b take_map)
    moreover have "0 \<notin> set (take n s)" using nz by (auto dest: in_set_takeD)
    ultimately show ?thesis using False c_string_cut [of "take n s" 0] by simp
  qed
qed

lemma length_c_realloc [simp]: "length (c_realloc b n) = n"
  by (simp add: c_realloc_def)

lemma c_take_known:
  "0 \<notin> set xs \<Longrightarrow> c_take (xs @ 0 # r) n = Some (take n xs)"
proof (induction xs arbitrary: n)
  case Nil
  then show ?case by (cases n) simp_all
next
  case (Cons x xs)
  then show ?case by (cases n) auto
qed

lemma c_take_over: "0 \<notin> set xs \<Longrightarrow> length xs < n \<Longrightarrow> c_take xs n = None"
proof (induction xs arbitrary: n)
  case Nil
  then show ?case by (cases n) simp_all
next
  case (Cons x xs)
  then show ?case by (cases n) auto
qed

lemma strncat_fits:
  assumes "c_string dst = Some d" "c_take src n = Some xs" "length d + length xs < length dst" "0 \<notin> set xs"
  obtains b where "strncat dst src n = Some b" "c_string b = Some (d @ xs)" "length b = length dst"
proof -
  let ?b = "map Some (d @ xs @ [0]) @ drop (length d + length xs + 1) dst"
  have "0 \<notin> set d" using c_string_split [OF assms(1)] by blast
  then have "0 \<notin> set (d @ xs)" using assms(4) by simp
  then have "c_string ?b = Some (d @ xs)"
    using c_string_known [of "d @ xs" "drop (length d + length xs + 1) dst"] by simp
  then show thesis using that [of ?b] assms by (simp add: strncat_def)
qed

lemma strncat_overflow:
  assumes "c_string dst = Some d" "c_take src n = Some xs" "length dst \<le> length d + length xs"
  shows "strncat dst src n = None"
  using assms by (simp add: strncat_def)

lemma strncmp_eq_string:
  "c_string b = Some s \<Longrightarrow> 0 \<notin> set lit \<Longrightarrow> strncmp_eq b lit = Some (take (length lit) s = lit)"
proof (induction b lit arbitrary: s rule: strncmp_eq.induct)
  case (4 x b y ys)
  then show ?case by (cases "x = 0") auto
qed auto

section \<open>Decimal numbers\<close>

fun print_dec :: "nat \<Rightarrow> byte list" where
  "print_dec n = (if n < 10 then [word_of_nat (48 + n)] else print_dec (n div 10) @ [word_of_nat (48 + n mod 10)])"

declare print_dec.simps [simp del]

lemma digit_byte:
  assumes "d < 10"
  shows "isdigit (word_of_nat (48 + d))" "unat (word_of_nat (48 + d) - 48 :: byte) = d"
proof -
  have u: "unat (word_of_nat (48 + d) :: byte) = 48 + d"
    using assms by (intro unat_of_nat_u8) simp
  show "isdigit (word_of_nat (48 + d))" using u assms by (simp only: isdigit_def word_le_nat_alt) simp
  have "(48 :: byte) \<le> word_of_nat (48 + d)" using u by (simp only: word_le_nat_alt) simp
  then show "unat (word_of_nat (48 + d) - 48 :: byte) = d" using u by (subst unat_sub_if') (simp add: word_le_nat_alt)
qed

lemma digits_value_append:
  "\<forall>c \<in> set xs. isdigit c \<Longrightarrow> digits_value acc (xs @ ys) = digits_value (digits_value acc xs) ys"
  by (induction xs arbitrary: acc) auto

lemma print_dec_digits: "\<forall>c \<in> set (print_dec n). isdigit c"
proof (induction n rule: print_dec.induct)
  case (1 n)
  then show ?case
    by (subst print_dec.simps) (auto simp: digit_byte simp del: of_nat_add)
qed

lemma print_dec_nonempty [simp]: "print_dec n \<noteq> []"
  by (subst print_dec.simps) simp

lemma digits_value_print: "digits_value 0 (print_dec n) = n"
proof (induction n rule: print_dec.induct)
  case (1 n)
  show ?case
  proof (cases "n < 10")
    case True
    then show ?thesis by (subst print_dec.simps) (simp add: digit_byte del: of_nat_add)
  next
    case False
    then show ?thesis
      using 1 print_dec_digits [of "n div 10"]
      by (subst print_dec.simps) (simp add: digits_value_append digit_byte del: of_nat_add)
  qed
qed

lemma isdigit_cases:
  assumes "isdigit c"
  shows "\<not> isspace c" "c \<noteq> 45" "c \<noteq> 43" "c \<noteq> 44" "c \<noteq> 0" "c \<noteq> newline"
  using assms by (auto simp: isdigit_def isspace_def newline_def word_le_nat_alt)

text \<open>A printed number, followed by the end or by anything that is no digit, is read back.\<close>

lemma strtoul10_print:
  assumes "n < 2 ^ 64" "ys = [] \<or> \<not> isdigit (hd ys)"
  shows "strtoul10 (print_dec n @ ys) = word_of_nat n"
proof -
  obtain c cs where p: "print_dec n = c # cs" by (cases "print_dec n") simp_all
  have c: "isdigit c" using print_dec_digits [of n] p by simp
  have "digits_value (digits_value 0 (print_dec n)) ys = digits_value 0 (print_dec n)"
    using assms(2) by (cases ys) simp_all
  then have "digits_value 0 (print_dec n @ ys) = n"
    using print_dec_digits [of n] by (simp add: digits_value_append digits_value_print)
  then show ?thesis
    using isdigit_cases [OF c] assms(1) p by (simp add: strtoul10_def Let_def)
qed

lemma strtok_two_numbers:
  assumes "44 \<notin> set r"
  shows "strtok 44 (print_dec n @ 44 # r) = Some (print_dec n, r)"
proof -
  have digits: "c \<noteq> 44" if "c \<in> set (print_dec n)" for c
    using that print_dec_digits isdigit_cases(4) by blast
  obtain c cs where p: "print_dec n = c # cs" by (cases "print_dec n") simp_all
  have "dropWhile (\<lambda>c. c = 44) (print_dec n @ 44 # r) = print_dec n @ 44 # r"
    using digits [of c] p by simp
  moreover have "takeWhile (\<lambda>c. c \<noteq> 44) (print_dec n @ 44 # r) = print_dec n"
    "dropWhile (\<lambda>c. c \<noteq> 44) (print_dec n @ 44 # r) = 44 # r"
    using digits by (simp_all add: takeWhile_append dropWhile_append)
  ultimately show ?thesis by (simp add: strtok_def)
qed

end
