(* ===== verification/Socket_Thread.thy ===== *)
theory Socket_Thread
  imports C_Strings
begin

text \<open>
  The connection thread of \<^verbatim>\<open>server/aesdsocket.c\<close>: \<open>thread_func\<close> receives one packet, hands it to the
  device as data or as a seek command, reads the device back and sends what it read. The operating
  system's answers (memory, arriving data, the device) are parameters. The result of a thread is a value:
  it finished, it ended the process, or it waits in \<open>recv\<close>; \<open>None\<close> is undefined behaviour, such as
  writing behind an allocated block.
\<close>

section \<open>The program's data\<close>

definition BUFFER_SIZE :: nat where
  "BUFFER_SIZE = 1024"

record thread_data =
  thread_id :: nat
  client_fd :: int
  thread_complete :: bool

text \<open>The descriptors in the global variables; what the program does to the outside, in order.\<close>

record server_globals =
  server_socket :: int
  client_socket :: int

datatype server_event =
    EvSend int "byte list"
  | EvClose int
  | EvShutdown int
  | EvCloselog
  | EvRemove string

definition file_path :: string where
  "file_path = ''/dev/aesdchar''"

definition exit_safely :: "server_globals \<Rightarrow> int \<times> server_event list" where
  "exit_safely g =
     (0, [EvShutdown (server_socket g), EvClose (server_socket g), EvClose (client_socket g), EvCloselog,
          EvRemove file_path])"

section \<open>The device as the thread sees it\<close>

text \<open>One open file: \<open>'d\<close> is the device together with the file position. A negative number is a
  failed call; a read gives the number and the bytes.\<close>

record 'd device_ops =
  d_open :: "'d \<Rightarrow> int \<times> 'd"
  d_ioctl :: "'d \<Rightarrow> u32 \<Rightarrow> u32 \<Rightarrow> (int \<times> 'd) option"
  d_write :: "'d \<Rightarrow> byte list \<Rightarrow> (int \<times> 'd) option"
  d_read :: "'d \<Rightarrow> nat \<Rightarrow> (int \<times> byte list \<times> 'd) option"

section \<open>Receiving a packet\<close>

text \<open>What \<open>recv\<close> answers, call by call; when the list is used up the thread waits.\<close>

datatype recv_result = RecvFailed | RecvClosed | Received "byte list"

datatype recv_outcome = Packet cblock int | RecvExit int | RecvWaiting

text \<open>The search for the newline over the whole array: the final index and whether it was found.\<close>

fun scan_newline :: "byte list \<Rightarrow> nat \<Rightarrow> nat \<times> bool" where
  "scan_newline [] i = (i, False)"
| "scan_newline (c # cs) i = (if c = newline then (i + 1, True) else scan_newline cs (i + 1))"

fun recv_loop ::
  "(nat \<Rightarrow> bool) \<Rightarrow> recv_result list \<Rightarrow> cblock \<Rightarrow> byte list \<Rightarrow> int \<Rightarrow> recv_outcome option" where
  "recv_loop realloc_ok [] buffer buff data_count = Some RecvWaiting"
| "recv_loop realloc_ok (r # rs) buffer buff data_count =
     (case r of
        RecvFailed \<Rightarrow> Some (RecvExit 1)
      | RecvClosed \<Rightarrow> Some (Packet buffer data_count)
      | Received xs \<Rightarrow>
          let buff = xs @ drop (length xs) buff;
              (index, is_packet_complete) = scan_newline buff 0
          in if 2147483647 < data_count + int index then None
             else if \<not> realloc_ok (index + 1) then Some (RecvExit 1)
             else do {
               buffer \<leftarrow> strncat (c_realloc buffer (index + 1)) buff (index + 1);
               if is_packet_complete then Some (Packet buffer (data_count + int index))
               else recv_loop realloc_ok rs buffer (replicate BUFFER_SIZE 0) (data_count + int index)
             })"

section \<open>Handling it\<close>

definition bytes_of :: "string \<Rightarrow> byte list" where
  "bytes_of s = map of_char s"

definition seekto_prefix :: "byte list" where
  "seekto_prefix = bytes_of ''AESDCHAR_IOCSEEKTO:''"

text \<open>The seek branch: two tokens at commas, each read by \<open>strtoul\<close> into an \<open>unsigned int\<close>.\<close>

definition parse_seekto :: "byte list \<Rightarrow> (u32 \<times> u32) option" where
  "parse_seekto s =
     do {
       (token, rest) \<leftarrow> strtok 44 s;
       let write_cmd = ucast (strtoul10 token);
       (token, _) \<leftarrow> strtok 44 rest;
       let write_cmd_offset = ucast (strtoul10 token);
       Some (write_cmd, write_cmd_offset)
     }"

text \<open>The left result ends the process with a status and its last actions.\<close>

definition handle_packet ::
  "'d device_ops \<Rightarrow> server_globals \<Rightarrow> cblock \<Rightarrow> 'd \<Rightarrow> ((int \<times> server_event list) + 'd) option" where
  "handle_packet ops g buffer d =
     do {
       is_command \<leftarrow> strncmp_eq buffer seekto_prefix;
       s \<leftarrow> c_string buffer;
       if is_command then
         (case parse_seekto (drop (length seekto_prefix) s) of
            None \<Rightarrow> Some (Inl (exit_safely g))
          | Some (wc, wo) \<Rightarrow> do {
              (r, d) \<leftarrow> d_ioctl ops d wc wo;
              Some (if r \<noteq> 0 then Inl (exit_safely g) else Inr d)
            })
       else do {
         (r, d) \<leftarrow> d_write ops d s;
         Some (if r = - 1 then Inl (1, []) else Inr d)
       }
     }"

text \<open>The reply loop. The buffer is cleared once, before the loop; a read overwrites its beginning, and
  what is sent is the string in it.\<close>

partial_function (option) send_loop ::
  "('d \<Rightarrow> nat \<Rightarrow> (int \<times> byte list \<times> 'd) option) \<Rightarrow> int \<Rightarrow> byte list \<Rightarrow> server_event list \<Rightarrow> 'd \<Rightarrow>
   (server_event list \<times> 'd) option" where
  "send_loop rd client send_buffer evs d =
     do {
       (read_result, bytes, d) \<leftarrow> rd d BUFFER_SIZE;
       if read_result \<le> 0 then Some (evs, d)
       else do {
         let send_buffer = bytes @ drop (length bytes) send_buffer;
         s \<leftarrow> c_string (map Some send_buffer);
         send_loop rd client send_buffer (evs @ [EvSend client s]) d
       }
     }"

record thread_env =
  malloc_ok :: bool
  realloc_ok :: "nat \<Rightarrow> bool"
  arrivals :: "recv_result list"

datatype 'd thread_outcome =
    ThreadDone thread_data "server_event list" int 'd
  | ProcessExit int "server_event list"
  | ThreadWaiting

definition thread_func ::
  "'d device_ops \<Rightarrow> thread_env \<Rightarrow> server_globals \<Rightarrow> thread_data \<Rightarrow> int \<Rightarrow> 'd \<Rightarrow> 'd thread_outcome option" where
  "thread_func ops E g args data_count d =
     (if \<not> malloc_ok E then Some (ProcessExit 1 [])
      else do {
        got \<leftarrow> recv_loop (realloc_ok E) (arrivals E) (replicate BUFFER_SIZE (Some 0)) (replicate BUFFER_SIZE 0) data_count;
        case got of
          RecvExit status \<Rightarrow> Some (ProcessExit status [])
        | RecvWaiting \<Rightarrow> Some ThreadWaiting
        | Packet buffer data_count \<Rightarrow>
            (let (data_file, d) = d_open ops d
             in if data_file = - 1 then Some (ProcessExit 1 [])
                else do {
                  handled \<leftarrow> handle_packet ops g buffer d;
                  case handled of
                    Inl (status, evs) \<Rightarrow> Some (ProcessExit status evs)
                  | Inr d \<Rightarrow> do {
                      (evs, d) \<leftarrow> send_loop (d_read ops) (client_fd args) (replicate BUFFER_SIZE 0) [] d;
                      Some (ThreadDone (args\<lparr>thread_complete := True\<rparr>)
                        (evs @ [EvClose data_file, EvClose (client_fd args)]) data_count d)
                    }
                })
      })"

section \<open>Receiving: what arrives in the buffer\<close>

lemma scan_newline_found:
  "newline \<notin> set xs \<Longrightarrow> scan_newline (xs @ newline # r) i = (i + length xs + 1, True)"
  by (induction xs arbitrary: i) auto

lemma scan_newline_missing: "newline \<notin> set xs \<Longrightarrow> scan_newline xs i = (i + length xs, False)"
  by (induction xs arbitrary: i) auto

text \<open>A packet in one piece: the buffer then holds exactly the packet.\<close>

lemma recv_whole_packet:
  assumes "0 \<notin> set xs" "newline \<notin> set xs" "length xs < 1023"
    and "data_count + int (length xs) < 2147483647" "ok (length xs + 2)"
  obtains buffer where
    "recv_loop ok (Received (xs @ [newline]) # rs) (replicate BUFFER_SIZE (Some 0)) (replicate BUFFER_SIZE 0) data_count =
       Some (Packet buffer (data_count + int (length xs) + 1))"
    "c_string buffer = Some (xs @ [newline])"
proof -
  let ?buff = "(xs @ [newline]) @ drop (length (xs @ [newline])) (replicate BUFFER_SIZE 0)"
  obtain k where k: "1023 - length xs = Suc k"
    using assms(3) by (cases "1023 - length xs") simp_all
  have buff: "?buff = (xs @ [newline]) @ 0 # replicate k 0"
    by (simp add: BUFFER_SIZE_def k)
  have scan: "scan_newline ?buff 0 = (length xs + 1, True)"
    using scan_newline_found [OF assms(2), of "0 # replicate k 0" 0] by (simp only: buff) simp
  have nz: "0 \<notin> set (xs @ [newline])" using assms(1) by (simp add: newline_def)
  have take: "c_take ?buff (length xs + 2) = Some (xs @ [newline])"
    using c_take_known [OF nz, of "replicate k 0" "length xs + 2"] by (simp only: buff) simp
  have "c_string (replicate BUFFER_SIZE (Some 0)) = Some []"
    by (simp add: BUFFER_SIZE_def numeral_eq_Suc)
  then have empty: "c_string (c_realloc (replicate BUFFER_SIZE (Some 0)) (length xs + 2)) = Some []"
    by (simp add: c_string_realloc)
  obtain b where "strncat (c_realloc (replicate BUFFER_SIZE (Some 0)) (length xs + 2)) ?buff (length xs + 2) = Some b"
    "c_string b = Some (xs @ [newline])"
    by (rule strncat_fits [OF empty take _ nz]) auto
  then show thesis
    using that [of b] assms(4,5) scan by (simp add: Let_def)
qed

lemma c_take_long:
  "0 \<notin> set p \<Longrightarrow> c_take (p @ r) n = Some s \<Longrightarrow> min n (length p) \<le> length s"
proof (induction p arbitrary: n s)
  case (Cons c p)
  then show ?case by (cases n) auto
qed simp

text \<open>One pass of the loop, in terms of the string collected so far.\<close>

lemma partial_scan:
  assumes "0 \<notin> set xs" "newline \<notin> set xs" "length xs < 1024"
  shows "scan_newline (xs @ drop (length xs) (replicate BUFFER_SIZE 0)) 0 = (1024, False)"
    "c_take (xs @ drop (length xs) (replicate BUFFER_SIZE 0)) 1025 = Some xs"
proof -
  let ?buff = "xs @ drop (length xs) (replicate BUFFER_SIZE 0)"
  obtain k where k: "1024 - length xs = Suc k"
    using assms(3) by (cases "1024 - length xs") simp_all
  have buff: "?buff = xs @ 0 # replicate k 0" by (simp add: BUFFER_SIZE_def k)
  have "newline \<notin> set ?buff" using assms(2) by (simp add: newline_def)
  moreover have "length ?buff = 1024" using assms(3) by (simp add: BUFFER_SIZE_def)
  ultimately show "scan_newline ?buff 0 = (1024, False)"
    using scan_newline_missing [of ?buff 0] by simp
  show "c_take ?buff 1025 = Some xs"
    using c_take_known [OF assms(1), of "replicate k 0" 1025] assms(3) by (simp only: buff) simp
qed

lemma recv_pass_fits:
  assumes "c_string buffer = Some d" "0 \<notin> set xs" "newline \<notin> set xs" "length xs < 1024"
    and "length d + length xs < 1025" "data_count + 1024 \<le> 2147483647"
  obtains b where "c_string b = Some (d @ xs)"
    "recv_loop (\<lambda>n. True) (Received xs # rs) buffer (replicate BUFFER_SIZE 0) data_count =
        recv_loop (\<lambda>n. True) rs b (replicate BUFFER_SIZE 0) (data_count + 1024)"
proof -
  note scan = partial_scan [OF assms(2-4)]
  have "c_string (c_realloc buffer 1025) = Some d" using assms(1,5) by (simp add: c_string_realloc)
  then obtain b where "strncat (c_realloc buffer 1025) (xs @ drop (length xs) (replicate BUFFER_SIZE 0)) 1025 = Some b"
    "c_string b = Some (d @ xs)"
    by (rule strncat_fits [OF _ scan(2) _ assms(2)]) (use assms(5) in simp_all)
  then show thesis using that scan(1) assms(6) by (simp add: Let_def)
qed

text \<open>Without room the pass is undefined.\<close>

lemma recv_pass_partial:
  assumes "c_string buffer = Some d" "0 \<notin> set xs" "newline \<notin> set xs" "length xs < 1024"
  shows "(\<exists>b. c_string b = Some (d @ xs) \<and>
      recv_loop (\<lambda>n. True) (Received xs # rs) buffer (replicate BUFFER_SIZE 0) data_count =
        recv_loop (\<lambda>n. True) rs b (replicate BUFFER_SIZE 0) (data_count + 1024)) \<or>
    recv_loop (\<lambda>n. True) (Received xs # rs) buffer (replicate BUFFER_SIZE 0) data_count = None"
proof (cases "length d + length xs < 1025 \<and> data_count + 1024 \<le> 2147483647")
  case True
  then show ?thesis using recv_pass_fits [OF assms, of data_count rs] by metis
next
  case False
  note scan = partial_scan [OF assms(2-4)]
  have "strncat (c_realloc buffer 1025) (xs @ drop (length xs) (replicate BUFFER_SIZE 0)) 1025 = None"
    if "1025 \<le> length d + length xs"
    using that assms(1) scan(2) by (simp add: strncat_def c_string_realloc)
  then show ?thesis using scan(1) False by (auto simp: Let_def)
qed

lemma recv_pass_last:
  assumes "c_string buffer = Some d" "0 \<notin> set ys" "newline \<notin> set ys"
    and "d \<noteq> []"
  shows "recv_loop (\<lambda>n. True) (Received (ys @ newline # zs) # rs) buffer buff data_count = None"
proof -
  let ?buff = "(ys @ newline # zs) @ drop (length (ys @ newline # zs)) buff"
  let ?n = "length ys + 2"
  have scan: "scan_newline ?buff 0 = (length ys + 1, True)"
    using scan_newline_found [OF assms(3), of "zs @ drop (length (ys @ newline # zs)) buff" 0] by simp
  have "strncat (c_realloc buffer ?n) ?buff ?n = None"
  proof (cases "c_take ?buff ?n")
    case (Some s)
    have "0 \<notin> set (ys @ [newline])" using assms(2) by (simp add: newline_def)
    then have "min ?n (length (ys @ [newline])) \<le> length s"
      using c_take_long [of "ys @ [newline]" "zs @ drop (length (ys @ newline # zs)) buff" ?n s] Some by simp
    then have "?n \<le> length d + length s" using assms(4) by (cases d) auto
    then show ?thesis
      using Some assms(1) by (simp add: strncat_def c_string_realloc)
  qed (simp add: strncat_def split: Option.bind_split)
  then show ?thesis using scan by (simp add: Let_def)
qed

lemma recv_split_packet:
  assumes "0 \<notin> set ys" "newline \<notin> set ys"
  shows "\<forall>c \<in> set cs. c \<noteq> [] \<and> length c < 1024 \<and> 0 \<notin> set c \<and> newline \<notin> set c \<Longrightarrow>
    c_string buffer = Some d \<Longrightarrow> d \<noteq> [] \<or> cs \<noteq> [] \<Longrightarrow>
    recv_loop (\<lambda>n. True) (map Received cs @ Received (ys @ newline # zs) # rs) buffer
      (replicate BUFFER_SIZE 0) data_count = None"
proof (induction cs arbitrary: buffer d data_count)
  case Nil
  then show ?case
    using recv_pass_last [OF Nil.prems(2) assms, of zs rs] by (simp del: recv_loop.simps)
next
  case (Cons c cs)
  have c: "c \<noteq> []" "length c < 1024" "0 \<notin> set c" "newline \<notin> set c" using Cons.prems(1) by simp_all
  from recv_pass_partial [OF Cons.prems(2) c(3,4,2), of "map Received cs @ Received (ys @ newline # zs) # rs" data_count]
  show ?case
  proof (elim disjE exE conjE)
    fix b assume b: "c_string b = Some (d @ c)"
      and eq: "recv_loop (\<lambda>n. True) (Received c # map Received cs @ Received (ys @ newline # zs) # rs) buffer
        (replicate BUFFER_SIZE 0) data_count =
       recv_loop (\<lambda>n. True) (map Received cs @ Received (ys @ newline # zs) # rs) b
        (replicate BUFFER_SIZE 0) (data_count + 1024)"
    then show ?case
      using Cons.IH [OF _ b, of "data_count + 1024"] Cons.prems(1) c(1) by (simp del: recv_loop.simps)
  qed (simp del: recv_loop.simps)
qed

lemma empty_buffer: "c_string (replicate BUFFER_SIZE (Some 0)) = Some []"
  by (simp add: BUFFER_SIZE_def numeral_eq_Suc)

text \<open>The receive buffer after the first \<open>recv\<close>, and the number of bytes up to and with the newline.\<close>

definition received_buffer :: "byte list \<Rightarrow> byte list" where
  "received_buffer xs = xs @ replicate (1024 - length xs) 0"

definition newline_index :: "byte list \<Rightarrow> nat" where
  "newline_index b = (if newline \<in> set b then Suc (length (takeWhile (\<lambda>c. c \<noteq> newline) b)) else length b)"

lemma newline_index_le: "newline_index b \<le> length b"
  by (induction b) (auto simp: newline_index_def)

lemma takeWhile_line: "newline \<notin> set ys \<Longrightarrow> takeWhile (\<lambda>c. c \<noteq> newline) (ys @ newline # zs) = ys"
  by (induction ys) auto

lemma scan_newline_index: "scan_newline b i = (i + newline_index b, newline \<in> set b)"
  by (induction b arbitrary: i) (auto simp: newline_index_def)

lemma c_take_zero: "n \<le> length b \<Longrightarrow> 0 \<in> set (take n b) \<Longrightarrow> \<exists>s. c_take b n = Some s \<and> length s < n"
proof (induction b arbitrary: n)
  case (Cons c b)
  then obtain m where n: "n = Suc m" by (cases n) auto
  show ?case
  proof (cases "c = 0")
    case False
    then obtain s where "c_take b m = Some s" "length s < m" using Cons.IH [of m] Cons.prems n by auto
    then show ?thesis using False n by simp
  qed (simp add: n)
qed simp

lemma c_take_no_zero: "n \<le> length b \<Longrightarrow> 0 \<notin> set (take n b) \<Longrightarrow> c_take b n = Some (take n b)"
proof (induction b arbitrary: n)
  case (Cons c b)
  then show ?case by (cases n) auto
qed simp

lemma c_take_whole:
  "0 \<in> set b \<Longrightarrow> \<exists>s. c_take b (Suc (length b)) = Some s \<and> length s < length b"
  "0 \<notin> set b \<Longrightarrow> c_take b (Suc (length b)) = None"
  by (induction b) auto

text \<open>Appending to the empty block of \<open>n + 1\<close> bytes fits exactly when a zero byte comes in time.\<close>

lemma strncat_empty:
  assumes "n \<le> length b"
  shows "strncat (c_realloc (replicate BUFFER_SIZE (Some 0)) (Suc n)) b (Suc n) \<noteq> None \<longleftrightarrow> 0 \<in> set (take (Suc n) b)"
proof -
  have empty: "c_string (c_realloc (replicate BUFFER_SIZE (Some 0)) (Suc n)) = Some []"
    using empty_buffer by (simp add: c_string_realloc)
  show ?thesis
  proof (cases "Suc n \<le> length b")
    case fits: True
    show ?thesis
    proof (cases "0 \<in> set (take (Suc n) b)")
      case True
      then obtain s where "c_take b (Suc n) = Some s" "length s < Suc n" using c_take_zero [OF fits] by blast
      then show ?thesis using True empty by (simp add: strncat_def)
    next
      case False
      then show ?thesis using c_take_no_zero [OF fits False] empty fits by (simp add: strncat_def)
    qed
  next
    case False
    then have "n = length b" using assms by simp
    then show ?thesis using c_take_whole [of b] empty by (cases "0 \<in> set b") (auto simp: strncat_def)
  qed
qed

lemma first_recv_exact:
  assumes "length xs \<le> 1024" "data_count < 2147480000"
  shows "recv_loop (\<lambda>n. True) [Received xs] (replicate BUFFER_SIZE (Some 0)) (replicate BUFFER_SIZE 0) data_count \<noteq> None
    \<longleftrightarrow> 0 \<in> set (take (Suc (newline_index (received_buffer xs))) (received_buffer xs))"
proof -
  let ?b = "received_buffer xs"
  have buff: "xs @ drop (length xs) (replicate BUFFER_SIZE 0) = ?b"
    by (simp add: received_buffer_def BUFFER_SIZE_def)
  have len: "length ?b = 1024" using assms(1) by (simp add: received_buffer_def)
  note idx = newline_index_le [of ?b]
  have "recv_loop (\<lambda>n. True) [Received xs] (replicate BUFFER_SIZE (Some 0)) (replicate BUFFER_SIZE 0) data_count \<noteq> None
    \<longleftrightarrow> strncat (c_realloc (replicate BUFFER_SIZE (Some 0)) (Suc (newline_index ?b))) ?b (Suc (newline_index ?b)) \<noteq> None"
    using idx len assms(2) by (auto simp: buff scan_newline_index Let_def simp del: drop_replicate split: Option.bind_split)
  then show ?thesis using strncat_empty [OF idx] by simp
qed

lemma zero_ahead_iff:
  assumes "0 \<notin> set xs" "length xs \<le> 1024"
  shows "0 \<in> set (take (Suc (newline_index (received_buffer xs))) (received_buffer xs)) \<longleftrightarrow>
    length xs < 1024 \<and> newline \<notin> set (butlast xs)"
proof (cases "newline \<in> set xs")
  case True
  then obtain ys zs where xs: "xs = ys @ newline # zs" "newline \<notin> set ys" by (meson split_list_first)
  have "newline_index (received_buffer xs) = Suc (length ys)"
    using xs takeWhile_line [OF xs(2)] by (simp add: newline_index_def received_buffer_def)
  then have "take (Suc (newline_index (received_buffer xs))) (received_buffer xs) =
      ys @ newline # take 1 (zs @ replicate (1024 - length xs) 0)"
    using xs(1) by (simp add: received_buffer_def)
  moreover have "0 \<in> set (take 1 (zs @ replicate (1024 - length xs) 0)) \<longleftrightarrow> zs = [] \<and> length xs < 1024"
    using assms(1) xs(1) by (cases zs; cases "1024 - length xs") auto
  moreover have "newline \<notin> set (butlast xs) \<longleftrightarrow> zs = []"
    using xs by (cases zs rule: rev_cases) (auto simp: butlast_append)
  ultimately show ?thesis using assms(1) xs(1) by (auto simp: newline_def)
next
  case False
  then have "newline \<notin> set (received_buffer xs)" by (simp add: received_buffer_def newline_def)
  then have "newline_index (received_buffer xs) = length (received_buffer xs)" by (simp add: newline_index_def)
  then show ?thesis using assms False by (auto simp: received_buffer_def dest: in_set_butlastD)
qed

section \<open>Replying\<close>

text \<open>The strings the reply loop sends for a sequence of chunks: every chunk overlays what the buffer held.\<close>

fun replies :: "byte list \<Rightarrow> byte list list \<Rightarrow> byte list list" where
  "replies buf [] = []"
| "replies buf (c # cs) =
     (let b = c @ drop (length c) buf in takeWhile (\<lambda>x. x \<noteq> 0) b # replies b cs)"

lemma c_string_array: "0 \<in> set b \<Longrightarrow> c_string (map Some b) = Some (takeWhile (\<lambda>x. x \<noteq> 0) b)"
  by (induction b) auto

lemma takeWhile_nonzero: "0 \<notin> set c \<Longrightarrow> takeWhile (\<lambda>x. x \<noteq> 0) (c @ replicate k (0 :: byte)) = c"
proof -
  assume "0 \<notin> set c"
  then have "takeWhile (\<lambda>x. x \<noteq> 0) (c @ replicate k 0) = c @ takeWhile (\<lambda>x. x \<noteq> 0) (replicate k 0)"
    by (intro takeWhile_append2) metis
  then show ?thesis by (cases k) simp_all
qed

text \<open>While the chunks do not get shorter the overlay is invisible.\<close>

lemma replies_growing:
  "\<forall>c \<in> set cs. 0 \<notin> set c \<and> length p \<le> length c \<and> length c \<le> length p + k \<Longrightarrow>
   sorted_wrt (\<lambda>a b. length a \<le> length b) cs \<Longrightarrow> replies (p @ replicate k 0) cs = cs"
proof (induction cs arbitrary: p k)
  case (Cons c cs)
  let ?k = "k - (length c - length p)"
  have overlay: "c @ drop (length c) (p @ replicate k 0) = c @ replicate ?k 0"
    using Cons.prems(1) by simp
  have "replies (c @ replicate ?k 0) cs = cs"
    using Cons.prems by (intro Cons.IH) auto
  then show ?case
    using Cons.prems(1) takeWhile_nonzero [of c ?k] by (simp add: overlay Let_def del: drop_append)
qed simp

text \<open>A shorter chunk is followed by the tail of the one before it.\<close>

lemma replies_stale:
  assumes "0 \<notin> set c1" "0 \<notin> set c2" "length c2 < length c1" "length c1 < 1024"
  shows "replies (replicate 1024 0) [c1, c2] = [c1, c2 @ drop (length c2) c1]"
proof -
  have "drop (length c2) (c1 @ replicate (1024 - length c1) 0) = drop (length c2) c1 @ replicate (1024 - length c1) 0"
    using assms(3) by simp
  moreover have "0 \<notin> set (c2 @ drop (length c2) c1)"
    using assms(1,2) by (auto dest: in_set_dropD)
  then have "takeWhile (\<lambda>x. x \<noteq> 0) ((c2 @ drop (length c2) c1) @ replicate (1024 - length c1) (0 :: byte)) = c2 @ drop (length c2) c1"
    by (rule takeWhile_nonzero)
  ultimately show ?thesis
    using takeWhile_nonzero [OF assms(1), of "1024 - length c1"] by (simp add: Let_def)
qed

text \<open>
  What the reply loop needs of a device: reads deliver the pending chunks one by one, each shorter than
  the buffer, and then report the end.
\<close>

locale chunk_source =
  fixes inv :: "'d \<Rightarrow> bool"
    and pending :: "'d \<Rightarrow> byte list list"
    and rd :: "'d \<Rightarrow> nat \<Rightarrow> (int \<times> byte list \<times> 'd) option"
  assumes read_law: "inv d \<Longrightarrow> pending d = c # cs \<Longrightarrow>
      0 < length c \<and> length c < BUFFER_SIZE \<and>
      (\<exists>d'. rd d BUFFER_SIZE = Some (int (length c), c, d') \<and> inv d' \<and> pending d' = cs)"
    and end_law: "inv d \<Longrightarrow> pending d = [] \<Longrightarrow>
      \<exists>n bs d'. rd d BUFFER_SIZE = Some (n, bs, d') \<and> n \<le> 0 \<and> inv d'"
begin

lemma send_loop_replies:
  "inv d \<Longrightarrow> length buf = BUFFER_SIZE \<Longrightarrow> last buf = 0 \<Longrightarrow>
   \<exists>d'. inv d' \<and> send_loop rd client buf evs d = Some (evs @ map (EvSend client) (replies buf (pending d)), d')"
proof (induction "pending d" arbitrary: d buf evs)
  case Nil
  then obtain n bs d' where "rd d BUFFER_SIZE = Some (n, bs, d')" "n \<le> 0" "inv d'"
    using end_law [of d] by auto
  then show ?case using Nil(1) [symmetric] by (subst send_loop.simps) auto
next
  case (Cons c cs)
  obtain d' where d': "rd d BUFFER_SIZE = Some (int (length c), c, d')" "inv d'" "pending d' = cs"
    and c: "0 < length c" "length c < BUFFER_SIZE"
    using read_law [OF Cons.prems(1) Cons.hyps(2) [symmetric]] by blast
  let ?b = "c @ drop (length c) buf"
  have len: "length ?b = BUFFER_SIZE" using Cons.prems(2) c by simp
  have last: "last ?b = 0" using Cons.prems(2,3) c by simp
  have "?b \<noteq> []" using c(1) by auto
  then have str: "c_string (map Some ?b) = Some (takeWhile (\<lambda>x. x \<noteq> 0) ?b)"
    using last_in_set [of ?b] unfolding last by (intro c_string_array)
  obtain d2 where "inv d2" "send_loop rd client ?b (evs @ [EvSend client (takeWhile (\<lambda>x. x \<noteq> 0) ?b)]) d' =
    Some ((evs @ [EvSend client (takeWhile (\<lambda>x. x \<noteq> 0) ?b)]) @ map (EvSend client) (replies ?b (pending d')), d2)"
    using Cons.hyps(1) [OF d'(3) [symmetric] d'(2) len last] by blast
  then show ?case
    using d' c Cons.hyps(2) [symmetric] str by (subst send_loop.simps) (auto simp: Let_def)
qed

end

section \<open>Properties\<close>

text \<open>C12. The first \<open>recv\<close> of a packet, with fewer than two gigabytes counted so far: let \<open>n\<close> be the number of bytes of
  the receive buffer up to and with its first newline, or its size 1024 when there is none. The pass stays within the
  allocated block and the buffer exactly when one of the first \<open>n + 1\<close> bytes of the buffer is zero. For data without a
  zero byte this means: shorter than the buffer, with its first newline, if any, as its last byte; data
  behind the newline overflows the block by a byte, and a full buffer is read past its end.\<close>

theorem first_recv_defined_iff:
  assumes "length xs \<le> 1024" "data_count < 2147480000"
  shows "(recv_loop (\<lambda>n. True) [Received xs] (replicate BUFFER_SIZE (Some 0)) (replicate BUFFER_SIZE 0) data_count \<noteq> None
      \<longleftrightarrow> 0 \<in> set (take (Suc (newline_index (received_buffer xs))) (received_buffer xs))) \<and>
    (0 \<notin> set xs \<longrightarrow>
      (recv_loop (\<lambda>n. True) [Received xs] (replicate BUFFER_SIZE (Some 0)) (replicate BUFFER_SIZE 0) data_count \<noteq> None
        \<longleftrightarrow> length xs < 1024 \<and> newline \<notin> set (butlast xs)))"
  using first_recv_exact [OF assms] zero_ahead_iff [OF _ assms(1)] by simp

theorem first_recv_defined_iff_witness:
  "recv_loop (\<lambda>n. True) [Received [104, 105, 10]] (replicate BUFFER_SIZE (Some 0)) (replicate BUFFER_SIZE 0) 0 \<noteq> None \<and>
   recv_loop (\<lambda>n. True) [Received [104, 10, 105]] (replicate BUFFER_SIZE (Some 0)) (replicate BUFFER_SIZE 0) 0 = None \<and>
   recv_loop (\<lambda>n. True) [Received [104, 10, 0]] (replicate BUFFER_SIZE (Some 0)) (replicate BUFFER_SIZE 0) 0 \<noteq> None"
proof (intro conjI)
  show "recv_loop (\<lambda>n. True) [Received [104, 105, 10]] (replicate BUFFER_SIZE (Some 0)) (replicate BUFFER_SIZE 0) 0 \<noteq> None"
    using first_recv_defined_iff [of "[104, 105, 10]" 0] by (simp add: newline_def del: recv_loop.simps not_None_eq)
  show "recv_loop (\<lambda>n. True) [Received [104, 10, 105]] (replicate BUFFER_SIZE (Some 0)) (replicate BUFFER_SIZE 0) 0 = None"
    using first_recv_defined_iff [of "[104, 10, 105]" 0] by (simp add: newline_def del: recv_loop.simps not_None_eq)
  show "recv_loop (\<lambda>n. True) [Received [104, 10, 0]] (replicate BUFFER_SIZE (Some 0)) (replicate BUFFER_SIZE 0) 0 \<noteq> None"
    using first_recv_defined_iff [of "[104, 10, 0]" 0]
    by (simp add: newline_def newline_index_def received_buffer_def del: recv_loop.simps not_None_eq)
qed

text \<open>A packet that arrives in more than one piece overflows the heap block: each \<open>realloc\<close> asks
  for the length of the newest piece only, and the last piece is appended behind the earlier ones.\<close>

theorem split_packet_overflows:
  assumes "cs \<noteq> []" "\<forall>c \<in> set cs. c \<noteq> [] \<and> length c < 1024 \<and> 0 \<notin> set c \<and> newline \<notin> set c"
    and "0 \<notin> set ys" "newline \<notin> set ys"
  shows "recv_loop (\<lambda>n. True) (map Received cs @ Received (ys @ newline # zs) # rs)
    (replicate BUFFER_SIZE (Some 0)) (replicate BUFFER_SIZE 0) data_count = None"
  using recv_split_packet [OF assms(3,4,2) empty_buffer] assms(1) by simp

theorem split_packet_overflows_witness:
  "recv_loop (\<lambda>n. True) [Received [104], Received [105, 10]]
    (replicate BUFFER_SIZE (Some 0)) (replicate BUFFER_SIZE 0) 0 = None"
  using split_packet_overflows [of "[[104]]" "[105]" "[]" "[]" 0] by (simp add: newline_def del: recv_loop.simps)

lemma seekto_prefix_facts: "length seekto_prefix = 19" "0 \<notin> set seekto_prefix"
  by (simp_all add: seekto_prefix_def bytes_of_def)

lemma parse_printed:
  assumes "x < 2 ^ 32" "y < 2 ^ 32"
  shows "parse_seekto (print_dec x @ 44 # print_dec y @ [newline]) = Some (word_of_nat x, word_of_nat y)"
proof -
  have nocomma: "44 \<notin> set (print_dec y @ [newline])"
    using print_dec_digits [of y] isdigit_cases(4) by (auto simp: newline_def)
  have t1: "strtok 44 (print_dec x @ 44 # print_dec y @ [newline]) = Some (print_dec x, print_dec y @ [newline])"
    by (rule strtok_two_numbers [OF nocomma])
  have "dropWhile (\<lambda>c. c = 44) (print_dec y @ [newline]) = print_dec y @ [newline]"
    using nocomma by (cases "print_dec y") auto
  moreover have "takeWhile (\<lambda>c. c \<noteq> 44) (print_dec y @ [newline]) = print_dec y @ [newline]"
    using nocomma by (subst takeWhile_eq_all_conv) auto
  ultimately have t2: "\<exists>r. strtok 44 (print_dec y @ [newline]) = Some (print_dec y @ [newline], r)"
    by (simp add: strtok_def)
  have narrow: "(ucast (word_of_nat n :: u64) :: u32) = word_of_nat n" if "n < 2 ^ 32" for n
    using that by (simp add: word_unat_eq_iff unsigned_ucast_eq unat_of_nat take_bit_nat_eq_self)
  have "\<not> isdigit newline" by (simp add: isdigit_def newline_def)
  then have "strtoul10 (print_dec x) = word_of_nat x" "strtoul10 (print_dec y @ [newline]) = word_of_nat y"
    using strtoul10_print [of x "[]"] strtoul10_print [of y "[newline]"] assms by simp_all
  then show ?thesis using t1 t2 assms narrow by (auto simp: parse_seekto_def)
qed

text \<open>C28. A seek packet carries its two numbers to the device: the command line printed with decimal
  numbers below \<open>2 ^ 32\<close> is recognised, parsed back to the same numbers, and turned into one control
  call; a failing call ends the process through \<open>exit_safely\<close>.\<close>

theorem seek_packet_round_trip:
  assumes "c_string buffer = Some (seekto_prefix @ print_dec x @ 44 # print_dec y @ [newline])"
    and "x < 2 ^ 32" "y < 2 ^ 32"
  shows "handle_packet ops g buffer d =
    map_option (\<lambda>(r, d'). if r = 0 then Inr d' else Inl (exit_safely g))
      (d_ioctl ops d (word_of_nat x) (word_of_nat y))"
proof -
  have cmd: "strncmp_eq buffer seekto_prefix = Some True"
    using strncmp_eq_string [OF assms(1) seekto_prefix_facts(2)] by simp
  show ?thesis
    using cmd assms parse_printed [of x y] seekto_prefix_facts(1)
    by (cases "d_ioctl ops d (word_of_nat x) (word_of_nat y)") (auto simp: handle_packet_def)
qed

text \<open>A device that remembers the last seek and accepts command numbers below ten.\<close>

definition seek_log :: "(u32 \<times> u32) device_ops" where
  "seek_log = \<lparr>d_open = (\<lambda>d. (3, d)), d_ioctl = (\<lambda>d x y. Some (if x < 10 then 0 else - 1, (x, y))),
     d_write = (\<lambda>d s. Some (int (length s), d)), d_read = (\<lambda>d n. Some (0, [], d))\<rparr>"

theorem seek_packet_round_trip_witness:
  "handle_packet seek_log \<lparr>server_socket = 0, client_socket = 0\<rparr>
     (map Some (seekto_prefix @ print_dec 2 @ 44 # print_dec 7 @ [newline, 0])) (0, 0) = Some (Inr (2, 7))"
proof -
  have "0 \<notin> set (print_dec n)" for n using print_dec_digits isdigit_cases(5) by blast
  then have "0 \<notin> set (seekto_prefix @ print_dec 2 @ 44 # print_dec 7 @ [newline])"
    using seekto_prefix_facts(2) by (simp add: newline_def)
  then have "c_string (map Some (seekto_prefix @ print_dec 2 @ 44 # print_dec 7 @ [newline, 0])) =
      Some (seekto_prefix @ print_dec 2 @ 44 # print_dec 7 @ [newline])"
    using c_string_known [of "seekto_prefix @ print_dec 2 @ 44 # print_dec 7 @ [newline]" "[]"] by simp
  then show ?thesis
    using seek_packet_round_trip [of _ 2 7 seek_log "\<lparr>server_socket = 0, client_socket = 0\<rparr>" "(0, 0)"]
    by (simp add: seek_log_def)
qed

end
