(* ===== verification/Thread_Steps.thy ===== *)
theory Thread_Steps
  imports Socket_Thread
begin

text \<open>
  The connection thread of \<^verbatim>\<open>server/aesdsocket.c\<close> one system call at a time, as other threads see it:
  between two steps of this thread any other thread may move. A step is one allocation, one pass of the
  receive loop, the open, the write or control call, one pass of the reply loop, or the end. The thread left
  alone, run step by step, does exactly what \<open>thread_func\<close> does.
\<close>

section \<open>Phases and steps\<close>

text \<open>Where the thread is, with the local variables that are still used: the packet buffer, the open
  file, the send buffer.\<close>

datatype thread_phase =
    Starting
  | Receiving cblock
  | Opening cblock
  | Handling int cblock
  | Replying int "byte list"
  | Finished

text \<open>One pass of the receive loop; on the right, whether the loop is over, the buffer and the count.\<close>

definition recv_pass ::
  "(nat \<Rightarrow> bool) \<Rightarrow> recv_result \<Rightarrow> cblock \<Rightarrow> byte list \<Rightarrow> int \<Rightarrow> (int + bool \<times> cblock \<times> int) option" where
  "recv_pass ok r buffer buff data_count =
     (case r of
        RecvFailed \<Rightarrow> Some (Inl 1)
      | RecvClosed \<Rightarrow> Some (Inr (True, buffer, data_count))
      | Received xs \<Rightarrow>
          let buff = xs @ drop (length xs) buff;
              (index, is_packet_complete) = scan_newline buff 0
          in if 2147483647 < data_count + int index then None
             else if \<not> ok (index + 1) then Some (Inl 1)
             else do {
               buffer \<leftarrow> strncat (c_realloc buffer (index + 1)) buff (index + 1);
               Some (Inr (is_packet_complete, buffer, data_count + int index))
             })"

text \<open>One pass of the reply loop: nothing more to read, or one message and the buffer.\<close>

definition send_pass ::
  "('d \<Rightarrow> nat \<Rightarrow> (int \<times> byte list \<times> 'd) option) \<Rightarrow> byte list \<Rightarrow> 'd \<Rightarrow>
   ((byte list \<times> byte list) option \<times> 'd) option" where
  "send_pass rd send_buffer d =
     do {
       (read_result, bytes, d) \<leftarrow> rd d BUFFER_SIZE;
       if read_result \<le> 0 then Some (None, d)
       else do {
         let send_buffer = bytes @ drop (length bytes) send_buffer;
         s \<leftarrow> c_string (map Some send_buffer);
         Some (Some (s, send_buffer), d)
       }
     }"

text \<open>A step: the process ends, or the thread goes on (its data, its phase, what it did, the count
  shared by all threads, the device).\<close>

datatype 'd step_result =
    Exits int "server_event list"
  | Goes thread_data thread_phase "server_event list" int 'd

definition thread_step ::
  "'d device_ops \<Rightarrow> thread_env \<Rightarrow> server_globals \<Rightarrow> recv_result \<Rightarrow> thread_data \<Rightarrow> thread_phase \<Rightarrow> int \<Rightarrow> 'd \<Rightarrow>
   'd step_result option" where
  "thread_step ops E g r args ph data_count d =
     (case ph of
        Starting \<Rightarrow>
          if \<not> malloc_ok E then Some (Exits 1 [])
          else Some (Goes args (Receiving (replicate BUFFER_SIZE (Some 0))) [] data_count d)
      | Receiving buffer \<Rightarrow> do {
          got \<leftarrow> recv_pass (realloc_ok E) r buffer (replicate BUFFER_SIZE 0) data_count;
          Some (case got of
              Inl status \<Rightarrow> Exits status []
            | Inr (is_packet_complete, buffer, data_count) \<Rightarrow>
                Goes args (if is_packet_complete then Opening buffer else Receiving buffer) [] data_count d)
        }
      | Opening buffer \<Rightarrow>
          let (data_file, d) = d_open ops d
          in Some (if data_file = - 1 then Exits 1 [] else Goes args (Handling data_file buffer) [] data_count d)
      | Handling data_file buffer \<Rightarrow> do {
          handled \<leftarrow> handle_packet ops g buffer d;
          Some (case handled of
              Inl (status, evs) \<Rightarrow> Exits status evs
            | Inr d \<Rightarrow> Goes args (Replying data_file (replicate BUFFER_SIZE 0)) [] data_count d)
        }
      | Replying data_file send_buffer \<Rightarrow> do {
          (message, d) \<leftarrow> send_pass (d_read ops) send_buffer d;
          Some (case message of
              Some (s, send_buffer) \<Rightarrow>
                Goes args (Replying data_file send_buffer) [EvSend (client_fd args) s] data_count d
            | None \<Rightarrow>
                Goes (args\<lparr>thread_complete := True\<rparr>) Finished
                  [EvClose data_file, EvClose (client_fd args)] data_count d)
        }
      | Finished \<Rightarrow> None)"

text \<open>The thread alone: steps until it is finished, ends the process or waits in \<open>recv\<close>.\<close>

definition is_receiving :: "thread_phase \<Rightarrow> bool" where
  "is_receiving ph = (case ph of Receiving buffer \<Rightarrow> True | _ \<Rightarrow> False)"

partial_function (option) thread_run ::
  "'d device_ops \<Rightarrow> thread_env \<Rightarrow> server_globals \<Rightarrow> recv_result list \<Rightarrow> thread_data \<Rightarrow> thread_phase \<Rightarrow>
   server_event list \<Rightarrow> int \<Rightarrow> 'd \<Rightarrow> 'd thread_outcome option" where
  "thread_run ops E g rs args ph evs data_count d =
     (if ph = Finished then Some (ThreadDone args evs data_count d)
      else if is_receiving ph \<and> rs = [] then Some ThreadWaiting
      else do {
        res \<leftarrow> thread_step ops E g (hd rs) args ph data_count d;
        (case res of
           Exits status evs' \<Rightarrow> Some (ProcessExit status (evs @ evs'))
         | Goes args ph' evs' data_count d \<Rightarrow>
             thread_run ops E g (if is_receiving ph then tl rs else rs) args ph' (evs @ evs') data_count d)
      })"

section \<open>Steps add up to the thread\<close>

lemma recv_loop_pass:
  "recv_loop ok (r # rs) buffer buff n =
     do {
       got \<leftarrow> recv_pass ok r buffer buff n;
       case got of
         Inl status \<Rightarrow> Some (RecvExit status)
       | Inr (complete, buffer, n) \<Rightarrow>
           if complete then Some (Packet buffer n) else recv_loop ok rs buffer (replicate BUFFER_SIZE 0) n
     }"
  by (cases r) (auto simp: recv_pass_def Let_def split: prod.splits Option.bind_split)

lemma send_loop_pass:
  "send_loop rd client buf evs d =
     do {
       (message, d) \<leftarrow> send_pass rd buf d;
       case message of
         None \<Rightarrow> Some (evs, d)
       | Some (s, buf) \<Rightarrow> send_loop rd client buf (evs @ [EvSend client s]) d
     }"
  by (subst send_loop.simps) (auto simp: send_pass_def Let_def split: prod.splits Option.bind_split)

lemma is_receiving_simps [simp]:
  "is_receiving (Receiving b)" "\<not> is_receiving Starting" "\<not> is_receiving (Opening b)"
  "\<not> is_receiving (Handling fd b)" "\<not> is_receiving (Replying fd sb)" "\<not> is_receiving Finished"
  by (simp_all add: is_receiving_def)

lemma run_step:
  "ph \<noteq> Finished \<Longrightarrow> \<not> (is_receiving ph \<and> rs = []) \<Longrightarrow>
   thread_run ops E g rs args ph evs n d =
     do {
       res \<leftarrow> thread_step ops E g (hd rs) args ph n d;
       (case res of
          Exits status evs' \<Rightarrow> Some (ProcessExit status (evs @ evs'))
        | Goes args ph' evs' n d \<Rightarrow>
            thread_run ops E g (if is_receiving ph then tl rs else rs) args ph' (evs @ evs') n d)
     }"
  by (subst thread_run.simps) auto

lemma run_finished [simp]: "thread_run ops E g rs args Finished evs n d = Some (ThreadDone args evs n d)"
  by (subst thread_run.simps) simp

text \<open>How a thread that replies ends.\<close>

definition reply_end :: "int \<Rightarrow> thread_data \<Rightarrow> int \<Rightarrow> server_event list \<times> 'd \<Rightarrow> 'd thread_outcome" where
  "reply_end fd args n r =
     ThreadDone (args\<lparr>thread_complete := True\<rparr>) (fst r @ [EvClose fd, EvClose (client_fd args)]) n (snd r)"

lemma run_replying_step:
  "thread_run ops E g rs args (Replying fd sb) evs n d =
     do {
       (message, d) \<leftarrow> send_pass (d_read ops) sb d;
       case message of
         None \<Rightarrow> Some (reply_end fd args n (evs, d))
       | Some (s, sb) \<Rightarrow> thread_run ops E g rs args (Replying fd sb) (evs @ [EvSend (client_fd args) s]) n d
     }"
  by (subst run_step)
    (auto simp: thread_step_def reply_end_def split: prod.splits option.splits Option.bind_split)

lemma run_replying_Some:
  assumes "send_loop rd client sb evs d = Some r" "rd = d_read ops" "client = client_fd args"
  shows "thread_run ops E g rs args (Replying fd sb) evs n d = Some (reply_end fd args n r)"
  using assms
proof (induction rd client sb evs d r rule: send_loop.raw_induct [rotated, consumes 1, case_names step])
  case (step send_loop rd client sb evs d r)
  note IH = step(1) [OF _ refl refl] and body = step(2) [unfolded step(3,4)]
  obtain k bytes d2 where rd: "d_read ops d BUFFER_SIZE = Some (k, bytes, d2)"
    using body by (auto simp: bind_eq_Some_conv)
  show ?case
  proof (cases "k \<le> 0")
    case True
    then show ?thesis using body rd by (subst run_replying_step) (auto simp: send_pass_def)
  next
    case False
    let ?sb = "bytes @ drop (length bytes) sb"
    obtain s where s: "c_string (map Some ?sb) = Some s"
      "send_loop (d_read ops) (client_fd args) ?sb (evs @ [EvSend (client_fd args) s]) d2 = Some r"
      using body rd False by (auto simp: bind_eq_Some_conv Let_def)
    show ?thesis
      using IH [OF s(2)] rd s(1) False by (subst run_replying_step) (simp add: send_pass_def Let_def)
  qed
qed

lemma run_replying_back:
  assumes "thread_run ops E g rs args ph evs n d = Some x" "ph = Replying fd sb"
  shows "\<exists>r. send_loop (d_read ops) (client_fd args) sb evs d = Some r"
  using assms
proof (induction ops E g rs args ph evs n d x arbitrary: sb rule: thread_run.raw_induct [rotated, consumes 1, case_names step])
  case (step run ops E g rs args ph evs n d x)
  note IH = step(1) and body = step(2) [unfolded step(3)]
  obtain message d2 where sp: "send_pass (d_read ops) sb d = Some (message, d2)"
    using body by (auto simp: thread_step_def bind_eq_Some_conv split: prod.splits)
  show ?case
  proof (cases message)
    case None
    then show ?thesis using sp by (subst send_loop_pass) simp
  next
    case (Some m)
    obtain s sb' where m: "m = (s, sb')" by (cases m)
    have "run ops E g rs args (Replying fd sb') (evs @ [EvSend (client_fd args) s]) n d2 = Some x"
      using body sp Some m by (simp add: thread_step_def)
    from IH [OF this refl] show ?thesis
      using sp Some m by (subst send_loop_pass) simp
  qed
qed

lemma run_replying:
  "thread_run ops E g rs args (Replying fd sb) evs n d =
     map_option (reply_end fd args n) (send_loop (d_read ops) (client_fd args) sb evs d)"
proof (cases "send_loop (d_read ops) (client_fd args) sb evs d")
  case None
  then show ?thesis
    using run_replying_back [of ops E g rs args "Replying fd sb" evs n d _ fd sb]
    by (cases "thread_run ops E g rs args (Replying fd sb) evs n d") auto
qed (simp add: run_replying_Some [OF _ refl refl])

lemma run_opening:
  "thread_run ops E g rs args (Opening buffer) [] n d =
     (let (fd, d) = d_open ops d
      in if fd = - 1 then Some (ProcessExit 1 [])
         else do {
           handled \<leftarrow> handle_packet ops g buffer d;
           case handled of
             Inl (status, evs) \<Rightarrow> Some (ProcessExit status evs)
           | Inr d \<Rightarrow> do {
               (evs, d) \<leftarrow> send_loop (d_read ops) (client_fd args) (replicate BUFFER_SIZE 0) [] d;
               Some (ThreadDone (args\<lparr>thread_complete := True\<rparr>)
                 (evs @ [EvClose fd, EvClose (client_fd args)]) n d)
             }
         })"
proof -
  have handling: "thread_run ops E g rs args (Handling fd buffer) [] n d =
      do {
        handled \<leftarrow> handle_packet ops g buffer d;
        case handled of
          Inl (status, evs) \<Rightarrow> Some (ProcessExit status evs)
        | Inr d \<Rightarrow> thread_run ops E g rs args (Replying fd (replicate BUFFER_SIZE 0)) [] n d
      }" for fd d
    by (subst run_step) (auto simp: thread_step_def split: prod.splits sum.splits Option.bind_split)
  show ?thesis
    by (subst run_step)
      (auto simp: thread_step_def handling run_replying reply_end_def Let_def map_option_case
        split: prod.splits sum.splits Option.bind_split option.splits)
qed

lemma run_receiving:
  "thread_run ops E g rs args (Receiving buffer) [] n d =
     do {
       got \<leftarrow> recv_loop (realloc_ok E) rs buffer (replicate BUFFER_SIZE 0) n;
       case got of
         RecvExit status \<Rightarrow> Some (ProcessExit status [])
       | RecvWaiting \<Rightarrow> Some ThreadWaiting
       | Packet buffer n \<Rightarrow> thread_run ops E g [] args (Opening buffer) [] n d
     }"
proof (induction rs arbitrary: buffer n)
  case Nil
  show ?case by (subst thread_run.simps) simp
next
  case (Cons r rs)
  have same: "thread_run ops E g rs args (Opening b) [] n d = thread_run ops E g [] args (Opening b) [] n d" for b n
    by (simp only: run_opening)
  show ?case
    by (subst run_step)
      (auto simp: thread_step_def recv_loop_pass Cons.IH same simp del: recv_loop.simps
        split: sum.splits Option.bind_split)
qed

section \<open>Packets\<close>

text \<open>What a pass leaves in the buffer: the string so far has no newline, or exactly one at its end.\<close>

definition packet_ok :: "bool \<Rightarrow> byte list \<Rightarrow> bool" where
  "packet_ok complete s \<longleftrightarrow> newline \<notin> set (butlast s) \<and> (complete \<or> newline \<notin> set s) \<and> length s < 1025"

lemma scan_newline_cases:
  obtains "newline \<notin> set b" "scan_newline b i = (i + length b, False)"
  | ys zs where "b = ys @ newline # zs" "newline \<notin> set ys" "scan_newline b i = (i + length ys + 1, True)"
proof (cases "newline \<in> set b")
  case True
  then obtain ys zs where "b = ys @ newline # zs" "newline \<notin> set ys" by (meson split_list_first)
  then show thesis using that(2) scan_newline_found by blast
qed (use that(1) scan_newline_missing in blast)

lemma scan_newline_facts:
  assumes "scan_newline b 0 = (index, complete)"
  shows "index \<le> length b \<and> newline \<notin> set (take (index - 1) b) \<and> (complete \<or> newline \<notin> set b)"
proof (rule scan_newline_cases [of b 0])
  assume "newline \<notin> set b" "scan_newline b 0 = (0 + length b, False)"
  then show ?thesis using assms by (auto dest: in_set_takeD)
next
  fix ys zs
  assume "b = ys @ newline # zs" "newline \<notin> set ys" "scan_newline b 0 = (0 + length ys + 1, True)"
  then show ?thesis using assms by (auto simp: take_Cons')
qed

lemma c_take_nonzero: "c_take src n = Some s \<Longrightarrow> 0 \<notin> set s"
  by (induction src n arbitrary: s rule: c_take.induct) (auto split: if_splits)

lemma c_take_prefix: "c_take src n = Some s \<Longrightarrow> \<exists>k \<le> n. s = take k src \<and> k \<le> length src"
proof (induction src n arbitrary: s rule: c_take.induct)
  case (3 c src n)
  show ?case
  proof (cases "c = 0")
    case False
    then obtain t where "c_take src n = Some t" "s = c # t" using 3(2) by auto
    then obtain k where "k \<le> n" "t = take k src" "k \<le> length src" using 3(1) False by blast
    then have "Suc k \<le> Suc n \<and> s = take (Suc k) (c # src) \<and> Suc k \<le> length (c # src)" using \<open>s = c # t\<close> by simp
    then show ?thesis by blast
  qed (use 3(2) in simp)
qed simp_all

lemma recv_pass_string:
  assumes "recv_pass ok r buffer (replicate BUFFER_SIZE 0) n = Some (Inr (complete, buffer', n'))"
    and "c_string buffer = Some d" "packet_ok False d" "\<forall>xs. r = Received xs \<longrightarrow> length xs \<le> BUFFER_SIZE"
  shows "\<exists>s. c_string buffer' = Some s \<and> packet_ok complete s"
proof (cases r)
  case (Received xs)
  let ?buff = "xs @ drop (length xs) (replicate BUFFER_SIZE 0)"
  have len: "length ?buff = 1024" using assms(4) Received by (simp add: BUFFER_SIZE_def)
  obtain index where scan: "scan_newline ?buff 0 = (index, complete)"
    and cat: "strncat (c_realloc buffer (index + 1)) ?buff (index + 1) = Some buffer'"
    using assms(1) Received by (auto simp: recv_pass_def Let_def bind_eq_Some_conv split: prod.splits if_splits)
  have idx: "index \<le> 1024" "newline \<notin> set (take (index - 1) ?buff)" "complete \<or> newline \<notin> set ?buff"
    using scan_newline_facts [OF scan] len by simp_all
  obtain t where t: "c_take ?buff (index + 1) = Some t" "length d + length t + 1 \<le> index + 1"
    "c_string buffer' = Some (d @ t)"
  proof -
    have short: "length d < index + 1"
      using cat assms(2) by (cases "length d < index + 1") (simp_all add: strncat_def c_string_realloc)
    then obtain t where "c_take ?buff (index + 1) = Some t" "length d + length t + 1 \<le> index + 1"
      "buffer' = map Some (d @ t) @ Some 0 # drop (length d + length t + 1) (c_realloc buffer (index + 1))"
      using cat assms(2) by (auto simp: strncat_def c_string_realloc bind_eq_Some_conv split: if_splits)
    moreover have "0 \<notin> set (d @ t)"
      using c_string_split [OF assms(2)] c_take_nonzero [OF calculation(1)] by auto
    ultimately show thesis using that c_string_known [of "d @ t"] by simp
  qed
  obtain k where k: "t = take k ?buff" "length t = k"
    using c_take_prefix [OF t(1)] by auto
  have "newline \<notin> set (butlast (d @ t))"
  proof (cases "k = 0")
    case True
    then show ?thesis using k assms(3) by (simp add: packet_ok_def)
  next
    case False
    have "butlast t = take (k - 1) ?buff" using k by (simp only: butlast_conv_take) simp
    moreover have "set (take (k - 1) ?buff) \<subseteq> set (take (index - 1) ?buff)"
      using k(2) t(2) by (intro set_take_subset_set_take) simp
    moreover have "butlast (d @ t) = d @ butlast t" using False k(2) by (auto simp: butlast_append)
    moreover have "newline \<notin> set d" using assms(3) by (simp add: packet_ok_def)
    ultimately show ?thesis using idx(2) by auto
  qed
  moreover have "complete \<or> newline \<notin> set (d @ t)"
  proof -
    have "set t \<subseteq> set ?buff" unfolding k(1) by (rule set_take_subset)
    then show ?thesis using idx(3) assms(3) by (auto simp: packet_ok_def)
  qed
  moreover have "length (d @ t) < 1025" using t(2) idx(1) by simp
  ultimately show ?thesis using t(3) unfolding packet_ok_def by blast
qed (use assms in \<open>auto simp: recv_pass_def packet_ok_def\<close>)

lemma recv_pass_whole:
  assumes "0 \<notin> set xs" "newline \<notin> set xs" "length xs < 1023" "n + int (length xs) < 2147483647" "ok (length xs + 2)"
  obtains buffer where "recv_pass ok (Received (xs @ [newline])) (replicate BUFFER_SIZE (Some 0)) (replicate BUFFER_SIZE 0) n =
      Some (Inr (True, buffer, n + int (length xs) + 1))" "c_string buffer = Some (xs @ [newline])"
proof -
  obtain buffer where b: "recv_loop ok (Received (xs @ [newline]) # []) (replicate BUFFER_SIZE (Some 0)) (replicate BUFFER_SIZE 0) n =
      Some (Packet buffer (n + int (length xs) + 1))" "c_string buffer = Some (xs @ [newline])"
    by (rule recv_whole_packet [OF assms(1-4), of ok "[]"]) (rule assms(5))
  then obtain got where got: "recv_pass ok (Received (xs @ [newline])) (replicate BUFFER_SIZE (Some 0)) (replicate BUFFER_SIZE 0) n = Some got"
    unfolding recv_loop_pass by (auto simp: bind_eq_Some_conv)
  then have "got = Inr (True, buffer, n + int (length xs) + 1)"
    using b(1) unfolding recv_loop_pass by (cases got) (auto split: if_splits)
  then show thesis using that b(2) got by simp
qed

section \<open>The two forms of the thread agree\<close>

text \<open>The steps of a thread that is left alone add up to \<open>thread_func\<close>, on every input and every device,
  failing and undefined runs included.\<close>

lemma thread_steps_compose:
  "thread_run ops E g (arrivals E) args Starting [] data_count d = thread_func ops E g args data_count d"
proof -
  have start: "thread_run ops E g rs args Starting [] n d =
      (if malloc_ok E then thread_run ops E g rs args (Receiving (replicate BUFFER_SIZE (Some 0))) [] n d
       else Some (ProcessExit 1 []))" for rs n
    by (subst run_step) (simp_all add: thread_step_def)
  show ?thesis
    unfolding start thread_func_def
    by (auto simp: run_receiving run_opening split: Option.bind_split recv_outcome.splits simp del: recv_loop.simps)
qed

end
