(* ===== verification/Server_Device.thy ===== *)
theory Server_Device
  imports Socket_Thread Driver_Runs
begin

text \<open>
  The server in front of the driver: the system calls of a connection thread on its open file, as the
  kernel routes them through \<open>aesd_fops\<close>, instantiate the device interface of \<open>Socket_Thread\<close>. The
  driver is shown to be a \<open>chunk_source\<close>, so that the reply loop can be followed to the bytes on the
  wire, where they are right and where they are not.
\<close>

section \<open>System calls on the device file\<close>

text \<open>The kernel services, the open file and the driver's state. A negative result becomes \<open>-1\<close>; the
  position is taken from the file and stored back.\<close>

type_synonym open_device = "kenv \<times> struct_file \<times> kstate"

definition sys_result :: "i64 \<Rightarrow> int" where
  "sys_result r = (if r <s 0 then - 1 else sint r)"

definition sys_open :: "int \<Rightarrow> open_device \<Rightarrow> int \<times> open_device" where
  "sys_open fd d =
     (case d of (K, _, s) \<Rightarrow>
        (case op_open aesd_fops \<lparr>i_cdev = AesdDevice\<rparr> \<lparr>f_pos = 0, private_data = NoDevice\<rparr> of
           (r, f) \<Rightarrow> (if r = 0 then fd else - 1, (K, f, s))))"

definition sys_read :: "open_device \<Rightarrow> nat \<Rightarrow> (int \<times> byte list \<times> open_device) option" where
  "sys_read d n =
     (case d of (K, f, s) \<Rightarrow> do {
        (r, pos, out, s) \<leftarrow> op_read aesd_fops K (Some f) True (word_of_nat n) (Some (f_pos f)) s;
        Some (sys_result r, out, (K, f\<lparr>f_pos := pos\<rparr>, s))
      })"

definition sys_write :: "open_device \<Rightarrow> byte list \<Rightarrow> (int \<times> open_device) option" where
  "sys_write d xs =
     (case d of (K, f, s) \<Rightarrow> do {
        (r, pos, s) \<leftarrow> op_write aesd_fops K (Some f) (Some xs) (word_of_nat (length xs)) (Some (f_pos f)) s;
        Some (sys_result r, (K, f\<lparr>f_pos := pos\<rparr>, s))
      })"

text \<open>\<open>ioctl(fd, AESDCHAR_IOCSEEKTO, &seekto)\<close>; \<open>arg\<close> is the address of the structure.\<close>

definition sys_ioctl :: "u64 \<Rightarrow> open_device \<Rightarrow> u32 \<Rightarrow> u32 \<Rightarrow> (int \<times> open_device) option" where
  "sys_ioctl arg d wc wo =
     (case d of (K, f, s) \<Rightarrow> do {
        (r, f, s) \<leftarrow> op_unlocked_ioctl aesd_fops K (Some f) (AESDCHAR_IOCSEEKTO K) arg
           \<lparr>write_cmd = wc, write_cmd_offset = wo\<rparr> s;
        f \<leftarrow> f;
        Some (sys_result r, (K, f, s))
      })"

definition driver_ops :: "int \<Rightarrow> u64 \<Rightarrow> open_device device_ops" where
  "driver_ops fd arg = \<lparr>d_open = sys_open fd, d_ioctl = sys_ioctl arg, d_write = sys_write, d_read = sys_read\<rparr>"

section \<open>The driver as a source of chunks\<close>

text \<open>Reads that are not disturbed: the lock is taken and every copy is complete. The commands are
  shorter than the server's buffer.\<close>

definition quiet :: "kenv \<Rightarrow> bool" where
  "quiet K \<longleftrightarrow> kernel_ok K \<and> fst (k_mutex_lock_interruptible K False) = 0 \<and>
     (\<forall>bs. snd (k_copy_to_user K bs) = 0) \<and> (\<forall>us n. snd (k_copy_from_user K us n) = 0)"

definition source_inv :: "open_device \<Rightarrow> bool" where
  "source_inv d \<longleftrightarrow>
     (case d of (K, f, s) \<Rightarrow> quiet K \<and> dev_inv s \<and> private_data f = AesdDevice \<and>
        (\<forall>c \<in> set (commands (view s)). length c < BUFFER_SIZE))"

definition source_pending :: "open_device \<Rightarrow> byte list list" where
  "source_pending d = (case d of (K, f, s) \<Rightarrow> chunks_from (commands (view s)) (unat (f_pos f)))"

lemma sint_of_nat: "n < 2 ^ 31 \<Longrightarrow> sint (word_of_nat n :: i64) = int n"
  by (simp add: signed_of_nat signed_take_bit_int_eq_self)

lemma sys_result_of_nat:
  assumes "n < 2 ^ 31"
  shows "sys_result (word_of_nat n) = int n"
proof -
  have "\<not> (word_of_nat n :: i64) <s 0" using sint_of_nat [OF assms] by (simp add: word_sless_alt)
  then show ?thesis using sint_of_nat [OF assms] by (simp add: sys_result_def)
qed

lemma chunks_from_lengths: "c \<in> set (chunks_from xss p) \<Longrightarrow> \<exists>x \<in> set xss. length c \<le> length x"
proof (induction xss p rule: chunks_from.induct)
  case (2 d ds p)
  then show ?case by (fastforce split: if_splits)
qed simp

lemma chunks_from_nonempty: "[] \<notin> set xss \<Longrightarrow> [] \<notin> set (chunks_from xss p)"
  by (induction xss p rule: chunks_from.induct) auto

lemma commands_nonempty: "dev_inv s \<Longrightarrow> [] \<notin> set (commands (view s))"
  by (auto simp: dev_inv_def view_def stored_ok_def dest!: mem_invD(2))

lemma read_working:
  assumes "aesd_read K (Some f) True n (Some p) s = Some (r, p', out, s')" "private_data f = AesdDevice"
  shows "working s' = working s"
  using assms by (auto simp: aesd_read_def deref_device_def bind_eq_Some_conv Let_def split: prod.splits if_splits)

lemma source_read:
  assumes "source_inv (K, f, s)"
  obtains s' where "sys_read (K, f, s) BUFFER_SIZE =
      Some (int (length (next_chunk s (f_pos f))), next_chunk s (f_pos f),
        (K, f\<lparr>f_pos := f_pos f + word_of_nat (length (next_chunk s (f_pos f)))\<rparr>, s'))"
    "view s' = view s" "dev_inv s'" "working s' = working s"
proof -
  have q: "kernel_ok K" "fst (k_mutex_lock_interruptible K False) = 0" "\<forall>bs. snd (k_copy_to_user K bs) = 0"
    and d: "dev_inv s" "private_data f = AesdDevice" "\<forall>c \<in> set (commands (view s)). length c < BUFFER_SIZE"
    using assms by (simp_all add: source_inv_def quiet_def)
  obtain out m s' where r:
    "aesd_read K (Some f) True (word_of_nat BUFFER_SIZE) (Some (f_pos f)) s =
       Some (word_of_nat (length out), f_pos f + word_of_nat (length out), out, s')"
    "out = take m (next_chunk s (f_pos f))" "length out < 2 ^ 31"
    "(\<forall>bs. snd (k_copy_to_user K bs) = 0) \<longrightarrow> m = unat (word_of_nat BUFFER_SIZE :: u64)" "view s' = view s" "dev_inv s'"
    by (rule read_taken [OF q(1) d(1,2) q(2), of "word_of_nat BUFFER_SIZE" "f_pos f"])
  have m: "m = BUFFER_SIZE" using r(4) q(3) by (simp add: BUFFER_SIZE_def)
  have "length (next_chunk s (f_pos f)) \<le> BUFFER_SIZE"
  proof (cases "chunks_from (commands (view s)) (unat (f_pos f))")
    case (Cons c cs)
    then have "\<exists>x \<in> set (commands (view s)). length c \<le> length x"
      using chunks_from_lengths [of c "commands (view s)" "unat (f_pos f)"] by simp
    then show ?thesis using d(3) Cons by (force simp: next_chunk_def)
  qed (simp add: next_chunk_def)
  then have "out = next_chunk s (f_pos f)" using r(2) m by simp
  then show thesis
    using that r sys_result_of_nat [OF r(3)] read_working [OF r(1) d(2)] by (simp add: sys_read_def aesd_fops_def)
qed

text \<open>The same kernel and the same stored commands and collected bytes; the position may differ.\<close>

definition same_store :: "open_device \<Rightarrow> open_device \<Rightarrow> bool" where
  "same_store d d' \<longleftrightarrow>
     (case d of (K, f, s) \<Rightarrow> case d' of (K', f', s') \<Rightarrow> K' = K \<and> view s' = view s \<and> working s' = working s)"

interpretation driver: chunk_source "\<lambda>d. source_inv d \<and> same_store d0 d" source_pending sys_read for d0
proof
  fix d c cs
  assume here: "source_inv d \<and> same_store d0 d" and pend: "source_pending d = c # cs"
  obtain K f s where d: "d = (K, f, s)" by (cases d)
  have inv: "source_inv d" using here by simp
  have facts: "dev_inv s" "\<forall>c \<in> set (commands (view s)). length c < BUFFER_SIZE"
    using inv by (simp_all add: d source_inv_def)
  have chunk: "chunks_from (commands (view s)) (unat (f_pos f)) = c # cs" using pend by (simp add: d source_pending_def)
  then have nc: "next_chunk s (f_pos f) = c" by (simp add: next_chunk_def)
  have ne: "c \<noteq> []" using chunks_from_nonempty [OF commands_nonempty [OF facts(1)], of "unat (f_pos f)"] chunk by auto
  have len: "length c < BUFFER_SIZE"
    using chunks_from_lengths [of c "commands (view s)" "unat (f_pos f)"] chunk facts(2) by force
  obtain s' where r: "sys_read d BUFFER_SIZE = Some (int (length c), c, (K, f\<lparr>f_pos := f_pos f + word_of_nat (length c)\<rparr>, s'))"
    "view s' = view s" "dev_inv s'" "working s' = working s"
    using source_read inv nc d by metis
  have ahead: "drop (unat (f_pos f)) (dev_bytes s) = c @ concat cs"
    using dev_bytes_ahead [of "f_pos f" s] chunk nc by simp
  have "unat (f_pos f) + length c \<le> length (dev_bytes s)"
  proof -
    have "length (dev_bytes s) - unat (f_pos f) = length c + length (concat cs)"
      using arg_cong [OF ahead, of length] by simp
    moreover have "0 < length c" using ne by simp
    ultimately show ?thesis by linarith
  qed
  moreover have "unat (word_of_nat (length c) :: u64) = length c"
    using len by (intro unat_of_nat_u64) (simp add: BUFFER_SIZE_def)
  ultimately have pos: "unat (f_pos f + word_of_nat (length c)) = unat (f_pos f) + length c"
    using dev_bytes_bound [OF dev_invD(1) [OF facts(1)]] by (subst unat_add_nowrap) simp_all
  have "source_inv (K, f\<lparr>f_pos := f_pos f + word_of_nat (length c)\<rparr>, s')"
    using inv r by (simp add: d source_inv_def)
  moreover have "source_pending (K, f\<lparr>f_pos := f_pos f + word_of_nat (length c)\<rparr>, s') = cs"
    using chunks_from_next [OF commands_nonempty [OF facts(1)] chunk] pos r(2) by (simp add: source_pending_def)
  moreover have "same_store d0 (K, f\<lparr>f_pos := f_pos f + word_of_nat (length c)\<rparr>, s')"
    using here r by (simp add: d same_store_def split: prod.splits)
  ultimately show "0 < length c \<and> length c < BUFFER_SIZE \<and>
      (\<exists>d'. sys_read d BUFFER_SIZE = Some (int (length c), c, d') \<and> (source_inv d' \<and> same_store d0 d') \<and> source_pending d' = cs)"
    using r(1) ne len by blast
next
  fix d assume here: "source_inv d \<and> same_store d0 d" and pend: "source_pending d = []"
  obtain K f s where d: "d = (K, f, s)" by (cases d)
  have inv: "source_inv d" using here by simp
  have nc: "next_chunk s (f_pos f) = []" using pend by (simp add: d source_pending_def next_chunk_def)
  obtain s' where "sys_read d BUFFER_SIZE = Some (0, [], (K, f, s'))" "view s' = view s" "dev_inv s'" "working s' = working s"
    using source_read [of K f s] inv nc d by auto
  moreover have "source_inv (K, f, s')" "same_store d0 (K, f, s')"
    using here inv calculation by (simp_all add: d source_inv_def same_store_def split: prod.splits)
  ultimately show "\<exists>n bs d'. sys_read d BUFFER_SIZE = Some (n, bs, d') \<and> n \<le> 0 \<and> (source_inv d' \<and> same_store d0 d')"
    by force
qed

section \<open>A connection\<close>

lemma quiet_write:
  assumes "quiet K" "dev_inv s" "healthy s" "private_data f = AesdDevice" "xs \<noteq> []" "length xs < 2 ^ 31"
    and "fst (the (write_alloc K (word_of_nat (length xs)) (set_lock True s))) \<noteq> 0"
  obtains s' where "sys_write (K, f, s) xs = Some (int (length xs), (K, f, s'))" "dev_inv s'" "healthy s'"
    "view s' = spec_write xs (view s)"
proof -
  have K: "kernel_ok K" "fst (k_mutex_lock_interruptible K False) = 0" "\<And>us n. snd (k_copy_from_user K us n) = 0"
    using assms(1) by (simp_all add: quiet_def)
  have len: "unat (word_of_nat (length xs) :: u64) = length xs"
    using assms(6) by (intro unat_of_nat_u64) simp
  show thesis
  proof (rule write_cases [OF K(1) assms(2,4), of "word_of_nat (length xs)" xs "f_pos f"])
    assume "word_of_nat (length xs) = (0 :: u64)"
    then show thesis using len assms(5) by simp
  next
    fix r s2 old
    assume a: "aesd_write K (Some f) (Some xs) (word_of_nat (length xs)) (Some (f_pos f)) s = Some (r, f_pos f, s2)" "dev_inv s2"
      "r = word_of_nat (length xs) - snd (k_copy_from_user K xs (word_of_nat (length xs)))"
      "healthy s \<longrightarrow> old = partial (view s)" "healthy s2"
      "view s2 = spec_write (take (unat r) xs) \<lparr>commands = commands (view s), partial = old\<rparr>"
    then have "view s2 = spec_write xs (view s)" using K(3) len assms(3) by (cases "view s") simp
    then show thesis
      using that a K(3) sys_result_of_nat [OF assms(6)] by (simp add: sys_write_def aesd_fops_def)
  qed (use K assms len in simp_all)
qed

text \<open>The replies of a connection, from the open on.\<close>

lemma driver_replies:
  assumes "source_inv (K, f, s)" "f_pos f = 0"
  obtains f' s' where "send_loop sys_read client (replicate BUFFER_SIZE 0) [] (K, f, s) =
    Some (map (EvSend client) (replies (replicate BUFFER_SIZE 0) (commands (view s))), (K, f', s'))"
    "dev_inv s'" "view s' = view s" "working s' = working s"
proof -
  have dev: "dev_inv s" using assms(1) by (simp add: source_inv_def)
  have "chunks_from (commands (view s)) 0 = commands (view s)"
    using commands_nonempty [OF dev] by (cases "commands (view s)") auto
  then have "source_pending (K, f, s) = commands (view s)" using assms(2) by (simp add: source_pending_def)
  moreover have "last (replicate BUFFER_SIZE (0 :: byte)) = 0" by (simp add: BUFFER_SIZE_def)
  moreover have "source_inv (K, f, s) \<and> same_store (K, f, s) (K, f, s)" using assms(1) by (simp add: same_store_def)
  ultimately obtain d' where "source_inv d' \<and> same_store (K, f, s) d'"
    "send_loop sys_read client (replicate BUFFER_SIZE 0) [] (K, f, s) =
      Some (map (EvSend client) (replies (replicate BUFFER_SIZE 0) (commands (view s))), d')"
    using driver.send_loop_replies [of "(K, f, s)" "(K, f, s)" "replicate BUFFER_SIZE 0" client "[]"] by auto
  then show thesis using that by (cases d') (auto simp: same_store_def source_inv_def)
qed

lemma open_file: "sys_open fd (K, f, s) = (fd, (K, \<lparr>f_pos = 0, private_data = AesdDevice\<rparr>, s))"
  by (simp add: sys_open_def aesd_fops_def aesd_open_def)

section \<open>Properties\<close>


lemma demo_quiet: "quiet demo_kernel"
  by (simp add: quiet_def demo_kernel_ok demo_kernel_simps)

abbreviation demo_args :: thread_data where
  "demo_args \<equiv> \<lparr>thread_id = 1, client_fd = 5, thread_complete = False\<rparr>"


text \<open>C35. The send buffer is not cleared between reads: when a stored command is followed by a shorter
  one, the client receives the shorter command with the tail of the longer one behind it.\<close>

theorem shorter_command_sent_with_stale_bytes:
  assumes "source_inv (K, f, s)" "f_pos f = 0" "commands (view s) = [c1, c2]"
    and "0 \<notin> set c1" "0 \<notin> set c2" "length c2 < length c1"
  shows "\<exists>d'. send_loop sys_read client (replicate BUFFER_SIZE 0) [] (K, f, s) =
    Some ([EvSend client c1, EvSend client (c2 @ drop (length c2) c1)], d')"
proof -
  have "length c1 < 1024" using assms(1,3) by (simp add: source_inv_def BUFFER_SIZE_def)
  then have stale: "replies (replicate BUFFER_SIZE 0) (commands (view s)) = [c1, c2 @ drop (length c2) c1]"
    using replies_stale [OF assms(4-6)] by (simp add: BUFFER_SIZE_def assms(3))
  obtain d' where "send_loop sys_read client (replicate BUFFER_SIZE 0) [] (K, f, s) =
    Some (map (EvSend client) (replies (replicate BUFFER_SIZE 0) (commands (view s))), d')"
    using driver_replies [OF assms(1,2)] by blast
  then show ?thesis unfolding stale by (intro exI [of _ d']) simp
qed

text \<open>A device that stores \<open>h i\<close> newline and then a single newline.\<close>

definition two_command_state :: kstate where
  "two_command_state = fresh_state\<lparr>heap := [4096 \<mapsto> [104, 105, 10], 8192 \<mapsto> [10]],
     aesd_device := (aesd_device fresh_state)\<lparr>circle_buff := aesd_circular_buffer_init\<lparr>
       entry := \<lparr>buffptr = 4096, esize = 3\<rparr> # \<lparr>buffptr = 8192, esize = 1\<rparr> # replicate 8 null_entry, in_offs := 2\<rparr>\<rparr>\<rparr>"

lemma two_command_state:
  "dev_inv two_command_state" "commands (view two_command_state) = [[104, 105, 10], [10]]"
proof -
  have stored: "stored two_command_state = [\<lparr>buffptr = 4096, esize = 3\<rparr>, \<lparr>buffptr = 8192, esize = 1\<rparr>]"
    by (simp add: two_command_state_def fresh_state_def aesd_circular_buffer_init_def
        ring_list_def ring_count_def ring_slot_def upt_rec)
  have "ring_inv (circle_buff (aesd_device two_command_state))"
    by (auto simp: two_command_state_def fresh_state_def ring_inv_def aesd_circular_buffer_init_def nth_Cons split: nat.splits)
  moreover have "working two_command_state = null_entry" "lock (aesd_device two_command_state) = False"
    "heap two_command_state = [4096 \<mapsto> [104, 105, 10], 8192 \<mapsto> [10]]"
    by (simp_all add: two_command_state_def fresh_state_def)
  ultimately show "dev_inv two_command_state" "commands (view two_command_state) = [[104, 105, 10], [10]]"
    by (simp_all add: dev_inv_def mem_inv_def stored stored_ok_def backed_def content_def owned_def
        null_entry_def view_def newline_def)
qed

theorem shorter_command_sent_with_stale_bytes_witness:
  "\<exists>d'. send_loop sys_read 5 (replicate BUFFER_SIZE 0) [] (demo_kernel, some_file, two_command_state) =
    Some ([EvSend 5 [104, 105, 10], EvSend 5 [10, 105, 10]], d')"
proof -
  have "source_inv (demo_kernel, some_file, two_command_state)"
    by (simp add: source_inv_def demo_quiet two_command_state BUFFER_SIZE_def)
  then show ?thesis
    using shorter_command_sent_with_stale_bytes [of demo_kernel some_file two_command_state "[104, 105, 10]" "[10]" 5]
    by (simp add: two_command_state)
qed

text \<open>C29. A seek packet through the whole system: with slots in command order, the packet that names
  byte \<open>y\<close> of command \<open>x\<close> makes the next reads of the thread deliver the content from exactly that
  byte on.\<close>

theorem seek_packet_positions_reader:
  assumes "source_inv (K, f, s)" "ioc_ok K" "f_pos f = 0" "out_offs (circle_buff (aesd_device s)) = 0"
    and "k_access_ok K arg 8" "\<forall>z. snd (k_copy_seekto K z) = 0"
    and "c_string buffer = Some (seekto_prefix @ print_dec x @ 44 # print_dec y @ [newline])"
    and "x < length (commands (view s))" "y < length (commands (view s) ! x)"
  shows "\<exists>d'. handle_packet (driver_ops fd arg) g buffer (K, f, s) = Some (Inr d') \<and> source_inv d' \<and>
    concat (source_pending d') = drop (length (concat (take x (commands (view s)))) + y) (dev_bytes s)"
proof -
  have K: "kernel_ok K" "fst (k_mutex_lock_interruptible K False) = 0"
    and d: "dev_inv s" "private_data f = AesdDevice"
    using assms(1) by (simp_all add: source_inv_def quiet_def)
  obtain l where lk: "k_mutex_lock_interruptible K False = (0, l)"
    using K(2) by (cases "k_mutex_lock_interruptible K False") auto
  note inv = dev_invD(1) [OF d(1)]
  have x: "x < 10" using assms(8) ring_count_le [OF mem_invD(1) [OF inv]] by (simp add: view_def)
  have y: "y < 1024"
  proof -
    have "commands (view s) ! x \<in> set (commands (view s))" using assms(8) by simp
    then show ?thesis using assms(1,9) by (force simp: source_inv_def BUFFER_SIZE_def)
  qed
  have ux: "unat (word_of_nat x :: u32) = x" "unat (word_of_nat y :: u32) = y"
    using x y by (simp_all add: unat_of_nat take_bit_nat_eq_self)
  let ?t = "seek_target s f (word_of_nat x) (word_of_nat y)"
  let ?s = "mutex_unlock K (set_lock l s)"
  have tgt: "unat ?t = length (concat (take x (commands (view s)))) + y"
    using unat_seek_target(1) [OF inv assms(4,3), of "word_of_nat x" "word_of_nat y"] ux assms(8,9) by simp
  have hit: "\<not> esize (entry (circle_buff (aesd_device s)) ! x) \<le> ucast (word_of_nat y :: u32)"
  proof -
    have "entry (circle_buff (aesd_device s)) ! x = stored s ! x" "stored s ! x \<in> set (stored s)"
      using assms(8) slots_in_order(1) [OF mem_invD(1) [OF inv] assms(4)] by (simp_all add: view_def)
    then have "unat (esize (entry (circle_buff (aesd_device s)) ! x)) = length (commands (view s) ! x)"
      using assms(8) stored_length [OF inv] by (simp add: view_def)
    then show ?thesis using assms(9) ux by (simp add: word_le_nat_alt unat_ucast_u32)
  qed
  have adj: "aesd_adjust_file_offset K (Some f) (word_of_nat x) (word_of_nat y) s = Some (0, f\<lparr>f_pos := ?t\<rparr>, ?s)"
    using adjust_exec [OF K(1) d lk, of "word_of_nat x" "word_of_nat y"] ux x hit by (simp add: Let_def)
  have ioctl: "sys_ioctl arg (K, f, s) (word_of_nat x) (word_of_nat y) = Some (0, (K, f\<lparr>f_pos := ?t\<rparr>, ?s))"
    using ioctl_seekto [OF assms(2), of f arg "\<lparr>write_cmd = word_of_nat x, write_cmd_offset = word_of_nat y\<rparr>" s] assms(5,6) adj
    by (simp add: sys_ioctl_def aesd_fops_def sys_result_def)
  have cmd: "strncmp_eq buffer seekto_prefix = Some True"
    using strncmp_eq_string [OF assms(7) seekto_prefix_facts(2)] by simp
  have "handle_packet (driver_ops fd arg) g buffer (K, f, s) = Some (Inr (K, f\<lparr>f_pos := ?t\<rparr>, ?s))"
    using cmd assms(7) parse_printed [of x y] x y seekto_prefix_facts(1) ioctl
    by (simp add: handle_packet_def driver_ops_def)
  moreover have "source_inv (K, f\<lparr>f_pos := ?t\<rparr>, ?s)"
    using assms(1) seek_state [OF K(1) d(1) lk] by (simp add: source_inv_def)
  moreover have "concat (source_pending (K, f\<lparr>f_pos := ?t\<rparr>, ?s)) = drop (unat ?t) (dev_bytes s)"
    using seek_state(2) [OF K(1) d(1) lk] by (simp add: source_pending_def concat_chunks_from dev_bytes_def)
  ultimately show ?thesis unfolding tgt by blast
qed

lemma seek_buffer: "c_string (map Some (seekto_prefix @ print_dec 1 @ 44 # print_dec 0 @ [newline, 0])) =
  Some (seekto_prefix @ print_dec 1 @ 44 # print_dec 0 @ [newline])"
proof -
  have "0 \<notin> set (print_dec n)" for n using print_dec_digits isdigit_cases(5) by blast
  then have "0 \<notin> set (seekto_prefix @ print_dec 1 @ 44 # print_dec 0 @ [newline])"
    using seekto_prefix_facts(2) by (simp add: newline_def)
  then show ?thesis
    using c_string_known [of "seekto_prefix @ print_dec 1 @ 44 # print_dec 0 @ [newline]" "[]"] by simp
qed

theorem seek_packet_positions_reader_witness:
  "\<exists>d'. handle_packet (driver_ops 3 4096) \<lparr>server_socket = 0, client_socket = 0\<rparr>
      (map Some (seekto_prefix @ print_dec 1 @ 44 # print_dec 0 @ [newline, 0]))
      (demo_kernel, some_file, two_command_state) = Some (Inr d') \<and> concat (source_pending d') = [10]"
proof -
  have "source_inv (demo_kernel, some_file, two_command_state)"
    by (simp add: source_inv_def demo_quiet two_command_state BUFFER_SIZE_def)
  moreover have "out_offs (circle_buff (aesd_device two_command_state)) = 0"
    by (simp add: two_command_state_def fresh_state_def aesd_circular_buffer_init_def)
  moreover have "k_access_ok demo_kernel 4096 8" "\<forall>z. snd (k_copy_seekto demo_kernel z) = 0"
    by (simp_all add: demo_kernel_def)
  ultimately show ?thesis
    using seek_packet_positions_reader [OF _ demo_ioc_ok _ _ _ _ seek_buffer, of some_file two_command_state 4096 3
        "\<lparr>server_socket = 0, client_socket = 0\<rparr>"]
    by (auto simp: two_command_state dev_bytes_def)
qed

end
