(* ===== verification/Server_Concurrent.thy ===== *)
theory Server_Concurrent
  imports Thread_Steps Server_Device
begin

text \<open>
  Many connections at once. The threads of \<^verbatim>\<open>server/aesdsocket.c\<close> share one device and the global
  \<open>data_count\<close>; each has its own socket, buffers and open file. The relation \<open>serving\<close> interleaves
  their steps in every order, records which strings were written by which connection and what was sent
  to it, and lets new connections arrive at any time.
\<close>

section \<open>The server as a transition system\<close>

record connection =
  c_args :: thread_data
  c_phase :: thread_phase
  c_file :: struct_file

record server_run =
  kernel :: kstate
  counted :: int
  connections :: "connection list"

definition new_connection :: "thread_data \<Rightarrow> connection" where
  "new_connection args = \<lparr>c_args = args, c_phase = Starting, c_file = \<lparr>f_pos = 0, private_data = NoDevice\<rparr>\<rparr>"

text \<open>What happens outside the thread in one step: the kernel's behaviour, the descriptor an open
  would get and the address of the seek structure, memory, and what arrives on the socket.\<close>

record step_env =
  s_kernel :: kenv
  s_fd :: int
  s_arg :: u64
  s_memory :: thread_env
  s_recv :: recv_result

definition connection_step ::
  "server_globals \<Rightarrow> step_env \<Rightarrow> nat \<Rightarrow> server_run \<Rightarrow>
   ((int \<times> server_event list) + server_event list \<times> server_run) option" where
  "connection_step g S i y =
     do {
       c \<leftarrow> arr_get (connections y) i;
       res \<leftarrow> thread_step (driver_ops (s_fd S) (s_arg S)) (s_memory S) g (s_recv S) (c_args c) (c_phase c)
         (counted y) (s_kernel S, c_file c, kernel y);
       Some (case res of
           Exits status evs \<Rightarrow> Inl (status, evs)
         | Goes args ph evs n (_, f, s) \<Rightarrow>
             Inr (evs, \<lparr>kernel = s, counted = n,
               connections = (connections y)[i := \<lparr>c_args = args, c_phase = ph, c_file = f\<rparr>]\<rparr>))
     }"

text \<open>The string that a step in this phase writes to the device, if any.\<close>

definition written_by :: "thread_phase \<Rightarrow> byte list list" where
  "written_by ph =
     (case ph of
        Handling fd buffer \<Rightarrow>
          (case (strncmp_eq buffer seekto_prefix, c_string buffer) of
             (Some False, Some s) \<Rightarrow> [s] | _ \<Rightarrow> [])
      | _ \<Rightarrow> [])"

text \<open>The kernel calls are undisturbed, and \<open>recv\<close> fills at most the buffer.\<close>

definition step_env_ok :: "step_env \<Rightarrow> bool" where
  "step_env_ok S \<longleftrightarrow> quiet (s_kernel S) \<and> env_ok (s_kernel S) \<and>
     (\<forall>xs. s_recv S = Received xs \<longrightarrow> length xs \<le> BUFFER_SIZE)"

inductive serving ::
  "server_globals \<Rightarrow> server_run \<Rightarrow> (nat \<times> byte list) list \<Rightarrow> (nat \<times> server_event) list \<Rightarrow> bool"
  for g :: server_globals where
  start: "serving g \<lparr>kernel = fresh_state, counted = 0, connections = []\<rparr> [] []"
| accept: "serving g y ws out \<Longrightarrow>
    serving g (y\<lparr>connections := connections y @ [new_connection args]\<rparr>) ws out"
| move: "serving g y ws out \<Longrightarrow> step_env_ok S \<Longrightarrow> connection_step g S i y = Some (Inr (evs, y')) \<Longrightarrow>
    serving g y' (ws @ map (Pair i) (written_by (c_phase (connections y ! i)))) (out @ map (Pair i) evs)"

text \<open>What one connection was sent.\<close>

definition sent_to :: "nat \<Rightarrow> (nat \<times> server_event) list \<Rightarrow> server_event list" where
  "sent_to i out = map snd (filter (\<lambda>e. fst e = i) out)"

section \<open>One system call of a thread\<close>

text \<open>A write with everything granted except perhaps memory.\<close>

lemma undisturbed_write:
  assumes "quiet K" "dev_inv s" "healthy s" "private_data f = AesdDevice" "length xs < 2 ^ 31"
  obtains (failed) s' where "sys_write (K, f, s) xs = Some (- 1, s')"
  | (stored) s' where "sys_write (K, f, s) xs = Some (int (length xs), (K, f, s'))" "dev_inv s'" "healthy s'"
    "view s' = spec_write xs (view s)"
proof -
  have K: "kernel_ok K" "fst (k_mutex_lock_interruptible K False) = 0" "\<And>us n. snd (k_copy_from_user K us n) = 0"
    using assms(1) by (simp_all add: quiet_def)
  have len: "unat (word_of_nat (length xs) :: u64) = length xs"
    using assms(5) by (intro unat_of_nat_u64) simp
  show thesis
  proof (rule write_cases [OF K(1) assms(2,4), of "word_of_nat (length xs)" xs "f_pos f"])
    assume "word_of_nat (length xs) = (0 :: u64)"
      and e: "aesd_write K (Some f) (Some xs) (word_of_nat (length xs)) (Some (f_pos f)) s = Some (0, f_pos f, s)"
    then have "xs = []" using len by (metis length_0_conv unat_0)
    moreover have "spec_write [] (view s) = view s"
      using dev_invD(3) [OF assms(2)] by (simp add: spec_write_def view_def)
    ultimately show thesis
      using stored [of s] e assms(2,3) by (simp add: sys_write_def aesd_fops_def sys_result_def)
  next
    fix s'
    assume "aesd_write K (Some f) (Some xs) (word_of_nat (length xs)) (Some (f_pos f)) s = Some (- ENOMEM, f_pos f, s')"
    then show thesis
      using failed by (simp add: sys_write_def aesd_fops_def sys_result_def ENOMEM_def word_sless_alt)
  next
    fix r s2 old
    assume a: "aesd_write K (Some f) (Some xs) (word_of_nat (length xs)) (Some (f_pos f)) s = Some (r, f_pos f, s2)" "dev_inv s2"
      "r = word_of_nat (length xs) - snd (k_copy_from_user K xs (word_of_nat (length xs)))"
      "healthy s \<longrightarrow> old = partial (view s)" "healthy s2"
      "view s2 = spec_write (take (unat r) xs) \<lparr>commands = commands (view s), partial = old\<rparr>"
    then have "view s2 = spec_write xs (view s)" using K(3) len assms(3) by (cases "view s") simp
    then show thesis
      using stored a K(3) sys_result_of_nat [OF assms(5)] by (simp add: sys_write_def aesd_fops_def)
  qed (use K len assms(5) in simp_all)
qed

lemma undisturbed_ioctl:
  assumes "quiet K" "env_ok K" "dev_inv s" "private_data f = AesdDevice"
    and "sys_ioctl arg (K, f, s) wc wo = Some (r, d)"
  obtains f' s' where "d = (K, f', s')" "private_data f' = AesdDevice" "dev_inv s'" "view s' = view s"
    "working s' = working s"
proof -
  note K = assms(1) [unfolded quiet_def] assms(2) [unfolded env_ok_def]
  obtain l where lk: "k_mutex_lock_interruptible K False = (0, l)"
    using K(1) by (cases "k_mutex_lock_interruptible K False") auto
  have "kernel_ok K" using K(1) by blast
  note adj = adjust_exec [OF this assms(3,4) lk, of wc wo] and st = seek_state [OF this assms(3) lk]
  obtain f' s' where "d = (K, f', s')" "private_data f' = AesdDevice" "s' = s \<or> s' = mutex_unlock K (set_lock l s)"
    using assms(4,5) K(2) ioctl_seekto [of K f arg "\<lparr>write_cmd = wc, write_cmd_offset = wo\<rparr>" s] adj
    by (auto simp: sys_ioctl_def aesd_fops_def Let_def split: if_splits)
  then show thesis using that st assms(3) by auto
qed

text \<open>What handling a packet does to the device.\<close>

lemma handle_packet_effect:
  assumes "quiet K" "env_ok K" "dev_inv s" "healthy s" "private_data f = AesdDevice"
    and "c_string buffer = Some p" "length p < 2 ^ 31"
    and "handle_packet (driver_ops fd arg) g buffer (K, f, s) = Some (Inr d)"
  obtains f' s' where "d = (K, f', s')" "private_data f' = AesdDevice" "dev_inv s'" "healthy s'"
    "view s' = fold spec_write (written_by (Handling fd' buffer)) (view s)"
    "written_by (Handling fd' buffer) \<noteq> [] \<longrightarrow> f' = f"
proof -
  obtain cmd where cmd: "strncmp_eq buffer seekto_prefix = Some cmd"
    using assms(8) by (auto simp: handle_packet_def bind_eq_Some_conv)
  show thesis
  proof (cases cmd)
    case True
    then obtain wc wo r where "sys_ioctl arg (K, f, s) wc wo = Some (r, d)"
      using assms(6,8) cmd by (auto simp: handle_packet_def driver_ops_def bind_eq_Some_conv split: option.splits if_splits)
    then obtain f' s' where "d = (K, f', s')" "private_data f' = AesdDevice" "dev_inv s'" "view s' = view s"
      "working s' = working s"
      by (rule undisturbed_ioctl [OF assms(1-3,5)])
    then show thesis
      using that [of f' s'] assms(4) cmd True by (simp add: written_by_def healthy_def)
  next
    case False
    then obtain r where w: "sys_write (K, f, s) p = Some (r, d)" "r \<noteq> - 1"
      using assms(6,8) cmd by (auto simp: handle_packet_def driver_ops_def bind_eq_Some_conv split: if_splits)
    show thesis
    proof (rule undisturbed_write [OF assms(1,3-5,7)])
      fix s'
      assume "sys_write (K, f, s) p = Some (int (length p), (K, f, s'))" "dev_inv s'" "healthy s'"
        "view s' = spec_write p (view s)"
      then show thesis
        using that [of f s'] w assms(5,6) cmd False by (simp add: written_by_def)
    qed (use w in simp)
  qed
qed

lemma undisturbed_read:
  assumes "quiet K" "dev_inv s" "private_data f = AesdDevice" "sys_read (K, f, s) BUFFER_SIZE = Some (r, bytes, d)"
  obtains f' s' where "d = (K, f', s')" "private_data f' = AesdDevice" "dev_inv s'" "view s' = view s"
    "working s' = working s" "length bytes \<le> BUFFER_SIZE"
    "(\<forall>c \<in> set (commands (view s)). length c < BUFFER_SIZE) \<longrightarrow> length bytes < BUFFER_SIZE"
proof -
  have K: "kernel_ok K" "fst (k_mutex_lock_interruptible K False) = 0" using assms(1) by (simp_all add: quiet_def)
  obtain out m s' where rd:
    "aesd_read K (Some f) True (word_of_nat BUFFER_SIZE) (Some (f_pos f)) s =
       Some (word_of_nat (length out), f_pos f + word_of_nat (length out), out, s')" "view s' = view s" "dev_inv s'"
    "out = take m (next_chunk s (f_pos f))" "length out \<le> unat (word_of_nat BUFFER_SIZE :: u64)"
    by (rule read_taken [OF K(1) assms(2,3) K(2), of "word_of_nat BUFFER_SIZE" "f_pos f"])
  then have d: "d = (K, f\<lparr>f_pos := f_pos f + word_of_nat (length out)\<rparr>, s')" and out: "out = bytes"
    using assms(4) by (auto simp: sys_read_def aesd_fops_def)
  have "length bytes \<le> BUFFER_SIZE" using rd(5) out by (simp add: BUFFER_SIZE_def)
  moreover have "(\<forall>c \<in> set (commands (view s)). length c < BUFFER_SIZE) \<longrightarrow> length bytes < BUFFER_SIZE"
  proof
    assume short: "\<forall>c \<in> set (commands (view s)). length c < BUFFER_SIZE"
    have "length (next_chunk s (f_pos f)) < BUFFER_SIZE"
    proof (cases "chunks_from (commands (view s)) (unat (f_pos f))")
      case (Cons c cs)
      then show ?thesis
        using short chunks_from_lengths [of c "commands (view s)" "unat (f_pos f)"] by (force simp: next_chunk_def)
    qed (simp add: next_chunk_def BUFFER_SIZE_def)
    then show "length bytes < BUFFER_SIZE" using rd(4) out by simp
  qed
  ultimately show thesis using that d rd(2,3) read_working [OF rd(1) assms(3)] assms(3) by simp
qed

section \<open>The invariant\<close>

text \<open>The send buffer after some messages, and the messages one more gives.\<close>

definition overlay :: "byte list \<Rightarrow> byte list list \<Rightarrow> byte list" where
  "overlay buf cs = fold (\<lambda>c b. c @ drop (length c) b) cs buf"

lemma overlay_snoc: "overlay buf (cs @ [c]) = c @ drop (length c) (overlay buf cs)"
  by (simp add: overlay_def)

lemma replies_snoc: "replies buf (cs @ [c]) = replies buf cs @ [takeWhile (\<lambda>x. x \<noteq> 0) (overlay buf (cs @ [c]))]"
  by (induction cs arbitrary: buf) (simp_all add: overlay_def Let_def)

text \<open>The packets written so far, each a line that fits the send buffer.\<close>

definition line_log :: "(nat \<times> byte list) list \<Rightarrow> bool" where
  "line_log ws \<longleftrightarrow> (\<forall>w \<in> set ws. chunk_ok (snd w) \<and> newline \<in> set (snd w) \<and> length (snd w) < BUFFER_SIZE)"

lemma line_log_append [simp]: "line_log (ws @ vs) \<longleftrightarrow> line_log ws \<and> line_log vs"
  by (auto simp: line_log_def)

lemma line_log_writes:
  "line_log ws \<Longrightarrow> fold spec_write (map snd ws) \<lparr>commands = [], partial = []\<rparr> = \<lparr>commands = keep_last 10 (map snd ws), partial = []\<rparr>"
proof (induction ws rule: rev_induct)
  case (snoc w ws)
  then show ?case
    by (simp add: spec_write_def line_log_def keep_last_append_absorb)
qed simp

text \<open>A connection in agreement with what was written and sent. While it replies, and when fewer than
  eleven packets were written, its position and its messages match the first \<open>k\<close> of them.\<close>

definition before_writing :: "(nat \<times> byte list) list \<Rightarrow> (nat \<times> server_event) list \<Rightarrow> nat \<Rightarrow> bool" where
  "before_writing ws out i \<longleftrightarrow> i \<notin> fst ` set ws \<and> sent_to i out = []"

definition told :: "int \<Rightarrow> (nat \<times> byte list) list \<Rightarrow> nat \<Rightarrow> server_event list" where
  "told client ws k = map (EvSend client) (replies (replicate BUFFER_SIZE 0) (map snd (take k ws)))"

definition tracked :: "(nat \<times> byte list) list \<Rightarrow> nat \<Rightarrow> bool" where
  "tracked ws i \<longleftrightarrow> line_log ws \<and> length ws \<le> 10 \<and> i \<in> fst ` set ws"

definition replied :: "(nat \<times> byte list) list \<Rightarrow> server_event list \<Rightarrow> int \<Rightarrow> struct_file \<Rightarrow> byte list \<Rightarrow> bool" where
  "replied ws evs client f buf \<longleftrightarrow>
     (\<exists>k \<le> length ws. unat (f_pos f) = length (concat (map snd (take k ws))) \<and> evs = told client ws k \<and>
       buf = overlay (replicate BUFFER_SIZE 0) (map snd (take k ws)))"

definition served :: "(nat \<times> byte list) list \<Rightarrow> server_event list \<Rightarrow> int \<Rightarrow> nat \<Rightarrow> bool" where
  "served ws evs client i \<longleftrightarrow>
     (\<exists>k \<le> length ws. \<exists>fd. i \<in> fst ` set (take k ws) \<and> evs = told client ws k @ [EvClose fd, EvClose client])"

definition conn_ok :: "(nat \<times> byte list) list \<Rightarrow> (nat \<times> server_event) list \<Rightarrow> nat \<Rightarrow> connection \<Rightarrow> bool" where
  "conn_ok ws out i c \<longleftrightarrow>
     (case c_phase c of
        Starting \<Rightarrow> before_writing ws out i
      | Receiving buffer \<Rightarrow> before_writing ws out i \<and> (\<exists>d. c_string buffer = Some d \<and> packet_ok False d)
      | Opening buffer \<Rightarrow> before_writing ws out i \<and> (\<exists>p. c_string buffer = Some p \<and> packet_ok True p)
      | Handling fd buffer \<Rightarrow> before_writing ws out i \<and> (\<exists>p. c_string buffer = Some p \<and> packet_ok True p) \<and>
          private_data (c_file c) = AesdDevice \<and> f_pos (c_file c) = 0
      | Replying fd buf \<Rightarrow> private_data (c_file c) = AesdDevice \<and> length buf = BUFFER_SIZE \<and>
          (line_log ws \<longrightarrow> last buf = 0) \<and>
          (tracked ws i \<longrightarrow> replied ws (sent_to i out) (client_fd (c_args c)) (c_file c) buf)
      | Finished \<Rightarrow> thread_complete (c_args c) \<and>
          (tracked ws i \<longrightarrow> served ws (sent_to i out) (client_fd (c_args c)) i))"

definition serving_inv :: "server_run \<Rightarrow> (nat \<times> byte list) list \<Rightarrow> (nat \<times> server_event) list \<Rightarrow> bool" where
  "serving_inv y ws out \<longleftrightarrow>
     dev_inv (kernel y) \<and> healthy (kernel y) \<and>
     view (kernel y) = fold spec_write (map snd ws) \<lparr>commands = [], partial = []\<rparr> \<and>
     distinct (map fst ws) \<and> (\<forall>w \<in> set ws. fst w < length (connections y) \<and> chunk_ok (snd w)) \<and>
     (\<forall>e \<in> set out. fst e < length (connections y)) \<and>
     (\<forall>i < length (connections y). conn_ok ws out i (connections y ! i))"

text \<open>Steps of another connection \<open>j\<close> leave a connection in agreement.\<close>

lemma sent_to_simps [simp]:
  "sent_to i [] = []" "sent_to i (e # es) = (if fst e = i then snd e # sent_to i es else sent_to i es)"
  by (simp_all add: sent_to_def)

lemma sent_to_append [simp]: "sent_to i (out @ out') = sent_to i out @ sent_to i out'"
  by (simp add: sent_to_def)

lemma sent_to_pairs [simp]: "sent_to i (map (Pair j) evs) = (if i = j then evs else [])"
  by (induction evs) (auto simp: sent_to_def)

lemma before_writing_frame:
  "j \<noteq> i \<Longrightarrow> before_writing (ws @ map (Pair j) ps) (out @ map (Pair j) evs) i \<longleftrightarrow> before_writing ws out i"
  by (auto simp: before_writing_def)

lemma tracked_frame: "j \<noteq> i \<Longrightarrow> tracked (ws @ map (Pair j) ps) i \<Longrightarrow> tracked ws i"
  by (auto simp: tracked_def)

lemma replied_frame: "replied ws evs client f buf \<Longrightarrow> replied (ws @ vs) evs client f buf"
  unfolding replied_def told_def by (elim exE conjE, rule_tac x = k in exI) simp

lemma served_frame: "served ws evs client i \<Longrightarrow> served (ws @ vs) evs client i"
  unfolding served_def told_def by (elim exE conjE, rule_tac x = k in exI) auto

lemma conn_ok_frame:
  assumes "conn_ok ws out i c" "j \<noteq> i"
  shows "conn_ok (ws @ map (Pair j) ps) (out @ map (Pair j) evs) i c"
  using assms tracked_frame [OF assms(2), of ws ps]
  by (cases "c_phase c") (simp_all add: conn_ok_def before_writing_frame replied_frame served_frame)

section \<open>Reading at a boundary between commands\<close>

lemma chunks_from_boundary: "[] \<notin> set xss \<Longrightarrow> chunks_from xss (length (concat (take k xss))) = drop k xss"
proof (induction xss arbitrary: k)
  case (Cons x xss)
  then show ?case by (cases k) auto
qed simp

lemma read_at_boundary:
  assumes "source_inv (K, f, s)" "unat (f_pos f) = length (concat (take k (commands (view s))))"
    and "sys_read (K, f, s) BUFFER_SIZE = Some (r, bytes, (K', f', s'))"
  shows "if k < length (commands (view s))
    then r = int (length bytes) \<and> bytes = commands (view s) ! k \<and>
      unat (f_pos f') = length (concat (take (Suc k) (commands (view s))))
    else r = 0"
proof -
  let ?cs = "commands (view s)"
  have d: "dev_inv s" "\<forall>c \<in> set ?cs. length c < BUFFER_SIZE" using assms(1) by (simp_all add: source_inv_def)
  have nc: "next_chunk s (f_pos f) = (case drop k ?cs of [] \<Rightarrow> [] | c # cs \<Rightarrow> c)"
    using chunks_from_boundary [OF commands_nonempty [OF d(1)], of k] assms(2) by (simp add: next_chunk_def)
  have rd: "r = int (length (next_chunk s (f_pos f)))" "bytes = next_chunk s (f_pos f)"
    "f_pos f' = f_pos f + word_of_nat (length (next_chunk s (f_pos f)))"
    by (rule source_read [OF assms(1)]; use assms(3) in force)+
  show ?thesis
  proof (cases "k < length ?cs")
    case True
    then have dk: "drop k ?cs = ?cs ! k # drop (Suc k) ?cs" by (simp add: Cons_nth_drop_Suc)
    have take: "concat (take (Suc k) ?cs) = concat (take k ?cs) @ ?cs ! k"
      using True by (simp add: take_Suc_conv_app_nth)
    have "length (concat (take (Suc k) ?cs)) \<le> length (dev_bytes s)"
      unfolding dev_bytes_def by (metis append_take_drop_id concat_append le_add1 length_append)
    moreover have "unat (word_of_nat (length (?cs ! k)) :: u64) = length (?cs ! k)"
      using d(2) True by (intro unat_of_nat_u64) (auto simp: BUFFER_SIZE_def dest!: nth_mem)
    ultimately have "unat (f_pos f + word_of_nat (length (?cs ! k))) = unat (f_pos f) + length (?cs ! k)"
      using dev_bytes_bound [OF dev_invD(1) [OF d(1)]] assms(2) take by (subst unat_add_nowrap) simp_all
    then show ?thesis using True rd nc dk take assms(2) by simp
  next
    case False
    then show ?thesis using rd nc by simp
  qed
qed

section \<open>Every step keeps the invariant\<close>

lemma line_log_view:
  assumes "view s = fold spec_write (map snd ws) \<lparr>commands = [], partial = []\<rparr>" "line_log ws"
  shows "commands (view s) = keep_last 10 (map snd ws)" "\<forall>c \<in> set (commands (view s)). length c < BUFFER_SIZE"
proof -
  show c: "commands (view s) = keep_last 10 (map snd ws)" using assms line_log_writes by simp
  show "\<forall>c \<in> set (commands (view s)). length c < BUFFER_SIZE"
    using assms(2) set_keep_last [of 10 "map snd ws"] unfolding c line_log_def by fastforce
qed

text \<open>A pass of the reply loop in the middle of a well-behaved reply.\<close>

lemma reply_pass:
  assumes "step_env_ok S" "dev_inv s" "view s = fold spec_write (map snd ws) \<lparr>commands = [], partial = []\<rparr>"
    and "private_data f = AesdDevice" "length buf = BUFFER_SIZE" "line_log ws \<longrightarrow> last buf = 0"
    and "send_pass sys_read buf (s_kernel S, f, s) = Some (message, d)"
  obtains f' s' where "d = (s_kernel S, f', s')" "private_data f' = AesdDevice" "dev_inv s'" "view s' = view s"
    "working s' = working s"
    "\<forall>m buf'. message = Some (m, buf') \<longrightarrow> length buf' = BUFFER_SIZE \<and> (line_log ws \<longrightarrow> last buf' = 0)"
    "\<forall>k \<le> length ws. line_log ws \<and> length ws \<le> 10 \<and> unat (f_pos f) = length (concat (map snd (take k ws))) \<longrightarrow>
       (case message of
          None \<Rightarrow> k = length ws
        | Some (m, buf') \<Rightarrow> k < length ws \<and> unat (f_pos f') = length (concat (map snd (take (Suc k) ws))) \<and>
            buf' = snd (ws ! k) @ drop (length (snd (ws ! k))) buf \<and> m = takeWhile (\<lambda>x. x \<noteq> 0) buf')"
proof -
  have q: "quiet (s_kernel S)" using assms(1) by (simp add: step_env_ok_def)
  obtain r bytes d' where rd: "sys_read (s_kernel S, f, s) BUFFER_SIZE = Some (r, bytes, d')"
    using assms(7) by (auto simp: send_pass_def bind_eq_Some_conv)
  obtain f' s' where d': "d' = (s_kernel S, f', s')" "private_data f' = AesdDevice" "dev_inv s'" "view s' = view s"
    "working s' = working s" "length bytes \<le> BUFFER_SIZE"
    "(\<forall>c \<in> set (commands (view s)). length c < BUFFER_SIZE) \<longrightarrow> length bytes < BUFFER_SIZE"
    by (rule undisturbed_read [OF q assms(2,4) rd])
  let ?buf = "bytes @ drop (length bytes) buf"
  have out: "if r \<le> 0 then message = None \<and> d = d'
      else \<exists>m. c_string (map Some ?buf) = Some m \<and> message = Some (m, ?buf) \<and> d = d'"
    using assms(7) rd by (auto simp: send_pass_def Let_def bind_eq_Some_conv split: if_splits)
  show thesis
  proof (rule that [of f' s'])
    show "d = (s_kernel S, f', s')" using out d'(1) by (auto split: if_splits)
  next
    have "length ?buf = BUFFER_SIZE" using d'(6) assms(5) by simp
    moreover have "last ?buf = 0" if "line_log ws"
    proof -
      have "length bytes < length buf" using d'(7) line_log_view [OF assms(3) that] assms(5) by simp
      then show ?thesis using that assms(6) by simp
    qed
    ultimately show "\<forall>m buf'. message = Some (m, buf') \<longrightarrow> length buf' = BUFFER_SIZE \<and> (line_log ws \<longrightarrow> last buf' = 0)"
      using out by (auto split: if_splits)
  next
    show "\<forall>k \<le> length ws. line_log ws \<and> length ws \<le> 10 \<and> unat (f_pos f) = length (concat (map snd (take k ws))) \<longrightarrow>
       (case message of
          None \<Rightarrow> k = length ws
        | Some (m, buf') \<Rightarrow> k < length ws \<and> unat (f_pos f') = length (concat (map snd (take (Suc k) ws))) \<and>
            buf' = snd (ws ! k) @ drop (length (snd (ws ! k))) buf \<and> m = takeWhile (\<lambda>x. x \<noteq> 0) buf')"
    proof (intro allI impI)
      fix k
      assume k: "k \<le> length ws"
        and log: "line_log ws \<and> length ws \<le> 10 \<and> unat (f_pos f) = length (concat (map snd (take k ws)))"
      have cmds: "commands (view s) = map snd ws" using line_log_view [OF assms(3)] log by simp
      have src: "source_inv (s_kernel S, f, s)"
        using q assms(2,4) line_log_view [OF assms(3)] log by (simp add: source_inv_def)
      have pos: "unat (f_pos f) = length (concat (take k (commands (view s))))"
        using log by (simp add: cmds take_map)
      note step = read_at_boundary [OF src pos rd [unfolded d'(1)]]
      show "case message of
          None \<Rightarrow> k = length ws
        | Some (m, buf') \<Rightarrow> k < length ws \<and> unat (f_pos f') = length (concat (map snd (take (Suc k) ws))) \<and>
            buf' = snd (ws ! k) @ drop (length (snd (ws ! k))) buf \<and> m = takeWhile (\<lambda>x. x \<noteq> 0) buf'"
      proof (cases "k < length ws")
        case False
        then show ?thesis using step out k cmds by simp
      next
        case True
        have "newline \<in> set (snd (ws ! k))" using log nth_mem [OF True] by (simp add: line_log_def)
        then have ne: "snd (ws ! k) \<noteq> []" by auto
        have b: "bytes = snd (ws ! k)" "r = int (length bytes)"
          "unat (f_pos f') = length (concat (map snd (take (Suc k) ws)))"
          using step True cmds by (simp_all add: take_map)
        then obtain m where m: "c_string (map Some ?buf) = Some m" "message = Some (m, ?buf)"
          using out ne by (auto split: if_splits)
        have "length bytes < length buf" using d'(7) line_log_view [OF assms(3)] log assms(5) by simp
        then have "last ?buf = 0" "?buf \<noteq> []" using log assms(6) by auto
        then have "0 \<in> set ?buf" using last_in_set [of ?buf] by simp
        then have "m = takeWhile (\<lambda>x. x \<noteq> 0) ?buf" using m(1) c_string_array [of ?buf] by simp
        then show ?thesis using True b m(2) by simp
      qed
    qed
  qed (use d' in simp_all)
qed

lemma told_Suc:
  assumes "k < length ws"
  shows "told client ws (Suc k) = told client ws k @
    [EvSend client (takeWhile (\<lambda>x. x \<noteq> 0) (overlay (replicate BUFFER_SIZE 0) (map snd (take (Suc k) ws))))]"
  using assms by (simp add: told_def take_Suc_conv_app_nth replies_snoc)

lemma own_reply:
  assumes "step_env_ok S" "conn_ok ws out i c" "dev_inv s" "healthy s" "c_phase c = Replying fd buf"
    and "view s = fold spec_write (map snd ws) \<lparr>commands = [], partial = []\<rparr>"
    and "thread_step (driver_ops (s_fd S) (s_arg S)) E g r (c_args c) (c_phase c) n (s_kernel S, c_file c, s) =
      Some (Goes args ph evs n' d)"
  obtains f s' where "d = (s_kernel S, f, s')" "dev_inv s'" "healthy s'" "view s' = view s"
    "conn_ok ws (out @ map (Pair i) evs) i \<lparr>c_args = args, c_phase = ph, c_file = f\<rparr>"
proof -
  have c: "private_data (c_file c) = AesdDevice" "length buf = BUFFER_SIZE" "line_log ws \<longrightarrow> last buf = 0"
    "tracked ws i \<longrightarrow> replied ws (sent_to i out) (client_fd (c_args c)) (c_file c) buf"
    using assms(2,5) by (simp_all add: conn_ok_def)
  obtain message d' where sp: "send_pass sys_read buf (s_kernel S, c_file c, s) = Some (message, d')"
    using assms(5,7) by (auto simp: thread_step_def driver_ops_def bind_eq_Some_conv)
  obtain f s' where st: "d' = (s_kernel S, f, s')" "private_data f = AesdDevice" "dev_inv s'" "view s' = view s"
    "working s' = working s"
    "\<forall>m buf'. message = Some (m, buf') \<longrightarrow> length buf' = BUFFER_SIZE \<and> (line_log ws \<longrightarrow> last buf' = 0)"
    "\<forall>k \<le> length ws. line_log ws \<and> length ws \<le> 10 \<and> unat (f_pos (c_file c)) = length (concat (map snd (take k ws))) \<longrightarrow>
       (case message of
          None \<Rightarrow> k = length ws
        | Some (m, buf') \<Rightarrow> k < length ws \<and> unat (f_pos f) = length (concat (map snd (take (Suc k) ws))) \<and>
            buf' = snd (ws ! k) @ drop (length (snd (ws ! k))) buf \<and> m = takeWhile (\<lambda>x. x \<noteq> 0) buf')"
    by (rule reply_pass [OF assms(1,3,6) c(1-3) sp])
  have at: "case message of
      None \<Rightarrow> served ws (sent_to i out @ [EvClose fd, EvClose (client_fd (c_args c))]) (client_fd (c_args c)) i
    | Some (m, buf') \<Rightarrow> replied ws (sent_to i out @ [EvSend (client_fd (c_args c)) m]) (client_fd (c_args c)) f buf'"
    if tr: "tracked ws i"
  proof -
    obtain k where k: "k \<le> length ws" "unat (f_pos (c_file c)) = length (concat (map snd (take k ws)))"
      "sent_to i out = told (client_fd (c_args c)) ws k" "buf = overlay (replicate BUFFER_SIZE 0) (map snd (take k ws))"
      using c(4) tr by (auto simp: replied_def)
    have log: "line_log ws" "length ws \<le> 10" "i \<in> fst ` set ws" using tr by (simp_all add: tracked_def)
    note ahead = st(7) [rule_format, OF k(1)]
    show ?thesis
    proof (cases message)
      case None
      then have "k = length ws" using ahead log k(2) by simp
      then show ?thesis using None log k(3) unfolding served_def by (auto intro!: exI [of _ "length ws"])
    next
      case (Some m)
      obtain s2 buf' where m: "m = (s2, buf')" by (cases m)
      have n: "k < length ws" "unat (f_pos f) = length (concat (map snd (take (Suc k) ws)))"
        "buf' = snd (ws ! k) @ drop (length (snd (ws ! k))) buf" "s2 = takeWhile (\<lambda>x. x \<noteq> 0) buf'"
        using ahead log k(2) Some m by simp_all
      have "buf' = overlay (replicate BUFFER_SIZE 0) (map snd (take (Suc k) ws))"
        using n(1,3) k(4) by (simp add: take_Suc_conv_app_nth overlay_snoc)
      then show ?thesis
        using n k(3) Some m told_Suc [OF n(1)] unfolding replied_def by (auto intro!: exI [of _ "Suc k"])
    qed
  qed
  have healthy: "healthy s'" using st(5) assms(4) by (simp add: healthy_def)
  show thesis
  proof (cases message)
    case None
    then have "args = (c_args c)\<lparr>thread_complete := True\<rparr>" "ph = Finished"
      "evs = [EvClose fd, EvClose (client_fd (c_args c))]" "d = d'"
      using assms(5,7) sp by (simp_all add: thread_step_def driver_ops_def)
    then show thesis
      using that [of f s'] st healthy at None by (auto simp: conn_ok_def)
  next
    case (Some m)
    obtain s2 buf' where m: "m = (s2, buf')" by (cases m)
    then have "args = c_args c" "ph = Replying fd buf'" "evs = [EvSend (client_fd (c_args c)) s2]" "d = d'"
      using assms(5,7) sp Some by (auto simp: thread_step_def driver_ops_def)
    then show thesis
      using that [of f s'] st healthy at Some m by (auto simp: conn_ok_def)
  qed
qed

text \<open>A step of a connection, in any phase.\<close>

definition own_result ::
  "step_env \<Rightarrow> (nat \<times> byte list) list \<Rightarrow> (nat \<times> server_event) list \<Rightarrow> nat \<Rightarrow> kstate \<Rightarrow> byte list list \<Rightarrow>
   connection \<Rightarrow> kstate \<Rightarrow> server_event list \<Rightarrow> bool" where
  "own_result S ws out i s ps c' s' evs \<longleftrightarrow>
     dev_inv s' \<and> healthy s' \<and> view s' = fold spec_write ps (view s) \<and>
     conn_ok (ws @ map (Pair i) ps) (out @ map (Pair i) evs) i c' \<and>
     (ps = [] \<or> (\<exists>p. ps = [p] \<and> chunk_ok p \<and> i \<notin> fst ` set ws))"

lemma before_writing_same: "before_writing (ws @ []) (out @ []) i = before_writing ws out i"
  by simp

lemma own_handling:
  assumes "step_env_ok S" "conn_ok ws out i c" "dev_inv s" "healthy s" "c_phase c = Handling fd buffer"
    and "thread_step (driver_ops (s_fd S) (s_arg S)) E g r (c_args c) (c_phase c) n (s_kernel S, c_file c, s) =
      Some (Goes args ph evs n' d)"
  obtains f s' where "d = (s_kernel S, f, s')"
    "own_result S ws out i s (written_by (c_phase c)) \<lparr>c_args = args, c_phase = ph, c_file = f\<rparr> s' evs"
proof -
  obtain p where c: "before_writing ws out i" "c_string buffer = Some p" "packet_ok True p"
    "private_data (c_file c) = AesdDevice" "f_pos (c_file c) = 0"
    using assms(2,5) by (auto simp: conn_ok_def)
  obtain handled where hp: "handle_packet (driver_ops (s_fd S) (s_arg S)) g buffer (s_kernel S, c_file c, s) = Some handled"
    using assms(5,6) by (auto simp: thread_step_def bind_eq_Some_conv)
  then have h: "handle_packet (driver_ops (s_fd S) (s_arg S)) g buffer (s_kernel S, c_file c, s) = Some (Inr d)"
    and goes: "args = c_args c" "ph = Replying fd (replicate BUFFER_SIZE 0)" "evs = []"
    using assms(5,6) by (cases handled; auto simp: thread_step_def)+
  have small: "length p < 2 ^ 31" using c(3) by (simp add: packet_ok_def)
  have q: "quiet (s_kernel S)" "env_ok (s_kernel S)" using assms(1) by (simp_all add: step_env_ok_def)
  let ?ps = "written_by (Handling fd buffer)"
  obtain f s' where st: "d = (s_kernel S, f, s')" "private_data f = AesdDevice" "dev_inv s'" "healthy s'"
    "view s' = fold spec_write ?ps (view s)" "?ps \<noteq> [] \<longrightarrow> f = c_file c"
    by (rule handle_packet_effect [OF q assms(3,4) c(4,2) small h])
  have ps: "?ps = [] \<or> ?ps = [p]"
    using c(2) by (auto simp: written_by_def split: option.splits bool.splits)
  have fresh: "i \<notin> fst ` set ws" "sent_to i out = []" using c(1) by (simp_all add: before_writing_def)
  have "tracked (ws @ map (Pair i) ?ps) i \<longrightarrow> replied (ws @ map (Pair i) ?ps) [] (client_fd (c_args c)) f (replicate BUFFER_SIZE 0)"
  proof
    assume "tracked (ws @ map (Pair i) ?ps) i"
    then have "?ps \<noteq> []" using fresh by (auto simp: tracked_def)
    then have "f_pos f = 0" using st(6) c(5) by simp
    then show "replied (ws @ map (Pair i) ?ps) [] (client_fd (c_args c)) f (replicate BUFFER_SIZE 0)"
      unfolding replied_def by (intro exI [of _ 0]) (simp add: told_def overlay_def)
  qed
  moreover have "last (replicate BUFFER_SIZE (0 :: byte)) = 0" by (simp add: BUFFER_SIZE_def)
  moreover have "chunk_ok p" using c(3) by (simp add: packet_ok_def chunk_ok_def)
  ultimately have "own_result S ws out i s ?ps \<lparr>c_args = args, c_phase = ph, c_file = f\<rparr> s' evs"
    using st ps fresh goes by (auto simp: own_result_def conn_ok_def)
  then show thesis using that st(1) assms(5) by simp
qed

lemma own_step:
  assumes "step_env_ok S" "conn_ok ws out i c" "dev_inv s" "healthy s"
    and "view s = fold spec_write (map snd ws) \<lparr>commands = [], partial = []\<rparr>"
    and step: "thread_step (driver_ops (s_fd S) (s_arg S)) E g (s_recv S) (c_args c) (c_phase c) n (s_kernel S, c_file c, s) =
      Some (Goes args ph evs n' d)"
  obtains f s' where "d = (s_kernel S, f, s')"
    "own_result S ws out i s (written_by (c_phase c)) \<lparr>c_args = args, c_phase = ph, c_file = f\<rparr> s' evs"
proof (cases "c_phase c")
  case Starting
  have "packet_ok False []" by (simp add: packet_ok_def)
  then show thesis
    using that [of "c_file c" s] assms Starting
    by (auto simp: own_result_def thread_step_def conn_ok_def written_by_def empty_buffer split: if_splits)
next
  case (Receiving buffer)
  obtain d0 where d0: "c_string buffer = Some d0" "packet_ok False d0" "before_writing ws out i"
    using assms(2) Receiving by (auto simp: conn_ok_def)
  obtain res where res: "recv_pass (realloc_ok E) (s_recv S) buffer (replicate BUFFER_SIZE 0) n = Some res"
    using step Receiving by (auto simp: thread_step_def bind_eq_Some_conv)
  then obtain complete buffer' where got: "recv_pass (realloc_ok E) (s_recv S) buffer (replicate BUFFER_SIZE 0) n =
      Some (Inr (complete, buffer', n'))" "args = c_args c" "evs = []" "d = (s_kernel S, c_file c, s)"
    "ph = (if complete then Opening buffer' else Receiving buffer')"
    using step Receiving by (cases res) (auto simp: thread_step_def)
  have "\<exists>p. c_string buffer' = Some p \<and> packet_ok complete p"
    using recv_pass_string [OF got(1) d0(1,2)] assms(1) by (simp add: step_env_ok_def)
  then show thesis
    using that [of "c_file c" s] assms(3,4) got d0(3) Receiving
    by (cases complete) (auto simp: own_result_def conn_ok_def written_by_def)
next
  case (Opening buffer)
  then show thesis
    using that [of "\<lparr>f_pos = 0, private_data = AesdDevice\<rparr>" s] assms
    by (auto simp: own_result_def conn_ok_def written_by_def thread_step_def driver_ops_def open_file split: if_splits)
next
  case (Handling fd buffer)
  then show thesis using own_handling [OF assms(1-4) Handling step] that by blast
next
  case (Replying fd buf)
  then show thesis
    using own_reply [OF assms(1-4) Replying assms(5) step] that
    by (auto simp: own_result_def written_by_def)
next
  case Finished
  then show thesis using step by (simp add: thread_step_def)
qed

lemma conn_ok_new: "before_writing ws out i \<Longrightarrow> conn_ok ws out i (new_connection args)"
  by (simp add: conn_ok_def new_connection_def)

lemma serving_inv_accept:
  assumes "serving_inv y ws out"
  shows "serving_inv (y\<lparr>connections := connections y @ [new_connection args]\<rparr>) ws out"
proof -
  let ?n = "length (connections y)"
  have "before_writing ws out ?n"
    using assms unfolding serving_inv_def before_writing_def sent_to_def
    by (auto simp: filter_empty_conv)
  then show ?thesis
    using assms conn_ok_new unfolding serving_inv_def by (auto simp: nth_append less_Suc_eq)
qed

lemma serving_inv_move:
  assumes "serving_inv y ws out" "step_env_ok S" "connection_step g S i y = Some (Inr (evs, y'))"
  shows "serving_inv y' (ws @ map (Pair i) (written_by (c_phase (connections y ! i)))) (out @ map (Pair i) evs)"
proof -
  let ?c = "connections y ! i"
  note inv = assms(1) [unfolded serving_inv_def]
  have i: "i < length (connections y)"
    using assms(3) by (auto simp: connection_step_def arr_get_def bind_eq_Some_conv split: if_splits)
  obtain res where res: "thread_step (driver_ops (s_fd S) (s_arg S)) (s_memory S) g (s_recv S) (c_args ?c) (c_phase ?c)
      (counted y) (s_kernel S, c_file ?c, kernel y) = Some res"
    using assms(3) i by (auto simp: connection_step_def access_simps bind_eq_Some_conv)
  obtain args ph n d where goes: "res = Goes args ph evs n d"
    and y': "case d of (_, f, s) \<Rightarrow> y' = \<lparr>kernel = s, counted = n,
      connections = (connections y)[i := \<lparr>c_args = args, c_phase = ph, c_file = f\<rparr>]\<rparr>"
    using assms(3) i res by (cases res) (auto simp: connection_step_def access_simps)
  let ?ps = "written_by (c_phase ?c)"
  obtain f s' where own: "d = (s_kernel S, f, s')"
    "own_result S ws out i (kernel y) ?ps \<lparr>c_args = args, c_phase = ph, c_file = f\<rparr> s' evs"
    by (rule own_step [OF assms(2), of ws out i ?c "kernel y"]) (use inv i res goes in auto)
  have y2: "kernel y' = s'" "connections y' = (connections y)[i := \<lparr>c_args = args, c_phase = ph, c_file = f\<rparr>]"
    using y' own(1) by simp_all
  note o = own(2) [unfolded own_result_def]
  have "conn_ok (ws @ map (Pair i) ?ps) (out @ map (Pair i) evs) j (connections y' ! j)"
    if "j < length (connections y')" for j
    using that inv o conn_ok_frame [of ws out j "connections y ! j" i ?ps evs] y2 i
    by (cases "j = i") auto
  moreover have "distinct (map fst (ws @ map (Pair i) ?ps))" using inv o by auto
  moreover have "\<forall>w \<in> set (ws @ map (Pair i) ?ps). fst w < length (connections y') \<and> chunk_ok (snd w)"
    using inv o i y2 by auto
  moreover have "map snd (map (Pair i) ?ps) = ?ps" by (simp add: comp_def)
  ultimately show ?thesis
    using inv o i y2 unfolding serving_inv_def by auto
qed

lemma serving_invariant: "serving g y ws out \<Longrightarrow> serving_inv y ws out"
proof (induction rule: serving.induct)
  case start
  then show ?case by (simp add: serving_inv_def fresh_state)
next
  case accept
  then show ?case by (simp add: serving_inv_accept)
next
  case move
  then show ?case by (simp add: serving_inv_move)
qed

end
