(* ===== verification/Concurrent_Clients.thy ===== *)
theory Concurrent_Clients
  imports Server_Concurrent
begin

text \<open>
  What many clients get from the server at once. A new client can be taken from its connection to its last
  message while the others stand still anywhere; every step of a well-typed state is defined; the packets
  of different clients stay apart, and every client sees a prefix of the common order.
\<close>

section \<open>Serving one more client\<close>

lemma serving_moveI:
  assumes "serving g \<lparr>kernel = s, counted = n, connections = cs @ [\<lparr>c_args = a, c_phase = ph, c_file = f\<rparr>]\<rparr> ws out"
    and "step_env_ok S"
    and "thread_step (driver_ops (s_fd S) (s_arg S)) (s_memory S) g (s_recv S) a ph n (s_kernel S, f, s) =
      Some (Goes a' ph' evs n' (K, f', s'))"
  shows "serving g \<lparr>kernel = s', counted = n', connections = cs @ [\<lparr>c_args = a', c_phase = ph', c_file = f'\<rparr>]\<rparr>
    (ws @ map (Pair (length cs)) (written_by ph)) (out @ map (Pair (length cs)) evs)"
proof -
  have "connection_step g S (length cs) \<lparr>kernel = s, counted = n, connections = cs @ [\<lparr>c_args = a, c_phase = ph, c_file = f\<rparr>]\<rparr> =
      Some (Inr (evs, \<lparr>kernel = s', counted = n', connections = cs @ [\<lparr>c_args = a', c_phase = ph', c_file = f'\<rparr>]\<rparr>))"
    using assms(3) by (simp add: connection_step_def arr_get_def)
  from serving.move [OF assms(1,2) this] show ?thesis by simp
qed

text \<open>A thread that replies on its own reaches its end.\<close>

lemma serving_reply:
  assumes "send_loop rd client buf evs d = Some r" "rd = sys_read" "d = (K, f, s)" "client = client_fd a"
    and "serving g \<lparr>kernel = s, counted = n, connections = cs @ [\<lparr>c_args = a, c_phase = Replying fd buf, c_file = f\<rparr>]\<rparr>
      ws (out @ map (Pair (length cs)) evs)"
    and "step_env_ok S" "s_kernel S = K"
  shows "\<exists>f' s'. serving g \<lparr>kernel = s', counted = n, connections = cs @ [\<lparr>c_args = a\<lparr>thread_complete := True\<rparr>,
      c_phase = Finished, c_file = f'\<rparr>]\<rparr> ws (out @ map (Pair (length cs)) (fst r @ [EvClose fd, EvClose client]))"
  using assms
proof (induction rd client buf evs d r arbitrary: f s rule: send_loop.raw_induct [rotated, consumes 1, case_names step])
  case (step rec rd client buf evs d r)
  have env: "step_env_ok S" "s_kernel S = K" using step.prems by simp_all
  have d: "d = (s_kernel S, f, s)" and client: "client = client_fd a" using step.prems by simp_all
  obtain k bytes d2 where rd: "sys_read d BUFFER_SIZE = Some (k, bytes, d2)"
    using step.hyps step.prems(1) by (auto simp: bind_eq_Some_conv)
  obtain f2 s2 where d2: "d2 = (s_kernel S, f2, s2)"
    using rd d by (auto simp: sys_read_def bind_eq_Some_conv)
  have move: "serving g \<lparr>kernel = s2, counted = n, connections = cs @ [\<lparr>c_args = a', c_phase = ph', c_file = f2\<rparr>]\<rparr>
      ws (out @ map (Pair (length cs)) (evs @ evs'))"
    if "thread_step (driver_ops (s_fd S) (s_arg S)) (s_memory S) g (s_recv S) a (Replying fd buf) n d = Some (Goes a' ph' evs' n d2)"
    for a' ph' evs'
    using serving_moveI [OF step.prems(4) env(1) that [unfolded d d2]] by (simp add: written_by_def)
  show ?case
  proof (cases "k \<le> 0")
    case True
    then have "r = (evs, d2)" using step.hyps step.prems(1) rd by auto
    then show ?thesis
      using move [of "a\<lparr>thread_complete := True\<rparr>" Finished "[EvClose fd, EvClose (client_fd a)]"] rd True client
      by (auto simp: thread_step_def driver_ops_def send_pass_def)
  next
    case False
    let ?buf = "bytes @ drop (length bytes) buf"
    obtain m where m: "c_string (map Some ?buf) = Some m" "rec rd client ?buf (evs @ [EvSend client m]) d2 = Some r"
      using step.hyps step.prems(1) rd False by (auto simp: bind_eq_Some_conv Let_def)
    have "serving g \<lparr>kernel = s2, counted = n, connections = cs @ [\<lparr>c_args = a, c_phase = Replying fd ?buf, c_file = f2\<rparr>]\<rparr>
        ws (out @ map (Pair (length cs)) (evs @ [EvSend client m]))"
      using m rd False client by (intro move) (simp add: thread_step_def driver_ops_def send_pass_def Let_def)
    then show ?thesis
      using step.IH [OF m(2) step.prems(1) _ client _ env(1)] d2 env(2) by simp
  qed
qed

section \<open>Every step is defined\<close>

text \<open>What the local variables of a connection look like in each phase.\<close>

definition well_typed :: "connection \<Rightarrow> bool" where
  "well_typed c \<longleftrightarrow>
     (case c_phase c of
        Starting \<Rightarrow> True
      | Receiving buffer \<Rightarrow> \<exists>d. c_string buffer = Some d \<and> packet_ok False d
      | Opening buffer \<Rightarrow> \<exists>p. c_string buffer = Some p \<and> packet_ok True p
      | Handling fd buffer \<Rightarrow> (\<exists>p. c_string buffer = Some p \<and> packet_ok True p) \<and> private_data (c_file c) = AesdDevice
      | Replying fd buf \<Rightarrow> private_data (c_file c) = AesdDevice \<and> length buf = BUFFER_SIZE
      | Finished \<Rightarrow> thread_complete (c_args c))"

lemma conn_ok_typed: "conn_ok ws out i c \<Longrightarrow> well_typed c"
  by (cases "c_phase c") (auto simp: conn_ok_def well_typed_def)

text \<open>The steps of the outside that the code copes with: a packet comes in one piece, a seek does not name
  command ten.\<close>

definition step_ready :: "step_env \<Rightarrow> server_run \<Rightarrow> connection \<Rightarrow> bool" where
  "step_ready S y c \<longleftrightarrow>
     (case c_phase c of
        Receiving buffer \<Rightarrow>
          (\<forall>xs. s_recv S = Received xs \<longrightarrow> buffer = replicate BUFFER_SIZE (Some 0) \<and> xs \<noteq> [] \<and>
            last xs = newline \<and> newline \<notin> set (butlast xs) \<and> 0 \<notin> set xs \<and> length xs < 1024 \<and>
            counted y + int (length xs) \<le> 2147483647)
      | Handling fd buffer \<Rightarrow>
          (\<forall>p x y. c_string buffer = Some (seekto_prefix @ p) \<and> parse_seekto p = Some (x, y) \<longrightarrow> x \<noteq> 10)
      | Finished \<Rightarrow> False
      | _ \<Rightarrow> True)"

lemma serve_client:
  assumes "serving g y ws out" "line_log ws" "step_env_ok S"
    and "0 \<notin> set xs" "newline \<notin> set xs" "length xs < 1023" "take 19 (xs @ [newline]) \<noteq> seekto_prefix"
    and "counted y + int (length xs) < 2147483647" "s_fd S \<noteq> - 1" "s_recv S = Received (xs @ [newline])"
    and "malloc_ok (s_memory S)" "realloc_ok (s_memory S) (length xs + 2)"
    and "fst (the (write_alloc (s_kernel S) (word_of_nat (length xs + 1)) (set_lock True (kernel y)))) \<noteq> 0"
  shows "\<exists>y' c. serving g y' (ws @ [(length (connections y), xs @ [newline])])
      (out @ map (Pair (length (connections y)))
        (map (EvSend (client_fd (args :: thread_data))) (replies (replicate BUFFER_SIZE 0) (keep_last 10 (map snd ws @ [xs @ [newline]]))) @
         [EvClose (s_fd S), EvClose (client_fd args)])) \<and>
    connections y' = connections y @ [c] \<and> c_phase c = Finished \<and> c_args c = args\<lparr>thread_complete := True\<rparr>"
proof -
  let ?p = "xs @ [newline]" and ?cs = "connections y" and ?K = "s_kernel S"
  let ?f = "\<lparr>f_pos = 0, private_data = AesdDevice\<rparr>"
  note inv = serving_invariant [OF assms(1), unfolded serving_inv_def]
  have q: "quiet ?K" using assms(3) by (simp add: step_env_ok_def)
  have cmds: "commands (view (kernel y)) = keep_last 10 (map snd ws)" "\<forall>c \<in> set (commands (view (kernel y))). length c < BUFFER_SIZE"
    using line_log_view [of "kernel y" ws] inv assms(2) by blast+
  have part: "partial (view (kernel y)) = []" using inv line_log_writes [OF assms(2)] by simp
  have 1: "serving g \<lparr>kernel = kernel y, counted = counted y, connections = ?cs @ [new_connection args]\<rparr> ws out"
    using serving.accept [OF assms(1), of args] by (cases y) simp
  have 2: "serving g \<lparr>kernel = kernel y, counted = counted y, connections = ?cs @ [\<lparr>c_args = args,
      c_phase = Receiving (replicate BUFFER_SIZE (Some 0)), c_file = \<lparr>f_pos = 0, private_data = NoDevice\<rparr>\<rparr>]\<rparr> ws out"
    using serving_moveI [OF 1 [unfolded new_connection_def] assms(3)] assms(11)
    by (force simp: thread_step_def written_by_def)
  obtain buffer where b: "recv_pass (realloc_ok (s_memory S)) (s_recv S) (replicate BUFFER_SIZE (Some 0)) (replicate BUFFER_SIZE 0) (counted y) =
      Some (Inr (True, buffer, counted y + int (length xs) + 1))" "c_string buffer = Some ?p"
    using recv_pass_whole [OF assms(4-6,8), of "realloc_ok (s_memory S)"] assms(10,12) by metis
  let ?n = "counted y + int (length xs) + 1"
  have 3: "serving g \<lparr>kernel = kernel y, counted = ?n, connections = ?cs @ [\<lparr>c_args = args,
      c_phase = Opening buffer, c_file = \<lparr>f_pos = 0, private_data = NoDevice\<rparr>\<rparr>]\<rparr> ws out"
    using serving_moveI [OF 2 assms(3)] b(1) by (force simp: thread_step_def written_by_def)
  have 4: "serving g \<lparr>kernel = kernel y, counted = ?n, connections = ?cs @ [\<lparr>c_args = args,
      c_phase = Handling (s_fd S) buffer, c_file = ?f\<rparr>]\<rparr> ws out"
    using serving_moveI [OF 3 assms(3)] assms(9) by (force simp: thread_step_def written_by_def driver_ops_def open_file)
  obtain s' where w: "sys_write (?K, ?f, kernel y) ?p = Some (int (length ?p), (?K, ?f, s'))" "dev_inv s'" "healthy s'"
    "view s' = spec_write ?p (view (kernel y))"
    by (rule quiet_write [OF q, of "kernel y" ?f ?p]) (use inv assms(6,13) in simp_all)
  have nocmd: "strncmp_eq buffer seekto_prefix = Some False"
    using strncmp_eq_string [OF b(2) seekto_prefix_facts(2)] assms(7) by (simp add: seekto_prefix_facts(1))
  have handled: "handle_packet (driver_ops (s_fd S) (s_arg S)) g buffer (?K, ?f, kernel y) = Some (Inr (?K, ?f, s'))"
    using nocmd b(2) w(1) by (simp add: handle_packet_def driver_ops_def)
  have "written_by (Handling (s_fd S) buffer) = [?p]" using nocmd b(2) by (simp add: written_by_def)
  then have 5: "serving g \<lparr>kernel = s', counted = ?n, connections = ?cs @ [\<lparr>c_args = args,
      c_phase = Replying (s_fd S) (replicate BUFFER_SIZE 0), c_file = ?f\<rparr>]\<rparr> (ws @ [(length ?cs, ?p)]) (out @ map (Pair (length ?cs)) [])"
    using serving_moveI [OF 4 assms(3)] handled by (force simp: thread_step_def)
  have view: "commands (view s') = keep_last 10 (map snd ws @ [?p])"
    using w(4) part cmds(1) by (simp add: spec_write_def keep_last_append_absorb)
  have "\<forall>c \<in> set (keep_last 10 (map snd ws @ [?p])). length c < BUFFER_SIZE"
    using set_keep_last [of 10 "map snd ws @ [?p]"] assms(2,6) by (fastforce simp: line_log_def BUFFER_SIZE_def)
  then have "source_inv (?K, ?f, s')" using q w(2) view by (simp add: source_inv_def)
  then obtain f'' s'' where reply: "send_loop sys_read (client_fd args) (replicate BUFFER_SIZE 0) [] (?K, ?f, s') =
      Some (map (EvSend (client_fd args)) (replies (replicate BUFFER_SIZE 0) (keep_last 10 (map snd ws @ [?p]))), (?K, f'', s''))"
    by (rule driver_replies) (simp_all add: view)
  obtain f' s2 where 6: "serving g \<lparr>kernel = s2, counted = ?n, connections = ?cs @ [\<lparr>c_args = args\<lparr>thread_complete := True\<rparr>,
      c_phase = Finished, c_file = f'\<rparr>]\<rparr> (ws @ [(length ?cs, ?p)])
      (out @ map (Pair (length ?cs)) (map (EvSend (client_fd args)) (replies (replicate BUFFER_SIZE 0) (keep_last 10 (map snd ws @ [?p]))) @
         [EvClose (s_fd S), EvClose (client_fd args)]))"
    using serving_reply [OF reply refl refl refl 5 assms(3) refl] by auto
  show ?thesis
    by (rule exI, rule exI [where x = "\<lparr>c_args = args\<lparr>thread_complete := True\<rparr>, c_phase = Finished, c_file = f'\<rparr>"],
        rule conjI, rule 6) simp
qed

lemma recv_pass_defined:
  assumes "xs \<noteq> []" "last xs = newline" "newline \<notin> set (butlast xs)" "0 \<notin> set xs" "length xs < 1024"
    and "n + int (length xs) \<le> 2147483647"
  shows "recv_pass ok (Received xs) (replicate BUFFER_SIZE (Some 0)) (replicate BUFFER_SIZE 0) n \<noteq> None"
proof (cases "ok (length xs + 1)")
  case True
  obtain ys where xs: "xs = ys @ [newline]" using assms(1,2) by (metis append_butlast_last_id)
  show ?thesis
    by (rule recv_pass_whole [of ys n ok]) (use assms True xs in auto)
next
  case False
  obtain ys where xs: "xs = ys @ [newline]" using assms(1,2) by (metis append_butlast_last_id)
  have "scan_newline (xs @ drop (length xs) (replicate BUFFER_SIZE 0)) 0 = (length xs, True)"
    using scan_newline_found [of ys "drop (length xs) (replicate BUFFER_SIZE 0)" 0] assms(3) xs by simp
  then show ?thesis using False assms(6) by (simp add: recv_pass_def)
qed

lemma handling_defined:
  assumes "step_env_ok S" "dev_inv s" "healthy s" "private_data f = AesdDevice" "c_string buffer = Some p" "packet_ok True p"
    and "\<forall>q x y. p = seekto_prefix @ q \<and> parse_seekto q = Some (x, y) \<longrightarrow> x \<noteq> 10"
  shows "handle_packet (driver_ops fd arg) g buffer (s_kernel S, f, s) \<noteq> None"
proof -
  have q: "quiet (s_kernel S)" "env_ok (s_kernel S)" using assms(1) by (simp_all add: step_env_ok_def)
  have cmd: "strncmp_eq buffer seekto_prefix = Some (take 19 p = seekto_prefix)"
    using strncmp_eq_string [OF assms(5) seekto_prefix_facts(2)] by (simp add: seekto_prefix_facts(1))
  show ?thesis
  proof (cases "take 19 p = seekto_prefix")
    case False
    have "sys_write (s_kernel S, f, s) p \<noteq> None"
      by (rule undisturbed_write [OF q(1) assms(2-4), of p]) (use assms(6) in \<open>simp_all add: packet_ok_def\<close>)
    then show ?thesis using cmd False assms(5) by (auto simp: handle_packet_def driver_ops_def)
  next
    case True
    then have p: "p = seekto_prefix @ drop 19 p" by (metis append_take_drop_id)
    have "sys_ioctl arg (s_kernel S, f, s) x y \<noteq> None" if "parse_seekto (drop 19 p) = Some (x, y)" for x y
    proof -
      have x: "x \<noteq> 10" using assms(7) p that by blast
      obtain r f' s' where "aesd_ioctl (s_kernel S) (Some f) (AESDCHAR_IOCSEEKTO (s_kernel S)) arg
          \<lparr>write_cmd = x, write_cmd_offset = y\<rparr> s = Some (r, Some f', s')"
        by (rule ioctl_step [of "s_kernel S" s f 0 "AESDCHAR_IOCSEEKTO (s_kernel S)" arg "\<lparr>write_cmd = x, write_cmd_offset = y\<rparr>"])
          (use q x assms(2,4) in \<open>simp_all add: env_ok_def\<close>)
      then show ?thesis by (simp add: sys_ioctl_def aesd_fops_def)
    qed
    then show ?thesis
      using cmd True assms(5) by (auto simp: handle_packet_def driver_ops_def seekto_prefix_facts(1) split: option.splits)
  qed
qed

lemma replying_defined:
  assumes "step_env_ok S" "dev_inv s" "private_data f = AesdDevice" "length buf = BUFFER_SIZE" "last buf = 0"
    and "\<forall>c \<in> set (commands (view s)). length c < BUFFER_SIZE"
  shows "send_pass sys_read buf (s_kernel S, f, s) \<noteq> None"
proof -
  have q: "quiet (s_kernel S)" using assms(1) by (simp add: step_env_ok_def)
  then have "source_inv (s_kernel S, f, s)" using assms by (simp add: source_inv_def)
  then obtain r bytes d where rd: "sys_read (s_kernel S, f, s) BUFFER_SIZE = Some (r, bytes, d)"
    by (rule source_read) blast
  have "length bytes < BUFFER_SIZE"
    by (rule undisturbed_read [OF q assms(2,3) rd]) (use assms(6) in blast)
  then have "last (bytes @ drop (length bytes) buf) = 0" "bytes @ drop (length bytes) buf \<noteq> []" using assms(4,5) by auto
  then have "0 \<in> set (bytes @ drop (length bytes) buf)" using last_in_set by metis
  then show ?thesis using rd c_string_array by (cases d) (simp add: send_pass_def Let_def del: map_append set_append)
qed

section \<open>A run with one client\<close>

text \<open>One client that sends \<open>hi\<close> and a newline.\<close>

definition demo_step :: step_env where
  "demo_step = \<lparr>s_kernel = demo_kernel, s_fd = 3, s_arg = 4096,
     s_memory = \<lparr>malloc_ok = True, realloc_ok = (\<lambda>n. True), arrivals = []\<rparr>, s_recv = Received [104, 105, 10]\<rparr>"

lemma demo_step_ok: "step_env_ok demo_step"
  by (simp add: step_env_ok_def demo_step_def demo_quiet demo_env_ok BUFFER_SIZE_def)

lemma demo_packet: "take 19 ([104, 105] @ [newline]) \<noteq> seekto_prefix"
  "fst (the (write_alloc (s_kernel demo_step) (word_of_nat (length [104, 105 :: byte] + 1)) (set_lock True fresh_state))) \<noteq> 0"
  using demo_alloc_fresh [of 3] by (simp_all add: seekto_prefix_def bytes_of_def newline_def demo_step_def)

abbreviation demo_globals :: server_globals where
  "demo_globals \<equiv> \<lparr>server_socket = 0, client_socket = 0\<rparr>"

lemma demo_serving:
  obtains y where "serving demo_globals y [(0, [104, 105, 10])] [(0, EvSend 5 [104, 105, 10]), (0, EvClose 3), (0, EvClose 5)]"
    "length (connections y) = 1" "c_phase (connections y ! 0) = Finished" "client_fd (c_args (connections y ! 0)) = 5"
proof -
  have log: "line_log []" by (simp add: line_log_def)
  have reply: "replies (replicate BUFFER_SIZE 0) [[104, 105, newline]] = [[104, 105, newline]]"
    by (simp add: BUFFER_SIZE_def newline_def Let_def)
  have "\<exists>y c. serving demo_globals y [(0, [104, 105, newline])]
      (map (Pair 0) (map (EvSend 5) (replies (replicate BUFFER_SIZE 0) [[104, 105, newline]]) @ [EvClose 3, EvClose 5])) \<and>
    connections y = [c] \<and> c_phase c = Finished \<and> c_args c = demo_args\<lparr>thread_complete := True\<rparr>"
    using serve_client [OF serving.start log demo_step_ok, of "[104, 105]" demo_globals demo_args] demo_packet
    by (auto simp: demo_step_def newline_def)
  then obtain y c where "serving demo_globals y [(0, [104, 105, newline])]
      (map (Pair 0) (map (EvSend 5) (replies (replicate BUFFER_SIZE 0) [[104, 105, newline]]) @ [EvClose 3, EvClose 5]))"
    "connections y = [c]" "c_phase c = Finished" "c_args c = demo_args\<lparr>thread_complete := True\<rparr>"
    by blast
  then show thesis using that [of y] unfolding reply by (simp add: newline_def)
qed

section \<open>Properties\<close>

text \<open>C7. Packets of different clients are never mixed. However the steps of the connections interleave,
  with any clients and any data, every connection hands its packet to the device in one write, and what
  the device stores is the last ten complete lines of these packets one after the other; when each packet
  is one line that fits the buffer, it stores exactly the last ten packets in the order of their writes.\<close>

theorem packets_are_never_mixed:
  assumes "serving g y ws out"
  shows "distinct (map fst ws) \<and>
    commands (view (kernel y)) = keep_last 10 (fst (split_lines [] (concat (map snd ws)))) \<and>
    partial (view (kernel y)) = snd (split_lines [] (concat (map snd ws))) \<and>
    (line_log ws \<longrightarrow> commands (view (kernel y)) = keep_last 10 (map snd ws))"
proof -
  note inv = serving_invariant [OF assms, unfolded serving_inv_def]
  have chunks: "\<forall>c \<in> set (map snd ws). chunk_ok c" using inv by auto
  have "view (kernel y) = \<lparr>commands = keep_last 10 (fst (split_lines [] (concat (map snd ws)))),
      partial = snd (split_lines [] (concat (map snd ws)))\<rparr>"
    using inv fold_spec_write [OF chunks, of "\<lparr>commands = [], partial = []\<rparr>"] by (simp add: Let_def split_beta)
  moreover have "line_log ws \<longrightarrow> commands (view (kernel y)) = keep_last 10 (map snd ws)"
    using inv line_log_view [of "kernel y" ws] by blast
  ultimately show ?thesis using inv by simp
qed

theorem packets_are_never_mixed_witness:
  "\<exists>y ws out. serving demo_globals y ws out \<and> length ws = 1 \<and> commands (view (kernel y)) = [[104, 105, 10]]"
proof -
  obtain y where y: "serving demo_globals y [(0, [104, 105, 10])] [(0, EvSend 5 [104, 105, 10]), (0, EvClose 3), (0, EvClose 5)]"
    by (rule demo_serving)
  moreover have "line_log [(0, [104, 105, 10])]" by (simp add: line_log_def chunk_ok_def newline_def BUFFER_SIZE_def)
  ultimately have "commands (view (kernel y)) = [[104, 105, 10]]" using packets_are_never_mixed [OF y] by (simp add: newline_def)
  then show ?thesis using y by (intro exI [of _ y] exI [of _ "[(0, [104, 105, 10])]"]) auto
qed

text \<open>C13. A client gets a consistent answer. As long as at most ten packets were written, each a line that
  fits the buffer, the messages a finished connection was sent are those for the first \<open>k\<close> packets of the
  common order, for some \<open>k\<close> that takes in its own packet, and then its file and its socket were
  closed; what other clients wrote meanwhile is seen whole or not at all.\<close>

theorem clients_see_prefixes:
  assumes "serving g y ws out" "line_log ws" "length ws \<le> 10" "(i, p) \<in> set ws" "c_phase (connections y ! i) = Finished"
  shows "\<exists>k \<le> length ws. \<exists>fd. (i, p) \<in> set (take k ws) \<and>
    sent_to i out = map (EvSend (client_fd (c_args (connections y ! i)))) (replies (replicate BUFFER_SIZE 0) (map snd (take k ws))) @
      [EvClose fd, EvClose (client_fd (c_args (connections y ! i)))]"
proof -
  note inv = serving_invariant [OF assms(1), unfolded serving_inv_def]
  have "conn_ok ws out i (connections y ! i)" using inv assms(4) by fastforce
  moreover have "i \<in> fst ` set ws" using assms(4) by force
  ultimately obtain k fd where k: "k \<le> length ws" "i \<in> fst ` set (take k ws)"
    "sent_to i out = told (client_fd (c_args (connections y ! i))) ws k @
      [EvClose fd, EvClose (client_fd (c_args (connections y ! i)))]"
    using assms(2,3,5) by (auto simp: conn_ok_def tracked_def served_def)
  obtain q where q: "(i, q) \<in> set (take k ws)" using k(2) by force
  then have "(i, q) \<in> set ws" by (rule in_set_takeD)
  then have "q = p" using inv assms(4) by (meson eq_key_imp_eq_value)
  then show ?thesis using k q unfolding told_def by blast
qed

theorem clients_see_prefixes_witness:
  "\<exists>y out fd. serving demo_globals y [(0, [104, 105, 10])] out \<and>
    sent_to 0 out = [EvSend 5 [104, 105, 10], EvClose fd, EvClose 5]"
proof -
  obtain y where y: "serving demo_globals y [(0, [104, 105, 10])] [(0, EvSend 5 [104, 105, 10]), (0, EvClose 3), (0, EvClose 5)]"
    "c_phase (connections y ! 0) = Finished" "client_fd (c_args (connections y ! 0)) = 5"
    by (rule demo_serving)
  have log: "line_log [(0, [104, 105, 10])]" by (simp add: line_log_def chunk_ok_def newline_def BUFFER_SIZE_def)
  have reply: "replies (replicate BUFFER_SIZE 0) [[104, 105, 10]] = [[104, 105, 10]]"
    by (simp add: BUFFER_SIZE_def Let_def)
  let ?out = "[(0, EvSend 5 [104, 105, 10]), (0, EvClose 3), (0, EvClose 5)]"
  have "\<exists>k \<le> length [(0 :: nat, [104, 105, 10 :: byte])]. \<exists>fd. (0, [104, 105, 10]) \<in> set (take k [(0 :: nat, [104, 105, 10 :: byte])]) \<and>
    sent_to 0 ?out = map (EvSend 5) (replies (replicate BUFFER_SIZE 0) (map snd (take k [(0 :: nat, [104, 105, 10])]))) @
      [EvClose fd, EvClose 5]"
    by (rule clients_see_prefixes [OF y(1) log _ _ y(2), of "[104, 105, 10]", unfolded y(3)]) simp_all
  then obtain k fd where k: "(0, [104, 105, 10]) \<in> set (take k [(0 :: nat, [104, 105, 10 :: byte])])"
    "sent_to 0 ?out = map (EvSend 5) (replies (replicate BUFFER_SIZE 0) (map snd (take k [(0 :: nat, [104, 105, 10])]))) @
      [EvClose fd, EvClose 5]"
    by blast
  then have "sent_to 0 ?out = [EvSend 5 [104, 105, 10], EvClose fd, EvClose 5]" using reply by (cases k) simp_all
  then show ?thesis using y(1) by blast
qed

text \<open>C16. The threads of the server are well typed. In every reachable state the local variables of each
  connection fit its phase (terminated strings with at most one newline, at their end; an open file of the
  device; a send buffer of the full size), and while all packets are lines the next step of each
  connection that is not finished is defined, provided its packet comes in one piece without a zero byte, fits the
  buffer and the byte counter, and does not seek to command ten; the step leads to such a state again.\<close>

theorem connections_are_well_typed:
  assumes "serving g y ws out" "i < length (connections y)"
  shows "well_typed (connections y ! i) \<and>
    (line_log ws \<and> step_env_ok S \<and> step_ready S y (connections y ! i) \<longrightarrow>
      (\<exists>res. connection_step g S i y = Some res \<and>
        (\<forall>evs y'. res = Inr (evs, y') \<longrightarrow> (\<forall>c \<in> set (connections y'). well_typed c))))"
proof (intro conjI impI)
  let ?c = "connections y ! i"
  note inv = serving_invariant [OF assms(1), unfolded serving_inv_def]
  have ok: "conn_ok ws out i ?c" using inv assms(2) by blast
  then show "well_typed ?c" by (rule conn_ok_typed)
  assume a: "line_log ws \<and> step_env_ok S \<and> step_ready S y ?c"
  have short: "\<forall>c \<in> set (commands (view (kernel y))). length c < BUFFER_SIZE"
    using line_log_view [of "kernel y" ws] inv a by blast
  have "thread_step (driver_ops (s_fd S) (s_arg S)) (s_memory S) g (s_recv S) (c_args ?c) (c_phase ?c) (counted y)
      (s_kernel S, c_file ?c, kernel y) \<noteq> None"
  proof (cases "c_phase ?c")
    case (Receiving buffer)
    have "recv_pass (realloc_ok (s_memory S)) (s_recv S) buffer (replicate BUFFER_SIZE 0) (counted y) \<noteq> None"
    proof (cases "s_recv S")
      case (Received xs)
      then show ?thesis
        using a Receiving recv_pass_defined [of xs "counted y" "realloc_ok (s_memory S)"] by (simp add: step_ready_def)
    qed (simp_all add: recv_pass_def)
    then show ?thesis using Receiving by (auto simp: thread_step_def)
  next
    case (Handling fd buffer)
    obtain p where p: "c_string buffer = Some p" "packet_ok True p" "private_data (c_file ?c) = AesdDevice"
      using ok Handling by (auto simp: conn_ok_def)
    have "handle_packet (driver_ops (s_fd S) (s_arg S)) g buffer (s_kernel S, c_file ?c, kernel y) \<noteq> None"
    proof (rule handling_defined [OF _ _ _ p(3,1,2)])
      show "\<forall>q x y. p = seekto_prefix @ q \<and> parse_seekto q = Some (x, y) \<longrightarrow> x \<noteq> 10"
        using a Handling p(1) unfolding step_ready_def by (simp del: not_None_eq) blast
    qed (use a inv in simp_all)
    then show ?thesis using Handling by (auto simp: thread_step_def)
  next
    case (Replying fd buf)
    then show ?thesis
      using replying_defined [of S "kernel y" "c_file ?c" buf] a inv ok short
      by (auto simp: thread_step_def driver_ops_def conn_ok_def)
  qed (use a in \<open>auto simp: thread_step_def step_ready_def Let_def split: prod.splits\<close>)
  then obtain res where res: "connection_step g S i y = Some res"
    using assms(2) by (auto simp: connection_step_def arr_get_def)
  have "well_typed c" if "res = Inr (evs, y')" "c \<in> set (connections y')" for evs y' c
  proof -
    have "serving_inv y' (ws @ map (Pair i) (written_by (c_phase ?c))) (out @ map (Pair i) evs)"
      using serving_inv_move [OF serving_invariant [OF assms(1)]] a res that(1) by blast
    then show ?thesis
      using that(2) conn_ok_typed unfolding serving_inv_def in_set_conv_nth by blast
  qed
  then show "\<exists>res. connection_step g S i y = Some res \<and>
      (\<forall>evs y'. res = Inr (evs, y') \<longrightarrow> (\<forall>c \<in> set (connections y'). well_typed c))"
    using res by blast
qed

theorem connections_are_well_typed_witness:
  "\<exists>y res. serving demo_globals y [] [] \<and> length (connections y) = 1 \<and> connection_step demo_globals demo_step 0 y = Some res"
proof -
  let ?y = "\<lparr>kernel = fresh_state, counted = 0, connections = [new_connection demo_args]\<rparr>"
  have y: "serving demo_globals ?y [] []" using serving.accept [OF serving.start, of demo_globals demo_args] by simp
  have "line_log []" by (simp add: line_log_def)
  moreover have "step_ready demo_step ?y (connections ?y ! 0)" by (simp add: step_ready_def new_connection_def)
  ultimately have "\<exists>res. connection_step demo_globals demo_step 0 ?y = Some res"
    using connections_are_well_typed [OF y, of 0 demo_step] demo_step_ok by auto
  then show ?thesis using y by (intro exI [of _ ?y]) auto
qed



end
