(* ===== verification/Slist.thy ===== *)
theory Slist
  imports Aesd_Prelude
begin

text \<open>
  The singly-linked list macros of \<^verbatim>\<open>server/queue.h\<close>, over an explicit store of nodes: a macro that
  follows a pointer to no node has no defined result. The predicate \<open>slist\<close> relates the memory to the
  list of nodes it links; every macro is shown to do on the memory what its name says on the list. The
  locale at the end is the interface under which the server keeps its connections.
\<close>

section \<open>The model\<close>

text \<open>\<open>SLIST_ENTRY\<close> adds a \<open>sle_next\<close> field to the user's structure, \<open>SLIST_HEAD\<close> is the pointer
  to the first node.\<close>

record 'a slist_node =
  elem_data :: 'a
  sle_next :: ptr

record 'a slist_mem =
  nodes :: "ptr \<Rightarrow> 'a slist_node option"
  slh_first :: ptr

definition SLIST_EMPTY :: "'a slist_mem \<Rightarrow> bool" where
  "SLIST_EMPTY m \<longleftrightarrow> slh_first m = 0"

definition SLIST_FIRST :: "'a slist_mem \<Rightarrow> ptr" where
  "SLIST_FIRST m = slh_first m"

definition SLIST_NEXT :: "'a slist_mem \<Rightarrow> ptr \<Rightarrow> ptr option" where
  "SLIST_NEXT m p = map_option sle_next (nodes m p)"

definition set_next :: "'a slist_mem \<Rightarrow> ptr \<Rightarrow> ptr \<Rightarrow> 'a slist_mem option" where
  "set_next m p q = map_option (\<lambda>n. m\<lparr>nodes := (nodes m)(p \<mapsto> n\<lparr>sle_next := q\<rparr>)\<rparr>) (nodes m p)"

definition SLIST_INIT :: "'a slist_mem \<Rightarrow> 'a slist_mem" where
  "SLIST_INIT m = m\<lparr>slh_first := 0\<rparr>"

definition SLIST_INSERT_HEAD :: "'a slist_mem \<Rightarrow> ptr \<Rightarrow> 'a slist_mem option" where
  "SLIST_INSERT_HEAD m elm = do { m \<leftarrow> set_next m elm (SLIST_FIRST m); Some (m\<lparr>slh_first := elm\<rparr>) }"

definition SLIST_INSERT_AFTER :: "'a slist_mem \<Rightarrow> ptr \<Rightarrow> ptr \<Rightarrow> 'a slist_mem option" where
  "SLIST_INSERT_AFTER m slistelm elm =
     do { q \<leftarrow> SLIST_NEXT m slistelm; m \<leftarrow> set_next m elm q; set_next m slistelm elm }"

definition SLIST_REMOVE_HEAD :: "'a slist_mem \<Rightarrow> 'a slist_mem option" where
  "SLIST_REMOVE_HEAD m = do { q \<leftarrow> SLIST_NEXT m (SLIST_FIRST m); Some (m\<lparr>slh_first := q\<rparr>) }"

definition SLIST_REMOVE_AFTER :: "'a slist_mem \<Rightarrow> ptr \<Rightarrow> 'a slist_mem option" where
  "SLIST_REMOVE_AFTER m elm = do { q \<leftarrow> SLIST_NEXT m elm; r \<leftarrow> SLIST_NEXT m q; set_next m elm r }"

text \<open>The loop of \<open>SLIST_REMOVE\<close> looks for the node before \<open>elm\<close>; it ends only if there is one.\<close>

partial_function (option) remove_search :: "'a slist_mem \<Rightarrow> ptr \<Rightarrow> ptr \<Rightarrow> ptr option" where
  "remove_search m elm curelm =
     do { q \<leftarrow> SLIST_NEXT m curelm; if q \<noteq> elm then remove_search m elm q else Some curelm }"

definition SLIST_REMOVE :: "'a slist_mem \<Rightarrow> ptr \<Rightarrow> 'a slist_mem option" where
  "SLIST_REMOVE m elm =
     (if SLIST_FIRST m = elm then SLIST_REMOVE_HEAD m
      else do { curelm \<leftarrow> remove_search m elm (SLIST_FIRST m); SLIST_REMOVE_AFTER m curelm })"

text \<open>
  \<open>SLIST_FOREACH\<close> over a program state that contains the list memory: the body returns the new state
  and whether it leaves the loop (\<open>break\<close>); the next node is read after the body has run. The result
  has the final value of the loop variable.
\<close>

partial_function (option) foreach_loop ::
  "('s \<Rightarrow> 'a slist_mem) \<Rightarrow> (ptr \<Rightarrow> 's \<Rightarrow> ('s \<times> bool) option) \<Rightarrow> ptr \<Rightarrow> 's \<Rightarrow> (ptr \<times> 's) option" where
  "foreach_loop mem body var s =
     (if var = 0 then Some (0, s)
      else do {
        (s, stop) \<leftarrow> body var s;
        if stop then Some (var, s)
        else do { q \<leftarrow> SLIST_NEXT (mem s) var; foreach_loop mem body q s }
      })"

definition SLIST_FOREACH ::
  "('s \<Rightarrow> 'a slist_mem) \<Rightarrow> (ptr \<Rightarrow> 's \<Rightarrow> ('s \<times> bool) option) \<Rightarrow> 's \<Rightarrow> (ptr \<times> 's) option" where
  "SLIST_FOREACH mem body s = foreach_loop mem body (SLIST_FIRST (mem s)) s"

text \<open>\<open>SLIST_FOREACH_SAFE\<close> reads the next node before the body.\<close>

partial_function (option) foreach_safe_loop ::
  "('s \<Rightarrow> 'a slist_mem) \<Rightarrow> (ptr \<Rightarrow> 's \<Rightarrow> ('s \<times> bool) option) \<Rightarrow> ptr \<Rightarrow> 's \<Rightarrow> (ptr \<times> 's) option" where
  "foreach_safe_loop mem body var s =
     (if var = 0 then Some (0, s)
      else do {
        tvar \<leftarrow> SLIST_NEXT (mem s) var;
        (s, stop) \<leftarrow> body var s;
        if stop then Some (var, s) else foreach_safe_loop mem body tvar s
      })"

definition SLIST_FOREACH_SAFE ::
  "('s \<Rightarrow> 'a slist_mem) \<Rightarrow> (ptr \<Rightarrow> 's \<Rightarrow> ('s \<times> bool) option) \<Rightarrow> 's \<Rightarrow> (ptr \<times> 's) option" where
  "SLIST_FOREACH_SAFE mem body s = foreach_safe_loop mem body (SLIST_FIRST (mem s)) s"

text \<open>The variants that start at \<open>var\<close> when it is not NULL.\<close>

definition SLIST_FOREACH_FROM ::
  "('s \<Rightarrow> 'a slist_mem) \<Rightarrow> (ptr \<Rightarrow> 's \<Rightarrow> ('s \<times> bool) option) \<Rightarrow> ptr \<Rightarrow> 's \<Rightarrow> (ptr \<times> 's) option" where
  "SLIST_FOREACH_FROM mem body var s = foreach_loop mem body (if var \<noteq> 0 then var else SLIST_FIRST (mem s)) s"

definition SLIST_FOREACH_FROM_SAFE ::
  "('s \<Rightarrow> 'a slist_mem) \<Rightarrow> (ptr \<Rightarrow> 's \<Rightarrow> ('s \<times> bool) option) \<Rightarrow> ptr \<Rightarrow> 's \<Rightarrow> (ptr \<times> 's) option" where
  "SLIST_FOREACH_FROM_SAFE mem body var s = foreach_safe_loop mem body (if var \<noteq> 0 then var else SLIST_FIRST (mem s)) s"

text \<open>\<open>SLIST_FOREACH_PREVPTR\<close> keeps the address of the pointer to the current node: \<open>None\<close> is the address
  of the first pointer of the head, \<open>Some x\<close> that of the next pointer of \<open>x\<close>.\<close>

definition SLIST_DEREF :: "'a slist_mem \<Rightarrow> ptr option \<Rightarrow> ptr option" where
  "SLIST_DEREF m varp = (case varp of None \<Rightarrow> Some (SLIST_FIRST m) | Some x \<Rightarrow> SLIST_NEXT m x)"

partial_function (option) foreach_prevptr_loop ::
  "('s \<Rightarrow> 'a slist_mem) \<Rightarrow> (ptr option \<Rightarrow> ptr \<Rightarrow> 's \<Rightarrow> ('s \<times> bool) option) \<Rightarrow> ptr option \<Rightarrow> 's \<Rightarrow> (ptr option \<times> 's) option" where
  "foreach_prevptr_loop mem body varp s =
     do {
       var \<leftarrow> SLIST_DEREF (mem s) varp;
       if var = 0 then Some (varp, s)
       else do {
         (s, stop) \<leftarrow> body varp var s;
         if stop then Some (varp, s) else foreach_prevptr_loop mem body (Some var) s
       }
     }"

definition SLIST_FOREACH_PREVPTR ::
  "('s \<Rightarrow> 'a slist_mem) \<Rightarrow> (ptr option \<Rightarrow> ptr \<Rightarrow> 's \<Rightarrow> ('s \<times> bool) option) \<Rightarrow> 's \<Rightarrow> (ptr option \<times> 's) option" where
  "SLIST_FOREACH_PREVPTR mem body s = foreach_prevptr_loop mem body None s"

text \<open>Two heads over the same nodes: \<open>SLIST_CONCAT\<close> and \<open>SLIST_SWAP\<close> take the second head as a
  pointer value and return it.\<close>

partial_function (option) last_search :: "'a slist_mem \<Rightarrow> ptr \<Rightarrow> ptr option" where
  "last_search m curelm = do { q \<leftarrow> SLIST_NEXT m curelm; if q \<noteq> 0 then last_search m q else Some curelm }"

definition SLIST_CONCAT :: "'a slist_mem \<Rightarrow> ptr \<Rightarrow> ('a slist_mem \<times> ptr) option" where
  "SLIST_CONCAT m head2 =
     (if SLIST_FIRST m = 0
      then (let m = m\<lparr>slh_first := head2\<rparr> in if head2 \<noteq> 0 then Some (m, 0) else Some (m, head2))
      else if head2 \<noteq> 0
      then do { curelm \<leftarrow> last_search m (SLIST_FIRST m); m \<leftarrow> set_next m curelm head2; Some (m, 0) }
      else Some (m, head2))"

definition SLIST_SWAP :: "'a slist_mem \<Rightarrow> ptr \<Rightarrow> 'a slist_mem \<times> ptr" where
  "SLIST_SWAP m head2 = (m\<lparr>slh_first := head2\<rparr>, SLIST_FIRST m)"

section \<open>Memory and list\<close>

fun chain :: "'a slist_mem \<Rightarrow> ptr \<Rightarrow> ptr list \<Rightarrow> bool" where
  "chain m p [] \<longleftrightarrow> p = 0"
| "chain m p (x # xs) \<longleftrightarrow> p = x \<and> x \<noteq> 0 \<and> (case SLIST_NEXT m x of None \<Rightarrow> False | Some q \<Rightarrow> chain m q xs)"

definition slist :: "'a slist_mem \<Rightarrow> ptr list \<Rightarrow> bool" where
  "slist m xs \<longleftrightarrow> chain m (slh_first m) xs"

lemma chain_unique: "chain m p xs \<Longrightarrow> chain m p ys \<Longrightarrow> xs = ys"
proof (induction xs arbitrary: p ys)
  case Nil
  then show ?case by (cases ys) simp_all
next
  case (Cons x xs)
  then show ?case by (cases ys) (auto split: option.splits)
qed

lemma chain_ConsE:
  assumes "chain m p (x # xs)"
  obtains q where "SLIST_NEXT m x = Some q" "chain m q xs" "p = x" "x \<noteq> 0"
  using assms by (auto split: option.splits)

lemma chain_append:
  "chain m p (xs @ y # ys) \<Longrightarrow> chain m y (y # ys)"
proof (induction xs arbitrary: p)
  case (Cons x xs)
  from Cons.prems have "chain m p (x # (xs @ y # ys))" by (simp only: append_Cons)
  then show ?case using Cons.IH by (elim chain_ConsE)
qed auto

lemma chain_distinct: "chain m p xs \<Longrightarrow> distinct xs"
proof (induction xs arbitrary: p)
  case (Cons x xs)
  then obtain q where q: "SLIST_NEXT m x = Some q" "chain m q xs" "p = x" by (auto split: option.splits)
  have "x \<notin> set xs"
  proof
    assume "x \<in> set xs"
    then obtain as bs where split: "xs = as @ x # bs" by (meson split_list)
    then have "chain m x (x # bs)" using q(2) chain_append by blast
    then have "x # xs = x # bs" using chain_unique Cons.prems q(3) by blast
    then show False using split by simp
  qed
  then show ?case using Cons.IH q(2) by simp
qed simp

lemma chain_frame:
  "(\<And>x. x \<in> set xs \<Longrightarrow> SLIST_NEXT m' x = SLIST_NEXT m x) \<Longrightarrow> chain m' p xs = chain m p xs"
  by (induction xs arbitrary: p) (auto split: option.splits)

lemma chain_live: "chain m p xs \<Longrightarrow> x \<in> set xs \<Longrightarrow> nodes m x \<noteq> None \<and> x \<noteq> 0"
  by (induction xs arbitrary: p) (auto simp: SLIST_NEXT_def split: option.splits)

lemma chain_snoc_next:
  "chain m p (xs @ x # y # ys) \<Longrightarrow> SLIST_NEXT m x = Some y"
  by (induction xs arbitrary: p) (auto split: option.splits)

lemma chain_last_next:
  "chain m p (xs @ [x]) \<Longrightarrow> SLIST_NEXT m x = Some 0"
  by (induction xs arbitrary: p) (auto split: option.splits)

lemma set_next_Some:
  assumes "nodes m p \<noteq> None"
  obtains m' where "set_next m p q = Some m'" "slh_first m' = slh_first m"
    "SLIST_NEXT m' p = Some q" "\<And>x. x \<noteq> p \<Longrightarrow> SLIST_NEXT m' x = SLIST_NEXT m x"
    "\<And>x. map_option elem_data (nodes m' x) = map_option elem_data (nodes m x)"
  using assms that by (fastforce simp: set_next_def SLIST_NEXT_def)

text \<open>Two memories hold the same data in the same nodes.\<close>

definition same_data :: "'a slist_mem \<Rightarrow> 'a slist_mem \<Rightarrow> bool" where
  "same_data m m' \<longleftrightarrow> (\<forall>p. map_option elem_data (nodes m' p) = map_option elem_data (nodes m p))"

lemma same_data_live: "same_data m m' \<Longrightarrow> (nodes m' p = None) = (nodes m p = None)"
  by (metis same_data_def option.map_disc_iff)

section \<open>The operations on the list\<close>

lemma init_slist: "slist (SLIST_INIT m) []"
  by (simp add: slist_def SLIST_INIT_def)

lemma insert_head_slist:
  assumes "slist m xs" "nodes m e \<noteq> None" "e \<noteq> 0" "e \<notin> set xs"
  obtains m' where "SLIST_INSERT_HEAD m e = Some m'" "slist m' (e # xs)" "same_data m m'"
proof -
  obtain m1 where m1: "set_next m e (slh_first m) = Some m1" "slh_first m1 = slh_first m"
    "SLIST_NEXT m1 e = Some (slh_first m)" "\<And>x. x \<noteq> e \<Longrightarrow> SLIST_NEXT m1 x = SLIST_NEXT m x"
    "\<And>x. map_option elem_data (nodes m1 x) = map_option elem_data (nodes m x)"
    using set_next_Some [OF assms(2)] by metis
  let ?m = "m1\<lparr>slh_first := e\<rparr>"
  have next_eq: "SLIST_NEXT ?m x = SLIST_NEXT m1 x" for x by (simp add: SLIST_NEXT_def)
  have "chain ?m (slh_first m) xs = chain m (slh_first m) xs"
    by (rule chain_frame) (metis assms(4) m1(4) next_eq)
  then have "slist ?m (e # xs)"
    using assms(1,3) m1(3) next_eq by (simp add: slist_def)
  moreover have "same_data m ?m" using m1(5) by (simp add: same_data_def)
  ultimately show thesis using that m1(1) by (simp add: SLIST_INSERT_HEAD_def SLIST_FIRST_def)
qed

text \<open>Relinking inside a chain: only the node before the change is touched.\<close>

lemma chain_relink:
  assumes "chain m p (xs @ x # ys)" "x \<notin> set zs" "chain m r zs"
    and "SLIST_NEXT m' x = Some r" "\<And>y. y \<noteq> x \<Longrightarrow> SLIST_NEXT m' y = SLIST_NEXT m y"
  shows "chain m' p (xs @ x # zs)"
  using assms(1)
proof (induction xs arbitrary: p)
  case Nil
  have "chain m' r zs = chain m r zs"
    by (rule chain_frame) (metis assms(2,5))
  then show ?case using Nil assms(3,4) by (simp split: option.splits)
next
  case (Cons y xs)
  then have "y \<noteq> x" using chain_distinct [OF Cons.prems] by auto
  then show ?case using Cons assms(5) by (auto split: option.splits)
qed

lemma insert_after_slist:
  assumes "slist m (xs @ p # ys)" "nodes m e \<noteq> None" "e \<noteq> 0" "e \<notin> set (xs @ p # ys)"
  obtains m' where "SLIST_INSERT_AFTER m p e = Some m'" "slist m' (xs @ p # e # ys)" "same_data m m'"
proof -
  have ch: "chain m (slh_first m) (xs @ p # ys)" using assms(1) by (simp add: slist_def)
  obtain q where q: "SLIST_NEXT m p = Some q" "chain m q ys"
    using chain_append [OF ch] by (elim chain_ConsE)
  obtain m1 where m1: "set_next m e q = Some m1" "slh_first m1 = slh_first m"
    "SLIST_NEXT m1 e = Some q" "\<And>x. x \<noteq> e \<Longrightarrow> SLIST_NEXT m1 x = SLIST_NEXT m x"
    "\<And>x. map_option elem_data (nodes m1 x) = map_option elem_data (nodes m x)"
    using set_next_Some [OF assms(2)] by metis
  have ch1: "chain m1 (slh_first m) (xs @ p # ys)" "chain m1 q ys"
    using ch q(2) chain_frame [of _ m1 m] assms(4) m1(4) by (metis UnCI list.set_intros(2) set_append)+
  have "nodes m1 p \<noteq> None" using chain_live [OF ch1(1), of p] by simp
  then obtain m2 where m2: "set_next m1 p e = Some m2" "slh_first m2 = slh_first m1"
    "SLIST_NEXT m2 p = Some e" "\<And>x. x \<noteq> p \<Longrightarrow> SLIST_NEXT m2 x = SLIST_NEXT m1 x"
    "\<And>x. map_option elem_data (nodes m2 x) = map_option elem_data (nodes m1 x)"
    using set_next_Some by metis
  have "chain m1 e (e # ys)" using ch1(2) m1(3) assms(3) by simp
  moreover have "p \<notin> set (e # ys)" using assms(4) chain_distinct [OF ch] by auto
  ultimately have "slist m2 (xs @ p # e # ys)"
    using chain_relink [OF ch1(1) _ _ m2(3,4)] m1(2) m2(2) by (simp add: slist_def)
  then show thesis
    using that q(1) m1(1,5) m2(1,5) by (simp add: SLIST_INSERT_AFTER_def same_data_def)
qed

lemma remove_head_slist:
  assumes "slist m (x # xs)"
  obtains m' where "SLIST_REMOVE_HEAD m = Some m'" "slist m' xs" "same_data m m'"
proof -
  obtain q where q: "SLIST_NEXT m x = Some q" "chain m q xs" "slh_first m = x"
    using assms by (auto simp: slist_def split: option.splits)
  have "chain (m\<lparr>slh_first := q\<rparr>) q xs = chain m q xs"
    by (rule chain_frame) (simp add: SLIST_NEXT_def)
  then show thesis
    using that [of "m\<lparr>slh_first := q\<rparr>"] q by (simp add: SLIST_REMOVE_HEAD_def SLIST_FIRST_def slist_def same_data_def)
qed

lemma remove_after_slist:
  assumes "slist m (xs @ x # e # ys)"
  obtains m' where "SLIST_REMOVE_AFTER m x = Some m'" "slist m' (xs @ x # ys)" "same_data m m'"
proof -
  have ch: "chain m (slh_first m) (xs @ x # e # ys)" using assms by (simp add: slist_def)
  have x: "SLIST_NEXT m x = Some e" by (rule chain_snoc_next [OF ch])
  have "chain m e (e # ys)" using chain_append [of m _ "xs @ [x]" e ys] ch by simp
  then obtain r where r: "SLIST_NEXT m e = Some r" "chain m r ys" by (auto split: option.splits)
  have live: "nodes m x \<noteq> None" using chain_live [OF ch, of x] by simp
  obtain m' where m': "set_next m x r = Some m'" "slh_first m' = slh_first m"
    "SLIST_NEXT m' x = Some r" "\<And>y. y \<noteq> x \<Longrightarrow> SLIST_NEXT m' y = SLIST_NEXT m y"
    "\<And>y. map_option elem_data (nodes m' y) = map_option elem_data (nodes m y)"
    using set_next_Some [OF live] by metis
  have "x \<notin> set ys" using chain_distinct [OF ch] by simp
  then have "slist m' (xs @ x # ys)"
    using chain_relink [OF ch _ r(2) m'(3,4)] m'(2) by (simp add: slist_def)
  then show thesis using that m'(1,5) x r(1) by (simp add: SLIST_REMOVE_AFTER_def same_data_def)
qed

lemma remove_search_finds:
  assumes "chain m p (xs @ x # e # ys)"
  shows "remove_search m e p = Some x"
  using assms
proof (induction xs arbitrary: p)
  case Nil
  then show ?case using chain_snoc_next [of m p "[]" x e ys] by (subst remove_search.simps) simp
next
  case (Cons y xs)
  then obtain q where q: "SLIST_NEXT m y = Some q" "chain m q (xs @ x # e # ys)" "p = y"
    using chain_ConsE [of m p y "xs @ x # e # ys"] by (metis append_Cons)
  have "q \<noteq> e"
    using chain_distinct [OF Cons.prems] q(2) by (cases xs) auto
  then show ?case using q Cons.IH [OF q(2)] by (subst remove_search.simps) simp
qed

lemma remove_slist:
  assumes "slist m xs" "e \<in> set xs"
  obtains m' where "SLIST_REMOVE m e = Some m'" "slist m' (remove1 e xs)" "same_data m m'"
proof -
  have ch: "chain m (slh_first m) xs" using assms(1) by (simp add: slist_def)
  show thesis
  proof (cases "slh_first m = e")
    case True
    then obtain ys where xs: "xs = e # ys" using ch assms(2) by (cases xs) auto
    obtain m' where "SLIST_REMOVE_HEAD m = Some m'" "slist m' ys" "same_data m m'"
      using remove_head_slist assms(1) xs by metis
    then show thesis using that xs True by (simp add: SLIST_REMOVE_def SLIST_FIRST_def)
  next
    case False
    obtain as bs where split: "xs = as @ e # bs" "e \<notin> set as" using assms(2) by (meson split_list_first)
    have "as \<noteq> []" using split ch False by auto
    then obtain cs x where as: "as = cs @ [x]" by (metis rev_exhaust)
    then have xs: "xs = cs @ x # e # bs" using split by simp
    obtain m' where m': "SLIST_REMOVE_AFTER m x = Some m'" "slist m' (cs @ x # bs)" "same_data m m'"
      using remove_after_slist assms(1) xs by metis
    have "remove1 e xs = cs @ x # bs" using split as by (simp add: remove1_append)
    then show thesis
      using that m' remove_search_finds [of m "slh_first m" cs x e bs] ch xs False
      by (simp add: SLIST_REMOVE_def SLIST_FIRST_def)
  qed
qed

lemma remove_search_misses:
  assumes "chain m p xs" "e \<notin> set xs" "e \<noteq> 0" "nodes m 0 = None"
  shows "remove_search m e p = None"
  using assms(1,2)
proof (induction xs arbitrary: p)
  case Nil
  then show ?case using assms(4) by (subst remove_search.simps) (simp add: SLIST_NEXT_def)
next
  case (Cons x xs)
  obtain q where q: "SLIST_NEXT m x = Some q" "chain m q xs" "p = x"
    using Cons.prems(1) by (rule chain_ConsE)
  then have "q \<noteq> e" using Cons.prems(2) assms(3) by (cases xs) auto
  then show ?case using q Cons.IH [OF q(2)] Cons.prems(2) by (subst remove_search.simps) simp
qed

lemma remove_missing:
  assumes "slist m xs" "e \<notin> set xs" "e \<noteq> 0" "nodes m 0 = None"
  shows "SLIST_REMOVE m e = None"
proof -
  have "slh_first m \<noteq> e"
    using assms(1-3) by (cases xs) (auto simp: slist_def)
  then show ?thesis
    using remove_search_misses [OF assms(1) [unfolded slist_def] assms(2-4)]
    by (simp add: SLIST_REMOVE_def SLIST_FIRST_def)
qed

lemma last_search_finds: "chain m p (xs @ [x]) \<Longrightarrow> last_search m p = Some x"
proof (induction xs arbitrary: p)
  case Nil
  then show ?case using chain_last_next [of m p "[]" x] by (subst last_search.simps) simp
next
  case (Cons y xs)
  then obtain q where q: "SLIST_NEXT m y = Some q" "chain m q (xs @ [x])" "p = y"
    using chain_ConsE [of m p y "xs @ [x]"] by (metis append_Cons)
  then have "q \<noteq> 0" by (cases xs) auto
  then show ?case using q Cons.IH [OF q(2)] by (subst last_search.simps) simp
qed

text \<open>Concatenation moves the nodes of the second list behind those of the first.\<close>

lemma concat_slist:
  assumes "slist m xs" "chain m head2 ys" "set xs \<inter> set ys = {}"
  obtains m' where "SLIST_CONCAT m head2 = Some (m', 0)" "slist m' (xs @ ys)" "same_data m m'"
proof (cases xs rule: rev_cases)
  case Nil
  have "chain (m\<lparr>slh_first := head2\<rparr>) head2 ys = chain m head2 ys"
    by (rule chain_frame) (simp add: SLIST_NEXT_def)
  moreover have "slh_first m = 0" using assms(1) Nil by (simp add: slist_def)
  ultimately show thesis
    using that [of "m\<lparr>slh_first := head2\<rparr>"] Nil assms(2)
    by (auto simp: SLIST_CONCAT_def SLIST_FIRST_def slist_def same_data_def Let_def)
next
  case (snoc as x)
  have ch: "chain m (slh_first m) (as @ [x])" using assms(1) snoc by (simp add: slist_def)
  have nz: "slh_first m \<noteq> 0" using ch by (cases as) auto
  show thesis
  proof (cases "head2 = 0")
    case True
    then have "ys = []" using assms(2) by (cases ys) auto
    then show thesis
      using that [of m] nz True assms(1) by (simp add: SLIST_CONCAT_def SLIST_FIRST_def same_data_def)
  next
    case False
    have "nodes m x \<noteq> None" using chain_live [OF ch, of x] by simp
    then obtain m' where m': "set_next m x head2 = Some m'" "slh_first m' = slh_first m"
      "SLIST_NEXT m' x = Some head2" "\<And>y. y \<noteq> x \<Longrightarrow> SLIST_NEXT m' y = SLIST_NEXT m y"
      "\<And>y. map_option elem_data (nodes m' y) = map_option elem_data (nodes m y)"
      using set_next_Some by metis
    have "x \<notin> set ys" using assms(3) snoc by auto
    then have "slist m' (as @ x # ys)"
      using chain_relink [OF ch _ assms(2) m'(3,4)] m'(2) by (simp add: slist_def)
    then show thesis
      using that m'(1,5) nz False last_search_finds [OF ch] snoc
      by (simp add: SLIST_CONCAT_def SLIST_FIRST_def same_data_def)
  qed
qed

section \<open>Iteration\<close>

text \<open>A loop with \<open>break\<close> over a list of pointers.\<close>

fun fold_break :: "(ptr \<Rightarrow> 's \<Rightarrow> ('s \<times> bool) option) \<Rightarrow> ptr list \<Rightarrow> 's \<Rightarrow> (ptr \<times> 's) option" where
  "fold_break body [] s = Some (0, s)"
| "fold_break body (x # xs) s =
     do { (s, stop) \<leftarrow> body x s; if stop then Some (x, s) else fold_break body xs s }"

lemma foreach_fold_break:
  assumes "\<And>x s s' y. body x s = Some (s', False) \<Longrightarrow> SLIST_NEXT (mem s') y = SLIST_NEXT (mem s) y"
  shows "chain (mem s) p xs \<Longrightarrow> foreach_loop mem body p s = fold_break body xs s"
proof (induction xs arbitrary: p s)
  case Nil
  then show ?case by (subst foreach_loop.simps) simp
next
  case (Cons x xs)
  obtain q where q: "SLIST_NEXT (mem s) x = Some q" "chain (mem s) q xs" "p = x" "x \<noteq> 0"
    using Cons.prems by (rule chain_ConsE)
  have next_loop: "foreach_loop mem body q s' = fold_break body xs s'" "SLIST_NEXT (mem s') x = Some q"
    if "body x s = Some (s', False)" for s'
    using assms [OF that] q(1,2) chain_frame [of xs "mem s'" "mem s" q] Cons.IH by simp_all
  show ?case
  proof (cases "body x s")
    case None
    then show ?thesis using q by (subst foreach_loop.simps) simp
  next
    case (Some r)
    then show ?thesis using q next_loop by (cases r; cases "snd r") (subst foreach_loop.simps; auto)+
  qed
qed

text \<open>The safe variant also allows the body to take the current node away.\<close>

lemma foreach_safe_fold_break:
  assumes "\<And>x s s' y. body x s = Some (s', False) \<Longrightarrow> y \<noteq> x \<Longrightarrow> SLIST_NEXT (mem s') y = SLIST_NEXT (mem s) y"
  shows "chain (mem s) p xs \<Longrightarrow> foreach_safe_loop mem body p s = fold_break body xs s"
proof (induction xs arbitrary: p s)
  case Nil
  then show ?case by (subst foreach_safe_loop.simps) simp
next
  case (Cons x xs)
  obtain q where q: "SLIST_NEXT (mem s) x = Some q" "chain (mem s) q xs" "p = x" "x \<noteq> 0"
    using Cons.prems by (rule chain_ConsE)
  have notin: "x \<notin> set xs" using chain_distinct [OF Cons.prems] by simp
  have next_loop: "foreach_safe_loop mem body q s' = fold_break body xs s'"
    if "body x s = Some (s', False)" for s'
  proof (rule Cons.IH)
    have "chain (mem s') q xs = chain (mem s) q xs"
      by (rule chain_frame) (metis assms notin that)
    then show "chain (mem s') q xs" using q(2) by simp
  qed
  show ?case
  proof (cases "body x s")
    case None
    then show ?thesis using q by (subst foreach_safe_loop.simps) simp
  next
    case (Some r)
    then show ?thesis using q next_loop by (cases r; cases "snd r") (subst foreach_safe_loop.simps; auto)+
  qed
qed

section \<open>The interface of the connection list\<close>

text \<open>A list of nodes kept by front insertion and removal: \<open>rel\<close> relates the memory to the list and
  \<open>live\<close> says which nodes exist.\<close>

locale node_list =
  fixes rel :: "'m \<Rightarrow> ptr list \<Rightarrow> bool"
    and live :: "'m \<Rightarrow> ptr \<Rightarrow> bool"
    and insert_front :: "'m \<Rightarrow> ptr \<Rightarrow> 'm option"
    and remove :: "'m \<Rightarrow> ptr \<Rightarrow> 'm option"
  assumes insert_law: "rel m xs \<Longrightarrow> live m e \<Longrightarrow> e \<notin> set xs \<Longrightarrow>
      \<exists>m'. insert_front m e = Some m' \<and> rel m' (e # xs) \<and> live m' = live m"
    and remove_law: "rel m xs \<Longrightarrow> e \<in> set xs \<Longrightarrow>
      \<exists>m'. remove m e = Some m' \<and> rel m' (remove1 e xs) \<and> live m' = live m"
    and distinct_law: "rel m xs \<Longrightarrow> distinct xs"
begin

lemma insert_all:
  "rel m xs \<Longrightarrow> distinct (rev es @ xs) \<Longrightarrow> \<forall>e \<in> set es. live m e \<Longrightarrow>
   \<exists>m'. fold_opt (\<lambda>e m. insert_front m e) es m = Some m' \<and> rel m' (rev es @ xs) \<and> live m' = live m"
proof (induction es arbitrary: m xs)
  case (Cons e es)
  obtain m1 where m1: "insert_front m e = Some m1" "rel m1 (e # xs)" "live m1 = live m"
    using insert_law [OF Cons.prems(1), of e] Cons.prems(2,3) by auto
  obtain m' where "fold_opt (\<lambda>e m. insert_front m e) es m1 = Some m'" "rel m' (rev es @ e # xs)" "live m' = live m1"
    using Cons.IH [OF m1(2)] Cons.prems(2,3) m1(3) by auto
  then show ?case using m1 by simp
qed simp

lemma remove_all:
  "rel m xs \<Longrightarrow> distinct es \<Longrightarrow> set es \<subseteq> set xs \<Longrightarrow>
   \<exists>m'. fold_opt (\<lambda>e m. remove m e) es m = Some m' \<and> rel m' (filter (\<lambda>x. x \<notin> set es) xs) \<and> live m' = live m"
proof (induction es arbitrary: m xs)
  case (Cons e es)
  have d: "distinct xs" by (rule distinct_law [OF Cons.prems(1)])
  obtain m1 where m1: "remove m e = Some m1" "rel m1 (remove1 e xs)" "live m1 = live m"
    using remove_law [OF Cons.prems(1), of e] Cons.prems(3) by auto
  have "set es \<subseteq> set (remove1 e xs)" using Cons.prems(2,3) d by auto
  then obtain m' where m': "fold_opt (\<lambda>e m. remove m e) es m1 = Some m'"
      "rel m' (filter (\<lambda>x. x \<notin> set es) (remove1 e xs))" "live m' = live m1"
    using Cons.IH [OF m1(2)] Cons.prems(2) by auto
  have "filter (\<lambda>x. x \<notin> set es) (remove1 e xs) = filter (\<lambda>x. x \<notin> set (e # es)) xs"
    by (simp add: distinct_remove1_removeAll [OF d] removeAll_filter_not_eq) (metis (mono_tags, lifting))
  then show ?case using m1 m' by simp
qed simp

end

definition slist_live :: "'a slist_mem \<Rightarrow> ptr \<Rightarrow> bool" where
  "slist_live m e \<longleftrightarrow> e \<noteq> 0 \<and> nodes m e \<noteq> None"

interpretation sl: node_list slist slist_live SLIST_INSERT_HEAD SLIST_REMOVE
proof
  fix m :: "'a slist_mem" and xs e
  have live: "slist_live m' = slist_live m" if "same_data m m'" for m'
    using same_data_live [OF that] by (auto simp: slist_live_def fun_eq_iff)
  show "\<exists>m'. SLIST_INSERT_HEAD m e = Some m' \<and> slist m' (e # xs) \<and> slist_live m' = slist_live m"
    if "slist m xs" "slist_live m e" "e \<notin> set xs"
    using insert_head_slist [OF that(1) _ _ that(3)] that(2) live by (metis slist_live_def)
  show "\<exists>m'. SLIST_REMOVE m e = Some m' \<and> slist m' (remove1 e xs) \<and> slist_live m' = slist_live m"
    if "slist m xs" "e \<in> set xs"
    using remove_slist [OF that] live by metis
  show "distinct xs" if "slist m xs"
    using chain_distinct that by (auto simp: slist_def)
qed

section \<open>Properties\<close>

lemma fold_break_collect:
  "fold_break (\<lambda>p (m, acc). Some ((m, acc @ [p]), False)) xs (m, acc) = Some (0, m, acc @ xs)"
  by (induction xs arbitrary: acc) simp_all

text \<open>Nodes inserted at the head of a fresh list one after another are all visited by
  \<open>SLIST_FOREACH\<close>, each once, the last inserted first.\<close>

theorem foreach_visits_inserted_nodes:
  assumes "distinct es" "\<forall>e \<in> set es. slist_live m e"
  shows "\<exists>m'. fold_opt (\<lambda>e m. SLIST_INSERT_HEAD m e) es (SLIST_INIT m) = Some m' \<and> slist m' (rev es) \<and>
    SLIST_FOREACH fst (\<lambda>p (m, acc). Some ((m, acc @ [p]), False)) (m', []) = Some (0, m', rev es)"
proof -
  have "slist_live (SLIST_INIT m) = slist_live m" by (simp add: slist_live_def SLIST_INIT_def fun_eq_iff)
  then obtain m' where m': "fold_opt (\<lambda>e m. SLIST_INSERT_HEAD m e) es (SLIST_INIT m) = Some m'" "slist m' (rev es)"
    using sl.insert_all [OF init_slist [of m], of es] assms by auto
  let ?body = "\<lambda>p (m, acc). Some ((m, acc @ [p]), False)"
  have "foreach_loop fst ?body (slh_first m') (m', []) = fold_break ?body (rev es) (m', [])"
    using m'(2) by (intro foreach_fold_break) (auto simp: slist_def)
  then show ?thesis using m' by (simp add: SLIST_FOREACH_def SLIST_FIRST_def fold_break_collect)
qed

text \<open>Two unlinked nodes.\<close>

definition two_nodes :: "nat slist_mem" where
  "two_nodes = \<lparr>nodes = [16 \<mapsto> \<lparr>elem_data = 7, sle_next = 0\<rparr>, 32 \<mapsto> \<lparr>elem_data = 8, sle_next = 0\<rparr>], slh_first = 0\<rparr>"

theorem foreach_visits_inserted_nodes_witness:
  "\<exists>m'. fold_opt (\<lambda>e m. SLIST_INSERT_HEAD m e) [16, 32] (SLIST_INIT two_nodes) = Some m' \<and> slist m' [32, 16]"
  using foreach_visits_inserted_nodes [of "[16, 32]" two_nodes] by (auto simp: slist_live_def two_nodes_def)

text \<open>C32. \<open>SLIST_REMOVE\<close> takes exactly the given node out of the list, wherever it is, and changes no
  node's data; for a node that is not in the list it runs off the end and is undefined.\<close>

theorem remove_exact:
  assumes "slist m xs" "e \<noteq> 0" "nodes m 0 = None"
  shows "if e \<in> set xs then \<exists>m'. SLIST_REMOVE m e = Some m' \<and> slist m' (remove1 e xs) \<and> same_data m m'
    else SLIST_REMOVE m e = None"
proof (cases "e \<in> set xs")
  case True
  then show ?thesis using remove_slist [OF assms(1) True] by metis
qed (use remove_missing [OF assms(1) _ assms(2,3)] in simp)

definition linked_nodes :: "nat slist_mem" where
  "linked_nodes = \<lparr>nodes = [16 \<mapsto> \<lparr>elem_data = 7, sle_next = 32\<rparr>, 32 \<mapsto> \<lparr>elem_data = 8, sle_next = 0\<rparr>], slh_first = 16\<rparr>"

theorem remove_exact_witness:
  "(\<exists>m'. SLIST_REMOVE linked_nodes 32 = Some m' \<and> slist m' [16]) \<and> SLIST_REMOVE linked_nodes 48 = None"
proof -
  have "slist linked_nodes [16, 32]" "nodes linked_nodes 0 = None"
    by (simp_all add: linked_nodes_def slist_def SLIST_NEXT_def)
  then show ?thesis
    using remove_exact [of linked_nodes "[16, 32]" 32] remove_exact [of linked_nodes "[16, 32]" 48] by auto
qed

text \<open>Concatenation appends the second list and empties its head.\<close>

theorem concat_appends:
  assumes "slist m xs" "chain m head2 ys" "set xs \<inter> set ys = {}"
  shows "\<exists>m'. SLIST_CONCAT m head2 = Some (m', 0) \<and> slist m' (xs @ ys) \<and> same_data m m'"
  using concat_slist [OF assms] by metis

theorem concat_appends_witness:
  "\<exists>m'. SLIST_CONCAT (linked_nodes\<lparr>nodes := (nodes linked_nodes)(48 \<mapsto> \<lparr>elem_data = 9, sle_next = 0\<rparr>)\<rparr>) 48 = Some (m', 0) \<and>
     slist m' [16, 32, 48]"
  using concat_appends [of "linked_nodes\<lparr>nodes := (nodes linked_nodes)(48 \<mapsto> \<lparr>elem_data = 9, sle_next = 0\<rparr>)\<rparr>" "[16, 32]" 48 "[48]"]
  by (auto simp: linked_nodes_def slist_def SLIST_NEXT_def)

end
