(* ===== verification/Socket_Server.thy ===== *)
theory Socket_Server
  imports Socket_Thread Slist "HOL-Library.Multiset"
begin

text \<open>
  The main thread of \<^verbatim>\<open>server/aesdsocket.c\<close>: start-up, the accept loop with its list of connections,
  the signal handler and \<open>daemonize\<close>. The operating system's answers are parameters; the state keeps
  the connection list in the memory model of \<open>Slist\<close>, the threads that exist and have not been joined,
  and what the program did to the outside. Undefined behaviour (a second \<open>freeaddrinfo\<close>, a NULL node)
  is \<open>None\<close>.
\<close>

section \<open>State and answers\<close>

text \<open>\<open>struct slist_data_s\<close>: the thread's data and the link of the list.\<close>

type_synonym slist_data = "thread_data slist_node"

record server_state =
  globals :: server_globals
  daemon_mode :: int
  deamon_flag :: int
  process_flag :: bool
  sig_handler_hit :: bool
  handlers :: "nat list"
  conns :: "thread_data slist_mem"
  threads :: "nat list"
  addrinfo_live :: bool
  daemonized :: bool
  trace :: "server_event list"

record setup_env =
  r_getaddrinfo :: int
  r_socket :: int
  r_setsockopt :: int
  r_bind :: int
  r_creat :: int
  r_daemon :: int

text \<open>One pass of the accept loop: the answers of \<open>listen\<close> and \<open>accept\<close>, the node \<open>malloc\<close> returns
  with its indeterminate contents, the identifier of the new thread (none when \<open>pthread_create\<close>
  fails), and which threads have marked their node complete when the list is searched.\<close>

record accept_env =
  r_listen :: int
  r_accept :: int
  r_malloc :: ptr
  r_contents :: slist_data
  r_thread :: "nat option"
  completed :: "ptr \<Rightarrow> bool"

datatype server_outcome = Running server_state | Returned server_state | ServerExit int "server_event list"

definition emit :: "server_event list \<Rightarrow> server_state \<Rightarrow> server_state" where
  "emit evs s = s\<lparr>trace := trace s @ evs\<rparr>"

definition freeaddrinfo :: "server_state \<Rightarrow> server_state option" where
  "freeaddrinfo s = (if addrinfo_live s then Some (s\<lparr>addrinfo_live := False\<rparr>) else None)"

section \<open>Signals and start-up\<close>

definition SIGINT :: nat where "SIGINT = 2"
definition SIGTERM :: nat where "SIGTERM = 15"

definition signal_handler :: "nat \<Rightarrow> server_state \<Rightarrow> server_outcome" where
  "signal_handler signo s =
     (if signo = SIGINT \<or> signo = SIGTERM
      then (let s = s\<lparr>sig_handler_hit := True\<rparr>; (status, evs) = exit_safely (globals s)
            in ServerExit status (trace s @ evs))
      else Running s)"

text \<open>\<open>daemonize\<close>: the results of the two \<open>fork\<close>s, \<open>setsid\<close> and \<open>chdir\<close>. The left result is the
  exit status of a process that ends here, the right one the descriptors the daemon closes.\<close>

definition daemonize :: "int \<Rightarrow> int \<Rightarrow> int \<Rightarrow> int \<Rightarrow> int + server_event list" where
  "daemonize fork1 sid fork2 chdir_result =
     (if fork1 < 0 then Inl 1
      else if 0 < fork1 then Inl 0
      else if sid < 0 then Inl 1
      else if fork2 < 0 then Inl 1
      else if 0 < fork2 then Inl 0
      else if chdir_result < 0 then Inl 1
      else Inr [EvClose 0, EvClose 1, EvClose 2])"

section \<open>The accept loop\<close>

definition set_data :: "'a slist_mem \<Rightarrow> ptr \<Rightarrow> ('a \<Rightarrow> 'a) \<Rightarrow> 'a slist_mem option" where
  "set_data m p upd =
     map_option (\<lambda>n. m\<lparr>nodes := (nodes m)(p \<mapsto> n\<lparr>elem_data := upd (elem_data n)\<rparr>)\<rparr>) (nodes m p)"

text \<open>The threads that have finished by now set the flag in their own nodes.\<close>

definition mark_completed :: "(ptr \<Rightarrow> bool) \<Rightarrow> thread_data slist_mem \<Rightarrow> thread_data slist_mem" where
  "mark_completed fin m =
     m\<lparr>nodes := (\<lambda>p. map_option (\<lambda>n. if fin p then n\<lparr>elem_data := (elem_data n)\<lparr>thread_complete := True\<rparr>\<rparr> else n) (nodes m p))\<rparr>"

text \<open>The body of the search: a complete node is joined, unlinked and freed, and the loop is left.\<close>

definition reap_body :: "ptr \<Rightarrow> server_state \<Rightarrow> (server_state \<times> bool) option" where
  "reap_body p s =
     do {
       n \<leftarrow> nodes (conns s) p;
       if thread_complete (elem_data n) then do {
         let s = s\<lparr>threads := remove1 (thread_id (elem_data n)) (threads s)\<rparr>;
         m \<leftarrow> SLIST_REMOVE (conns s) p;
         Some (s\<lparr>conns := m\<lparr>nodes := (nodes m)(p := None)\<rparr>\<rparr>, True)
       }
       else Some (s, False)
     }"

definition accept_step :: "accept_env \<Rightarrow> server_state \<Rightarrow> server_outcome option" where
  "accept_step A s =
     (if r_listen A = - 1 then do { s \<leftarrow> freeaddrinfo s; Some (ServerExit 1 (trace s)) }
      else if r_accept A = - 1 then Some (ServerExit 1 (trace s))
      else do {
        let p = r_malloc A;
        let m = (if p = 0 then conns s else (conns s)\<lparr>nodes := (nodes (conns s))(p \<mapsto> r_contents A)\<rparr>);
        m \<leftarrow> SLIST_INSERT_HEAD m p;
        m \<leftarrow> set_data m p (\<lambda>t. t\<lparr>client_fd := r_accept A, thread_complete := False\<rparr>);
        (m, created) \<leftarrow> (case r_thread A of
            None \<Rightarrow> Some (m, [])
          | Some t \<Rightarrow> map_option (\<lambda>m. (m, [t])) (set_data m p (\<lambda>d. d\<lparr>thread_id := t\<rparr>)));
        let s = s\<lparr>conns := mark_completed (completed A) m, threads := threads s @ created\<rparr>;
        (_, s) \<leftarrow> SLIST_FOREACH conns reap_body s;
        Some (Running s)
      })"

text \<open>\<open>while (!process_flag)\<close>, one element of the list per pass; when the list is used up the server
  waits in \<open>accept\<close>. After the loop the global \<open>client_socket\<close> and the local listening socket are
  closed.\<close>

fun accept_loop :: "int \<Rightarrow> accept_env list \<Rightarrow> server_state \<Rightarrow> server_outcome option" where
  "accept_loop listener as s =
     (if process_flag s
      then Some (Returned (emit [EvClose (client_socket (globals s)), EvClose listener] s))
      else case as of
        [] \<Rightarrow> Some (Running s)
      | A # as \<Rightarrow> do {
          out \<leftarrow> accept_step A s;
          case out of Running s \<Rightarrow> accept_loop listener as s | _ \<Rightarrow> Some out
        })"

definition socket_connection_operations ::
  "setup_env \<Rightarrow> accept_env list \<Rightarrow> server_state \<Rightarrow> server_outcome option" where
  "socket_connection_operations N as s =
     (let s = s\<lparr>conns := SLIST_INIT (conns s)\<rparr>
      in if r_getaddrinfo N \<noteq> 0 then Some (ServerExit 1 (trace s))
      else
        (let s = s\<lparr>addrinfo_live := True\<rparr>; listener = r_socket N
         in if listener = - 1 then do { s \<leftarrow> freeaddrinfo s; Some (ServerExit 1 (trace s)) }
            else if r_setsockopt N < 0 then do { s \<leftarrow> freeaddrinfo s; Some (ServerExit 1 (trace s)) }
            else if r_bind N = - 1 then do { s \<leftarrow> freeaddrinfo s; Some (ServerExit 1 (trace s)) }
            else if r_creat N = - 1 then Some (ServerExit 1 (trace s))
            else do {
              let s = emit [EvClose (r_creat N)] s;
              s \<leftarrow> freeaddrinfo s;
              let s = (if deamon_flag s = 1 \<and> r_daemon N \<noteq> - 1 then s\<lparr>daemonized := True\<rparr> else s);
              accept_loop listener as s
            }))"

definition server_main :: "string list \<Rightarrow> setup_env \<Rightarrow> accept_env list \<Rightarrow> server_state \<Rightarrow> server_outcome option" where
  "server_main argv N as s =
     do {
       let s = (if 1 < length argv \<and> argv ! 1 = ''-d'' then s\<lparr>daemon_mode := 1\<rparr> else s);
       let s = s\<lparr>handlers := [SIGINT, SIGTERM]\<rparr>;
       out \<leftarrow> socket_connection_operations N as s;
       Some (case out of Returned s \<Rightarrow> ServerExit 0 (trace s @ [EvCloselog]) | _ \<Rightarrow> out)
     }"

text \<open>The globals as the program starts.\<close>

definition initial_server :: server_state where
  "initial_server = \<lparr>globals = \<lparr>server_socket = 0, client_socket = 0\<rparr>, daemon_mode = 0, deamon_flag = 0,
     process_flag = False, sig_handler_hit = False, handlers = [],
     conns = \<lparr>nodes = Map.empty, slh_first = 0\<rparr>, threads = [], addrinfo_live = False, daemonized = False, trace = []\<rparr>"

section \<open>The list of connections\<close>

text \<open>The parts of the state that only start-up and the signal handler change.\<close>

definition same_program :: "server_state \<Rightarrow> server_state \<Rightarrow> bool" where
  "same_program s s' \<longleftrightarrow>
     globals s' = globals s \<and> daemon_mode s' = daemon_mode s \<and> deamon_flag s' = deamon_flag s \<and>
     process_flag s' = process_flag s \<and> sig_handler_hit s' = sig_handler_hit s \<and> handlers s' = handlers s \<and>
     addrinfo_live s' = addrinfo_live s \<and> daemonized s' = daemonized s \<and> trace s' = trace s"

lemma same_program_update [simp]:
  "same_program s s" "same_program s (s\<lparr>conns := m\<rparr>)" "same_program s (s\<lparr>threads := ts\<rparr>)"
  "same_program s (s\<lparr>threads := ts, conns := m\<rparr>)"
  "same_program s (s\<lparr>conns := m, threads := ts\<rparr>)"
  by (simp_all add: same_program_def)

lemma same_program_trans: "same_program s s' \<Longrightarrow> same_program s' s'' \<Longrightarrow> same_program s s''"
  by (simp add: same_program_def)

definition conn_data :: "server_state \<Rightarrow> ptr \<Rightarrow> thread_data option" where
  "conn_data s p = map_option elem_data (nodes (conns s) p)"

definition conn_ids :: "server_state \<Rightarrow> ptr list \<Rightarrow> nat list" where
  "conn_ids s ps = map (\<lambda>p. thread_id (the (conn_data s p))) ps"

text \<open>The list links exactly the nodes that exist, and the threads not yet joined are those of its
  nodes.\<close>

definition registry :: "server_state \<Rightarrow> ptr list \<Rightarrow> bool" where
  "registry s ps \<longleftrightarrow> slist (conns s) ps \<and> (\<forall>p. conn_data s p \<noteq> None \<longleftrightarrow> p \<in> set ps) \<and>
     mset (conn_ids s ps) = mset (threads s)"

lemma slist_cong:
  assumes "slh_first m' = slh_first m" "\<And>x. x \<in> set xs \<Longrightarrow> SLIST_NEXT m' x = SLIST_NEXT m x"
  shows "slist m' xs = slist m xs"
  using chain_frame [of xs m' m "slh_first m"] assms by (simp add: slist_def)

lemma slist_update_outside:
  "p \<notin> set xs \<Longrightarrow> slist (m\<lparr>nodes := (nodes m)(p := v)\<rparr>) xs = slist m xs"
  by (rule slist_cong) (auto simp: SLIST_NEXT_def)

lemma set_data_Some:
  assumes "map_option elem_data (nodes m p) = Some d"
  obtains m' where "set_data m p upd = Some m'" "slh_first m' = slh_first m" "\<forall>x. SLIST_NEXT m' x = SLIST_NEXT m x"
    "map_option elem_data (nodes m' p) = Some (upd d)"
    "\<forall>x. x \<noteq> p \<longrightarrow> map_option elem_data (nodes m' x) = map_option elem_data (nodes m x)"
proof -
  obtain n where n: "nodes m p = Some n" "elem_data n = d" using assms by auto
  then show thesis
    using that [of "m\<lparr>nodes := (nodes m)(p \<mapsto> n\<lparr>elem_data := upd (elem_data n)\<rparr>)\<rparr>"]
    by (simp add: set_data_def SLIST_NEXT_def)
qed

lemma mark_completed_facts:
  "slh_first (mark_completed fin m) = slh_first m" "SLIST_NEXT (mark_completed fin m) x = SLIST_NEXT m x"
  "map_option elem_data (nodes (mark_completed fin m) x) =
     map_option (\<lambda>d. if fin x then d\<lparr>thread_complete := True\<rparr> else d) (map_option elem_data (nodes m x))"
  by (cases "nodes m x"; simp add: mark_completed_def SLIST_NEXT_def)+

text \<open>The new node in front, with its fields set and the flags of finished threads raised.\<close>

lemma accept_insert:
  assumes reg: "registry s ps" and p: "p \<noteq> 0" "conn_data s p = None"
  obtains m1 m2 m3 where
    "SLIST_INSERT_HEAD ((conns s)\<lparr>nodes := (nodes (conns s))(p \<mapsto> junk)\<rparr>) p = Some m1"
    "set_data m1 p (\<lambda>t. t\<lparr>client_fd := fd, thread_complete := False\<rparr>) = Some m2"
    "set_data m2 p (\<lambda>d. d\<lparr>thread_id := t\<rparr>) = Some m3"
    "registry (s\<lparr>conns := mark_completed fin m3, threads := threads s @ [t]\<rparr>) (p # ps)"
    "map_option elem_data (nodes (mark_completed fin m3) p) = Some \<lparr>thread_id = t, client_fd = fd, thread_complete = fin p\<rparr>"
    "\<forall>q. q \<noteq> p \<longrightarrow> map_option elem_data (nodes (mark_completed fin m3) q) =
      map_option (\<lambda>d. if fin q then d\<lparr>thread_complete := True\<rparr> else d) (conn_data s q)"
proof -
  let ?m0 = "(conns s)\<lparr>nodes := (nodes (conns s))(p \<mapsto> junk)\<rparr>"
  have notin: "p \<notin> set ps" using reg p(2) unfolding registry_def by metis
  have "slist ?m0 ps"
    using reg by (simp add: registry_def slist_update_outside [OF notin])
  then obtain m1 where m1: "SLIST_INSERT_HEAD ?m0 p = Some m1" "slist m1 (p # ps)" "same_data ?m0 m1"
    using insert_head_slist [of ?m0 ps p] p(1) notin by auto
  have d1: "map_option elem_data (nodes m1 x) = map_option elem_data (nodes ?m0 x)" for x
    using m1(3) by (simp add: same_data_def)
  have "map_option elem_data (nodes m1 p) = Some (elem_data junk)" by (simp add: d1)
  then obtain m2 where m2: "set_data m1 p (\<lambda>t. t\<lparr>client_fd := fd, thread_complete := False\<rparr>) = Some m2"
    "slh_first m2 = slh_first m1" "\<forall>x. SLIST_NEXT m2 x = SLIST_NEXT m1 x"
    "map_option elem_data (nodes m2 p) = Some ((elem_data junk)\<lparr>client_fd := fd, thread_complete := False\<rparr>)"
    "\<forall>x. x \<noteq> p \<longrightarrow> map_option elem_data (nodes m2 x) = map_option elem_data (nodes m1 x)"
    by (rule set_data_Some)
  obtain m3 where m3: "set_data m2 p (\<lambda>d. d\<lparr>thread_id := t\<rparr>) = Some m3"
    "slh_first m3 = slh_first m2" "\<forall>x. SLIST_NEXT m3 x = SLIST_NEXT m2 x"
    "map_option elem_data (nodes m3 p) = Some ((elem_data junk)\<lparr>client_fd := fd, thread_complete := False, thread_id := t\<rparr>)"
    "\<forall>x. x \<noteq> p \<longrightarrow> map_option elem_data (nodes m3 x) = map_option elem_data (nodes m2 x)"
    by (rule set_data_Some [OF m2(4)])
  let ?s = "s\<lparr>conns := mark_completed fin m3, threads := threads s @ [t]\<rparr>"
  have dp: "map_option elem_data (nodes (mark_completed fin m3) p) = Some \<lparr>thread_id = t, client_fd = fd, thread_complete = fin p\<rparr>"
    unfolding mark_completed_facts m3(4) by (cases "elem_data junk") simp
  have dq: "map_option elem_data (nodes (mark_completed fin m3) q) =
      map_option (\<lambda>d. if fin q then d\<lparr>thread_complete := True\<rparr> else d) (conn_data s q)" if "q \<noteq> p" for q
    unfolding mark_completed_facts using that m3(5) m2(5) d1 by (simp add: conn_data_def)
  have "slist (mark_completed fin m3) (p # ps)"
    using m1(2) slist_cong [of "mark_completed fin m3" m1 "p # ps"] m2(2,3) m3(2,3) by (simp add: mark_completed_facts)
  moreover have "conn_data ?s q \<noteq> None \<longleftrightarrow> q \<in> set (p # ps)" for q
    using reg dp dq [of q] by (cases "q = p") (auto simp: conn_data_def registry_def)
  moreover have "mset (conn_ids ?s (p # ps)) = mset (threads ?s)"
  proof -
    have "thread_id (the (conn_data ?s q)) = thread_id (the (conn_data s q))" if "q \<in> set ps" for q
    proof -
      have "q \<noteq> p" "conn_data s q \<noteq> None" using that notin reg by (auto simp: registry_def)
      then show ?thesis using dq [of q] by (auto simp: conn_data_def)
    qed
    then have "conn_ids ?s ps = conn_ids s ps" by (simp add: conn_ids_def)
    moreover have "thread_id (the (conn_data ?s p)) = t" using dp by (simp add: conn_data_def del: map_option_eq_Some)
    then have "conn_ids ?s (p # ps) = t # conn_ids ?s ps" by (simp add: conn_ids_def)
    ultimately show ?thesis using reg by (simp add: registry_def)
  qed
  ultimately have "registry ?s (p # ps)" by (simp add: registry_def)
  then show thesis using that m1(1) m2(1) m3(1) dp dq by blast
qed

text \<open>The search joins, unlinks and frees the first complete node, and no other.\<close>

lemma reap_one:
  assumes reg: "registry s qs" and q: "q \<in> set qs" "conn_data s q = Some d" "thread_complete d"
  obtains s' where "reap_body q s = Some (s', True)" "registry s' (remove1 q qs)"
    "threads s' = remove1 (thread_id d) (threads s)" "nodes (conns s') q = None"
    "\<forall>p. p \<noteq> q \<longrightarrow> conn_data s' p = conn_data s p"
    "same_program s s'"
proof -
  have sl: "slist (conns s) qs" using reg by (simp add: registry_def)
  have dist: "distinct qs" using sl chain_distinct by (auto simp: slist_def)
  obtain m where m: "SLIST_REMOVE (conns s) q = Some m" "slist m (remove1 q qs)" "same_data (conns s) m"
    using remove_slist [OF sl q(1)] by metis
  obtain n where n: "nodes (conns s) q = Some n" "elem_data n = d"
    using q(2) by (auto simp: conn_data_def)
  let ?m = "m\<lparr>nodes := (nodes m)(q := None)\<rparr>"
  let ?s = "s\<lparr>threads := remove1 (thread_id d) (threads s), conns := ?m\<rparr>"
  have notin: "q \<notin> set (remove1 q qs)" using dist by simp
  have sl': "slist ?m (remove1 q qs)"
    using m(2) by (simp add: slist_update_outside [OF notin])
  have data: "conn_data ?s p = conn_data s p" if "p \<noteq> q" for p
    using m(3) that by (simp add: conn_data_def same_data_def)
  have ids: "conn_ids ?s (remove1 q qs) = conn_ids s (remove1 q qs)"
    unfolding conn_ids_def
  proof (rule map_cong [OF refl])
    fix p assume "p \<in> set (remove1 q qs)"
    then have "p \<noteq> q" using notin by metis
    from data [OF this] show "thread_id (the (conn_data ?s p)) = thread_id (the (conn_data s p))" by (simp only:)
  qed
  have "mset (conn_ids ?s (remove1 q qs)) = mset (threads ?s)"
  proof -
    have "mset (conn_ids s (remove1 q qs)) = mset (conn_ids s qs) - {#thread_id (the (conn_data s q))#}"
      using q(1) by (simp add: conn_ids_def image_mset_Diff)
    then show ?thesis using reg q(2) by (simp add: registry_def ids)
  qed
  moreover have "conn_data ?s p \<noteq> None \<longleftrightarrow> p \<in> set (remove1 q qs)" for p
  proof (cases "p = q")
    case True
    then show ?thesis using notin by (simp add: conn_data_def)
  next
    case False
    then show ?thesis using reg data [OF False] by (simp add: registry_def)
  qed
  ultimately have "registry ?s (remove1 q qs)" using sl' by (simp add: registry_def)
  moreover have "reap_body q s = Some (?s, True)" using n m(1) q(3) by (simp add: reap_body_def)
  ultimately show thesis using that [of ?s] data by simp
qed

lemma reap_skip:
  "conn_data s q = Some d \<Longrightarrow> \<not> thread_complete d \<Longrightarrow> reap_body q s = Some (s, False)"
  by (auto simp: reap_body_def conn_data_def)

lemma reap_body_continue: "reap_body q s = Some (s', False) \<Longrightarrow> s' = s"
  by (auto simp: reap_body_def split: if_splits Option.bind_splits)

definition complete_in :: "server_state \<Rightarrow> ptr \<Rightarrow> bool" where
  "complete_in s q \<longleftrightarrow> (case conn_data s q of None \<Rightarrow> False | Some d \<Rightarrow> thread_complete d)"

lemma fold_break_reap:
  assumes "\<forall>q \<in> set qs. conn_data s q \<noteq> None"
  shows "fold_break reap_body qs s =
    (case find (complete_in s) qs of
       None \<Rightarrow> Some (0, s)
     | Some q \<Rightarrow> map_option (\<lambda>(s', stop). (q, s')) (reap_body q s))"
  using assms
proof (induction qs)
  case (Cons q qs)
  then obtain d where d: "conn_data s q = Some d" by auto
  show ?case
  proof (cases "thread_complete d")
    case True
    then obtain s' where "reap_body q s = Some (s', True) \<or> reap_body q s = None"
      using d by (cases "SLIST_REMOVE (conns s) q") (auto simp: reap_body_def conn_data_def)
    then show ?thesis using d True by (auto simp: complete_in_def)
  next
    case False
    then show ?thesis using d Cons reap_skip [OF d False] by (simp add: complete_in_def)
  qed
qed simp

lemma foreach_reap:
  assumes "registry s qs"
  shows "SLIST_FOREACH conns reap_body s = fold_break reap_body qs s"
proof -
  have "foreach_loop conns reap_body (slh_first (conns s)) s = fold_break reap_body qs s"
    by (rule foreach_fold_break) (use assms reap_body_continue in \<open>auto simp: registry_def slist_def\<close>)
  then show ?thesis by (simp add: SLIST_FOREACH_def SLIST_FIRST_def)
qed

lemma find_SomeD: "find P xs = Some x \<Longrightarrow> x \<in> set xs \<and> P x"
  by (auto simp: find_Some_iff)

text \<open>One pass of the accept loop.\<close>

lemma accept_step_exec:
  assumes reg: "registry s ps" and ok: "r_listen A \<noteq> - 1" "r_accept A \<noteq> - 1"
    and p: "r_malloc A \<noteq> 0" "conn_data s (r_malloc A) = None" and t: "r_thread A = Some t"
  obtains s1 s' where "accept_step A s = Some (Running s')"
    "registry s1 (r_malloc A # ps)" "threads s1 = threads s @ [t]"
    "\<forall>q \<in> set (r_malloc A # ps). complete_in s1 q \<longleftrightarrow> completed A q \<or> complete_in s q"
    "case find (complete_in s1) (r_malloc A # ps) of
       None \<Rightarrow> s' = s1
     | Some q \<Rightarrow> registry s' (remove1 q (r_malloc A # ps)) \<and>
         threads s' = remove1 (thread_id (the (conn_data s1 q))) (threads s1) \<and> nodes (conns s') q = None \<and>
         (\<forall>x. x \<noteq> q \<longrightarrow> conn_data s' x = conn_data s1 x)"
    "same_program s s'"
proof -
  let ?p = "r_malloc A"
  obtain m1 m2 m3 where ins:
    "SLIST_INSERT_HEAD ((conns s)\<lparr>nodes := (nodes (conns s))(?p \<mapsto> r_contents A)\<rparr>) ?p = Some m1"
    "set_data m1 ?p (\<lambda>t. t\<lparr>client_fd := r_accept A, thread_complete := False\<rparr>) = Some m2"
    "set_data m2 ?p (\<lambda>d. d\<lparr>thread_id := t\<rparr>) = Some m3"
    "registry (s\<lparr>conns := mark_completed (completed A) m3, threads := threads s @ [t]\<rparr>) (?p # ps)"
    "map_option elem_data (nodes (mark_completed (completed A) m3) ?p) =
      Some \<lparr>thread_id = t, client_fd = r_accept A, thread_complete = completed A ?p\<rparr>"
    "\<forall>q. q \<noteq> ?p \<longrightarrow> map_option elem_data (nodes (mark_completed (completed A) m3) q) =
      map_option (\<lambda>d. if completed A q then d\<lparr>thread_complete := True\<rparr> else d) (conn_data s q)"
    by (rule accept_insert [OF reg p, where junk = "r_contents A" and fd = "r_accept A" and t = t and fin = "completed A"])
  let ?s1 = "s\<lparr>conns := mark_completed (completed A) m3, threads := threads s @ [t]\<rparr>"
  have live: "\<forall>q \<in> set (?p # ps). conn_data ?s1 q \<noteq> None" using ins(4) by (simp add: registry_def)
  have comp: "complete_in ?s1 q \<longleftrightarrow> completed A q \<or> complete_in s q" if "q \<in> set (?p # ps)" for q
  proof (cases "q = ?p")
    case True
    have "conn_data ?s1 ?p = Some \<lparr>thread_id = t, client_fd = r_accept A, thread_complete = completed A ?p\<rparr>"
      using ins(5) by (simp add: conn_data_def del: map_option_eq_Some)
    then show ?thesis using p(2) True by (simp add: complete_in_def)
  next
    case False
    then have "conn_data ?s1 q = map_option (\<lambda>d. if completed A q then d\<lparr>thread_complete := True\<rparr> else d) (conn_data s q)"
      using ins(6) False by (simp add: conn_data_def)
    moreover have "conn_data s q \<noteq> None" using that False reg by (simp add: registry_def)
    ultimately show ?thesis by (auto simp: complete_in_def split: if_splits)
  qed
  have run: "accept_step A s = do { (_, s) \<leftarrow> fold_break reap_body (?p # ps) ?s1; Some (Running s) }"
    using ok p(1) t ins(1-3) foreach_reap [OF ins(4)] by (simp add: accept_step_def Let_def)
  show thesis
  proof (cases "find (complete_in ?s1) (?p # ps)")
    case None
    then have "accept_step A s = Some (Running ?s1)"
      unfolding run fold_break_reap [OF live] by simp
    then show thesis
      by (rule that [of ?s1 ?s1]) (use ins(4) comp None in simp_all)
  next
    case (Some q)
    from find_SomeD [OF this] have q: "q \<in> set (?p # ps)" "complete_in ?s1 q" by blast+
    then obtain d where d: "conn_data ?s1 q = Some d" "thread_complete d"
      by (auto simp: complete_in_def split: option.splits)
    obtain s' where s': "reap_body q ?s1 = Some (s', True)" "registry s' (remove1 q (?p # ps))"
      "threads s' = remove1 (thread_id d) (threads ?s1)" "nodes (conns s') q = None"
      "\<forall>p. p \<noteq> q \<longrightarrow> conn_data s' p = conn_data ?s1 p" "same_program ?s1 s'"
      using reap_one [OF ins(4) q(1) d] by metis
    have "accept_step A s = Some (Running s')"
      unfolding run fold_break_reap [OF live] using Some s'(1) by simp
    then show thesis
    proof (rule that [of s' ?s1])
      show "same_program s s'"
        by (rule same_program_trans [OF _ s'(6)]) (simp add: same_program_def)
    qed (use ins(4) comp Some s' d in simp_all)
  qed
qed

text \<open>The same for a given list of results: whose node is taken out, and what does not change.\<close>

definition after_accept :: "accept_env \<Rightarrow> server_state \<Rightarrow> ptr list \<Rightarrow> ptr list" where
  "after_accept A s ps =
     (case find (\<lambda>q. completed A q \<or> complete_in s q) (r_malloc A # ps) of
        None \<Rightarrow> r_malloc A # ps
      | Some q \<Rightarrow> remove1 q (r_malloc A # ps))"

lemma accept_step_registry:
  assumes reg: "registry s ps" and ok: "r_listen A \<noteq> - 1" "r_accept A \<noteq> - 1"
    and p: "r_malloc A \<noteq> 0" "r_malloc A \<notin> set ps" and t: "r_thread A = Some t"
  obtains s' where "accept_step A s = Some (Running s')" "registry s' (after_accept A s ps)"
    "same_program s s'"
proof -
  have fresh: "conn_data s (r_malloc A) = None" using reg p(2) unfolding registry_def by metis
  obtain s1 s' where e: "accept_step A s = Some (Running s')"
    "registry s1 (r_malloc A # ps)"
    "\<forall>q \<in> set (r_malloc A # ps). complete_in s1 q \<longleftrightarrow> completed A q \<or> complete_in s q"
    "case find (complete_in s1) (r_malloc A # ps) of
       None \<Rightarrow> s' = s1
     | Some q \<Rightarrow> registry s' (remove1 q (r_malloc A # ps)) \<and>
         threads s' = remove1 (thread_id (the (conn_data s1 q))) (threads s1) \<and> nodes (conns s') q = None \<and>
         (\<forall>x. x \<noteq> q \<longrightarrow> conn_data s' x = conn_data s1 x)"
    "same_program s s'"
    by (rule accept_step_exec [OF reg ok p(1) fresh t])
  have "find (complete_in s1) (r_malloc A # ps) = find (\<lambda>q. completed A q \<or> complete_in s q) (r_malloc A # ps)"
    by (rule find_cong [OF refl]) (use e(3) in blast)
  then have "registry s' (after_accept A s ps)"
    using e(2,4) unfolding after_accept_def
    by (cases "find (\<lambda>q. completed A q \<or> complete_in s q) (r_malloc A # ps)") (simp_all del: find.simps)
  then show thesis using that e(1,5) by blast
qed

lemma after_accept_set: "set (after_accept A s ps) \<subseteq> insert (r_malloc A) (set ps)"
  unfolding after_accept_def using set_remove1_subset [of _ "r_malloc A # ps"]
  by (cases "find (\<lambda>q. completed A q \<or> complete_in s q) (r_malloc A # ps)") (simp, fastforce)

lemma after_accept_length: "length ps \<le> length (after_accept A s ps)"
  unfolding after_accept_def
  by (cases "find (\<lambda>q. completed A q \<or> complete_in s q) (r_malloc A # ps)")
    (auto simp: length_remove1 simp del: find.simps dest: find_SomeD)

section \<open>What the loop leaves alone\<close>

lemma reap_body_same: "reap_body p s = Some (s', stop) \<Longrightarrow> same_program s s'"
  by (auto simp: reap_body_def split: if_splits Option.bind_splits)

text \<open>A loop changes no more than its body, whether or not the list is well formed.\<close>

lemma foreach_preserves:
  assumes R: "\<And>s. R s s" "\<And>s s' s''. R s s' \<Longrightarrow> R s' s'' \<Longrightarrow> R s s''"
    and body: "\<And>p s s' stop. body p s = Some (s', stop) \<Longrightarrow> R s s'"
    and run: "foreach_loop mem body p s = Some r"
  shows "R s (snd r)"
proof -
  have "(\<forall>p s s' stop. body p s = Some (s', stop) \<longrightarrow> R s s') \<longrightarrow> R s (snd r)"
  proof (rule foreach_loop.raw_induct [OF _ run, where P = "\<lambda>mem body p s r.
      (\<forall>p s s' stop. body p s = Some (s', stop) \<longrightarrow> R s s') \<longrightarrow> R s (snd r)"])
    fix rec and mem :: "'a \<Rightarrow> 'b slist_mem" and body and var :: ptr and s y
    assume IH: "\<And>mem body var s y. rec mem body var s = Some y \<Longrightarrow>
        (\<forall>p s s' stop. body p s = Some (s', stop) \<longrightarrow> R s s') \<longrightarrow> R s (snd y)"
      and eq: "(if var = 0 then Some (0, s)
        else Option.bind (body var s) (\<lambda>(s, stop).
          if stop then Some (var, s) else Option.bind (SLIST_NEXT (mem s) var) (\<lambda>q. rec mem body q s))) = Some y"
    show "(\<forall>p s s' stop. body p s = Some (s', stop) \<longrightarrow> R s s') \<longrightarrow> R s (snd y)"
    proof
      assume b: "\<forall>p s s' stop. body p s = Some (s', stop) \<longrightarrow> R s s'"
      show "R s (snd y)"
      proof (cases "var = 0")
        case True
        then show ?thesis using eq R(1) by auto
      next
        case False
        then obtain s1 stop where s1: "body var s = Some (s1, stop)"
          and rest: "(if stop then Some (var, s1) else Option.bind (SLIST_NEXT (mem s1) var) (\<lambda>q. rec mem body q s1)) = Some y"
          using eq by (auto simp: bind_Some_iff)
        have R1: "R s s1" using b s1 by blast
        show ?thesis
        proof (cases stop)
          case True
          then show ?thesis using rest R1 by auto
        next
          case False
          then obtain q where "rec mem body q s1 = Some y" using rest by (auto simp: bind_Some_iff)
          then have "R s1 (snd y)" using IH b by blast
          then show ?thesis using R1 R(2) by blast
        qed
      qed
    qed
  qed
  then show ?thesis using body by blast
qed

lemma threads_id: "s\<lparr>conns := m, threads := threads s\<rparr> = s\<lparr>conns := m\<rparr>"
  by simp

lemma accept_step_same: "accept_step A s = Some (Running s') \<Longrightarrow> same_program s s'"
proof -
  assume run: "accept_step A s = Some (Running s')"
  then obtain m ts q where "SLIST_FOREACH conns reap_body (s\<lparr>conns := m, threads := threads s @ ts\<rparr>) = Some (q, s')"
    by (cases "r_thread A") (auto simp: accept_step_def Let_def bind_Some_iff split: if_splits,
      metis append_Nil2 threads_id, metis append_Nil2 threads_id)
  then have "same_program (s\<lparr>conns := m, threads := threads s @ ts\<rparr>) s'"
    using foreach_preserves [of same_program reap_body, OF same_program_update(1) same_program_trans reap_body_same]
    by (force simp: SLIST_FOREACH_def)
  then show "same_program s s'"
    using same_program_trans same_program_update(5) by blast
qed

declare accept_loop.simps [simp del]

lemma accept_loop_Nil: "\<not> process_flag s \<Longrightarrow> accept_loop listener [] s = Some (Running s)"
  by (subst accept_loop.simps) simp

lemma accept_loop_Cons:
  "\<not> process_flag s \<Longrightarrow> accept_loop listener (A # as) s =
     Option.bind (accept_step A s) (\<lambda>out. case out of Running s \<Rightarrow> accept_loop listener as s | _ \<Rightarrow> Some out)"
  by (subst accept_loop.simps) simp

text \<open>A loop that is still running has made one pass per element.\<close>

lemma accept_loop_running:
  assumes "accept_loop listener (A # as) s = Some (Running s')"
  obtains s1 where "accept_step A s = Some (Running s1)" "accept_loop listener as s1 = Some (Running s')" "\<not> process_flag s"
proof -
  have pf: "\<not> process_flag s" using assms by (subst (asm) accept_loop.simps) (simp split: if_splits)
  obtain out where out: "accept_step A s = Some out"
    "(case out of Running s \<Rightarrow> accept_loop listener as s | _ \<Rightarrow> Some out) = Some (Running s')"
    using assms accept_loop_Cons [OF pf] by (auto simp: bind_Some_iff)
  then show thesis using that pf by (cases out) auto
qed

lemma accept_loop_same: "accept_loop listener as s = Some (Running s') \<Longrightarrow> same_program s s'"
proof (induction as arbitrary: s)
  case Nil
  then show ?case by (subst (asm) accept_loop.simps) (simp split: if_splits)
next
  case (Cons A as)
  then show ?case using accept_step_same same_program_trans by (blast elim: accept_loop_running)
qed

lemma accept_loop_append:
  "accept_loop listener as s = Some (Running s') \<Longrightarrow> accept_loop listener (as @ bs) s = accept_loop listener bs s'"
proof (induction as arbitrary: s)
  case Nil
  then have "s' = s" by (subst (asm) accept_loop.simps) (simp split: if_splits)
  then show ?case by simp
next
  case (Cons A as)
  obtain s1 where "accept_step A s = Some (Running s1)" "accept_loop listener as s1 = Some (Running s')" "\<not> process_flag s"
    using Cons.prems by (rule accept_loop_running)
  then show ?case using Cons.IH by (simp add: accept_loop_Cons)
qed

text \<open>The state in which the accept loop starts.\<close>

definition started :: "string list \<Rightarrow> setup_env \<Rightarrow> server_state" where
  "started argv N = initial_server\<lparr>daemon_mode := (if 1 < length argv \<and> argv ! 1 = ''-d'' then 1 else 0),
     handlers := [SIGINT, SIGTERM], trace := [EvClose (r_creat N)]\<rparr>"

definition setup_ok :: "setup_env \<Rightarrow> bool" where
  "setup_ok N \<longleftrightarrow> r_getaddrinfo N = 0 \<and> r_socket N \<noteq> - 1 \<and> 0 \<le> r_setsockopt N \<and> r_bind N \<noteq> - 1 \<and> r_creat N \<noteq> - 1"

lemma server_main_exec:
  "server_main argv N as initial_server =
     (if setup_ok N
      then map_option (\<lambda>out. case out of Returned s \<Rightarrow> ServerExit 0 (trace s @ [EvCloselog]) | _ \<Rightarrow> out)
             (accept_loop (r_socket N) as (started argv N))
      else Some (ServerExit 1 []))"
proof (cases "setup_ok N")
  case True
  show ?thesis
    using True
    by (simp add: server_main_def socket_connection_operations_def setup_ok_def freeaddrinfo_def emit_def started_def
        initial_server_def SLIST_INIT_def Let_def map_conv_bind_option comp_def)
next
  case False
  then show ?thesis
    by (auto simp: server_main_def socket_connection_operations_def setup_ok_def freeaddrinfo_def emit_def
        initial_server_def Let_def)
qed

lemma server_main_running:
  assumes "server_main argv N as initial_server = Some (Running s)"
  shows "setup_ok N" "accept_loop (r_socket N) as (started argv N) = Some (Running s)" "same_program (started argv N) s"
proof -
  show ok: "setup_ok N" using assms by (simp add: server_main_exec split: if_splits)
  obtain out where out: "accept_loop (r_socket N) as (started argv N) = Some out"
    "(case out of Returned s \<Rightarrow> ServerExit 0 (trace s @ [EvCloselog]) | _ \<Rightarrow> out) = Running s"
    using assms ok by (auto simp: server_main_exec)
  then show "accept_loop (r_socket N) as (started argv N) = Some (Running s)" by (cases out) simp_all
  then show "same_program (started argv N) s" by (rule accept_loop_same)
qed

lemma started_simps:
  "globals (started argv N) = \<lparr>server_socket = 0, client_socket = 0\<rparr>" "\<not> process_flag (started argv N)"
  "deamon_flag (started argv N) = 0" "\<not> daemonized (started argv N)" "\<not> addrinfo_live (started argv N)"
  "trace (started argv N) = [EvClose (r_creat N)]"
  "daemon_mode (started argv N) = (if 1 < length argv \<and> argv ! 1 = ''-d'' then 1 else 0)"
  by (simp_all add: started_def initial_server_def)

lemma accept_passes:
  assumes "\<forall>A \<in> set as. r_listen A \<noteq> - 1 \<and> r_accept A \<noteq> - 1 \<and> r_malloc A \<noteq> 0 \<and> r_thread A \<noteq> None"
  shows "registry s ps \<Longrightarrow> distinct (map r_malloc as) \<Longrightarrow> set ps \<inter> r_malloc ` set as = {} \<Longrightarrow> \<not> process_flag s \<Longrightarrow>
    \<exists>s' ps'. accept_loop listener as s = Some (Running s') \<and> registry s' ps' \<and> length ps \<le> length ps' \<and>
      set ps' \<subseteq> set ps \<union> r_malloc ` set as"
  using assms
proof (induction as arbitrary: s ps)
  case Nil
  then show ?case by (auto simp: accept_loop_Nil)
next
  case (Cons A as)
  obtain t where t: "r_thread A = Some t" using Cons.prems(5) by auto
  obtain s1 where s1: "accept_step A s = Some (Running s1)" "registry s1 (after_accept A s ps)" "same_program s s1"
    by (rule accept_step_registry [OF Cons.prems(1) _ _ _ _ t]) (use Cons.prems in auto)
  have pf: "\<not> process_flag s1" using s1(3) Cons.prems(4) by (simp add: same_program_def)
  have disj: "set (after_accept A s ps) \<inter> r_malloc ` set as = {}"
  proof -
    have "r_malloc A \<notin> r_malloc ` set as" using Cons.prems(2) by simp
    moreover have "set ps \<inter> r_malloc ` set as = {}" using Cons.prems(3) by auto
    ultimately have "insert (r_malloc A) (set ps) \<inter> r_malloc ` set as = {}" by simp
    then show ?thesis
      using Int_mono [OF after_accept_set order_refl, of A s ps "r_malloc ` set as"] by (metis subset_empty)
  qed
  obtain s' ps' where rest: "accept_loop listener as s1 = Some (Running s')" "registry s' ps'"
    "length (after_accept A s ps) \<le> length ps'" "set ps' \<subseteq> set (after_accept A s ps) \<union> r_malloc ` set as"
  proof -
    have "distinct (map r_malloc as)"
      "\<forall>A \<in> set as. r_listen A \<noteq> - 1 \<and> r_accept A \<noteq> - 1 \<and> r_malloc A \<noteq> 0 \<and> r_thread A \<noteq> None"
      using Cons.prems(2,5) by simp_all
    from Cons.IH [OF s1(2) this(1) disj pf this(2)] show ?thesis using that by blast
  qed
  have "accept_loop listener (A # as) s = Some (Running s')"
    using s1(1) rest(1) Cons.prems(4) by (simp add: accept_loop_Cons)
  moreover have "length ps \<le> length ps'" using rest(3) after_accept_length [of ps A s] by simp
  moreover have "set ps' \<subseteq> set ps \<union> r_malloc ` set (A # as)"
    using rest(4) after_accept_set [of A s ps] by auto
  ultimately show ?case using rest(2) by blast
qed

section \<open>Properties\<close>

text \<open>C14. A pass of the accept loop that gets a connection puts a new node for it in front of the list
  and starts its thread; it then joins, unlinks and frees exactly the first node of the list whose
  thread has finished, if there is one. The list always links exactly the nodes that exist, and the
  unjoined threads are those of its nodes: no thread is joined twice and no node is used after it is
  freed.\<close>

theorem accept_registers_and_reaps_one:
  assumes "registry s ps" "r_listen A \<noteq> - 1" "r_accept A \<noteq> - 1" "r_malloc A \<noteq> 0" "r_malloc A \<notin> set ps" "r_thread A = Some t"
  shows "\<exists>s'. accept_step A s = Some (Running s') \<and> same_program s s' \<and>
    registry s' (case find (\<lambda>q. completed A q \<or> complete_in s q) (r_malloc A # ps) of
        None \<Rightarrow> r_malloc A # ps
      | Some q \<Rightarrow> remove1 q (r_malloc A # ps))"
proof -
  obtain s' where "accept_step A s = Some (Running s')" "registry s' (after_accept A s ps)" "same_program s s'"
    by (rule accept_step_registry [OF assms])
  then show ?thesis unfolding after_accept_def by (intro exI [of _ s'] conjI)
qed

definition demo_accept :: "ptr \<Rightarrow> nat \<Rightarrow> ptr set \<Rightarrow> accept_env" where
  "demo_accept p t fin = \<lparr>r_listen = 0, r_accept = 5, r_malloc = p,
     r_contents = \<lparr>elem_data = \<lparr>thread_id = 0, client_fd = 0, thread_complete = True\<rparr>, sle_next = 7\<rparr>,
     r_thread = Some t, completed = (\<lambda>q. q \<in> fin)\<rparr>"

lemma initial_registry: "registry (initial_server\<lparr>trace := evs\<rparr>) []"
  by (simp add: registry_def initial_server_def conn_data_def conn_ids_def slist_def)

theorem accept_registers_and_reaps_one_witness:
  "(\<exists>s'. accept_step (demo_accept 16 7 {}) (initial_server\<lparr>trace := []\<rparr>) = Some (Running s') \<and> registry s' [16]) \<and>
   (\<exists>s'. accept_step (demo_accept 16 7 {16}) (initial_server\<lparr>trace := []\<rparr>) = Some (Running s') \<and> registry s' [])"
proof -
  let ?s = "initial_server\<lparr>trace := []\<rparr>"
  have none: "complete_in ?s q = False" for q
    by (simp add: complete_in_def conn_data_def initial_server_def)
  have A: "r_listen (demo_accept 16 7 fin) \<noteq> - 1" "r_accept (demo_accept 16 7 fin) \<noteq> - 1" "r_malloc (demo_accept 16 7 fin) = 16"
    "r_thread (demo_accept 16 7 fin) = Some 7" "completed (demo_accept 16 7 fin) = (\<lambda>q. q \<in> fin)" for fin
    by (simp_all add: demo_accept_def)
  show ?thesis
    using accept_registers_and_reaps_one [OF initial_registry A(1,2), of "{}" 7 "[]"]
      accept_registers_and_reaps_one [OF initial_registry A(1,2), of "{16}" 7 "[]"]
    by (simp add: A none) blast
qed

text \<open>Serving any number of connections never goes wrong in the list handling, and never makes the
  list shorter: at most one finished thread is joined per accepted connection, so finished threads stay
  unjoined, with their nodes allocated, until later connections arrive.\<close>

theorem connection_list_never_shrinks:
  assumes "registry s ps" "\<not> process_flag s" "distinct (map r_malloc as)" "set ps \<inter> r_malloc ` set as = {}"
    and "\<forall>A \<in> set as. r_listen A \<noteq> - 1 \<and> r_accept A \<noteq> - 1 \<and> r_malloc A \<noteq> 0 \<and> r_thread A \<noteq> None"
  shows "\<exists>s' ps'. accept_loop listener as s = Some (Running s') \<and> registry s' ps' \<and>
    length ps \<le> length ps' \<and> length (threads s') = length ps'"
proof -
  obtain s' ps' where run: "accept_loop listener as s = Some (Running s')" "registry s' ps'" "length ps \<le> length ps'"
    using accept_passes [OF assms(5,1,3,4,2), of listener] by blast
  have "length (threads s') = length (conn_ids s' ps')"
    using run(2) unfolding registry_def by (metis size_mset)
  then show ?thesis using run by (auto simp: conn_ids_def)
qed

theorem connection_list_never_shrinks_witness:
  "\<exists>s' ps'. accept_loop 4 [demo_accept 16 7 {}, demo_accept 32 8 {16, 32}] (initial_server\<lparr>trace := []\<rparr>) = Some (Running s') \<and>
     registry s' ps' \<and> length (threads s') = length ps'"
  using connection_list_never_shrinks [OF initial_registry, of "[]" "[demo_accept 16 7 {}, demo_accept 32 8 {16, 32}]" 4]
  by (auto simp: demo_accept_def initial_server_def)

text \<open>The option \<open>-d\<close> has no effect on the process: it sets \<open>daemon_mode\<close>, but the test before
  \<open>daemon()\<close> reads \<open>deamon_flag\<close>, which nothing sets. However the server was started, it runs in the
  foreground.\<close>

theorem daemon_option_ignored:
  assumes "server_main argv N as initial_server = Some (Running s)"
  shows "\<not> daemonized s \<and> deamon_flag s = 0 \<and> (1 < length argv \<and> argv ! 1 = ''-d'' \<longrightarrow> daemon_mode s = 1)"
  using server_main_running(3) [OF assms] by (simp add: same_program_def started_simps)

definition demo_setup :: setup_env where
  "demo_setup = \<lparr>r_getaddrinfo = 0, r_socket = 4, r_setsockopt = 0, r_bind = 0, r_creat = 3, r_daemon = 0\<rparr>"

lemma demo_started: "server_main [''aesdsocket'', ''-d''] demo_setup [] initial_server =
    Some (Running (started [''aesdsocket'', ''-d''] demo_setup))"
proof -
  have "setup_ok demo_setup" by (simp add: setup_ok_def demo_setup_def)
  then show ?thesis by (simp add: server_main_exec accept_loop_Nil started_simps)
qed

theorem daemon_option_ignored_witness:
  "daemon_mode (started [''aesdsocket'', ''-d''] demo_setup) = 1 \<and> \<not> daemonized (started [''aesdsocket'', ''-d''] demo_setup)"
  using daemon_option_ignored [OF demo_started] by (simp del: started_simps)

text \<open>The termination signals do not close the sockets of the server: its descriptors are in local
  variables, the global ones keep their initial value, and \<open>exit_safely\<close> shuts down and closes
  descriptor 0 (twice), and removes the device node, before it ends the process.\<close>

theorem signal_closes_descriptor_zero:
  assumes "server_main argv N as initial_server = Some (Running s)" "signo = SIGINT \<or> signo = SIGTERM"
  shows "signal_handler signo s =
    ServerExit 0 [EvClose (r_creat N), EvShutdown 0, EvClose 0, EvClose 0, EvCloselog, EvRemove ''/dev/aesdchar'']"
  using server_main_running(3) [OF assms(1)] assms(2)
  by (auto simp: same_program_def started_simps signal_handler_def exit_safely_def file_path_def)

theorem signal_closes_descriptor_zero_witness:
  "signal_handler SIGTERM (started [''aesdsocket'', ''-d''] demo_setup) =
    ServerExit 0 [EvClose 3, EvShutdown 0, EvClose 0, EvClose 0, EvCloselog, EvRemove ''/dev/aesdchar'']"
  using signal_closes_descriptor_zero [OF demo_started, of SIGTERM] by (simp add: demo_setup_def)

text \<open>When \<open>listen\<close> fails in the accept loop, the address list is freed a second time: the error path
  of a running server is undefined.\<close>

theorem listen_failure_frees_twice:
  assumes "server_main argv N as initial_server = Some (Running s)" "r_listen A = - 1"
  shows "server_main argv N (as @ [A]) initial_server = None"
proof -
  note ok = server_main_running [OF assms(1)]
  have "\<not> addrinfo_live s" "\<not> process_flag s"
    using ok(3) by (simp_all add: same_program_def started_simps)
  then have "accept_loop (r_socket N) [A] s = None"
    using assms(2) by (simp add: accept_loop_Cons accept_step_def freeaddrinfo_def)
  then show ?thesis
    using ok(1) accept_loop_append [OF ok(2), of "[A]"] by (simp add: server_main_exec)
qed

theorem listen_failure_frees_twice_witness:
  "server_main [''aesdsocket'', ''-d''] demo_setup [(demo_accept 16 7 {})\<lparr>r_listen := - 1\<rparr>] initial_server = None"
  using listen_failure_frees_twice [OF demo_started, of "(demo_accept 16 7 {})\<lparr>r_listen := - 1\<rparr>"] by simp

end
