(* ===== verification/Whole_Server.thy ===== *)
theory Whole_Server
  imports Concurrent_Clients Socket_Server
begin

text \<open>
  The server as one program: the main thread of \<open>Socket_Server\<close> with its list of nodes in memory, the connection
  threads of \<open>Server_Concurrent\<close>, and the driver. A thread works on the node it was given
  (\<open>thread_func_args\<close>), which the main thread frees once the thread has marked it complete. Registering a
  connection is one step of the main thread; its search for a finished thread takes one step for each node it
  looks at, and the threads move between these steps in every order.
\<close>

section \<open>The two halves of a pass\<close>

text \<open>From the node's allocation to the creation of its thread.\<close>

definition register_connection :: "accept_env \<Rightarrow> server_state \<Rightarrow> server_state option" where
  "register_connection A s =
     do {
       let p = r_malloc A;
       let m = (if p = 0 then conns s else (conns s)\<lparr>nodes := (nodes (conns s))(p \<mapsto> r_contents A)\<rparr>);
       m \<leftarrow> SLIST_INSERT_HEAD m p;
       m \<leftarrow> set_data m p (\<lambda>t. t\<lparr>client_fd := r_accept A, thread_complete := False\<rparr>);
       (m, created) \<leftarrow> (case r_thread A of
           None \<Rightarrow> Some (m, [])
         | Some t \<Rightarrow> map_option (\<lambda>m. (m, [t])) (set_data m p (\<lambda>d. d\<lparr>thread_id := t\<rparr>)));
       Some (s\<lparr>conns := m, threads := threads s @ created\<rparr>)
     }"

definition reap_finished :: "server_state \<Rightarrow> (ptr \<times> server_state) option" where
  "reap_finished s = SLIST_FOREACH conns reap_body s"

text \<open>The search when no thread moves meanwhile is the loop above; here it is cut between two nodes: where the main
  thread is, and what it does next with the node it has come to.\<close>

datatype main_position =
    Accepting
  | Searching ptr

definition search_step :: "ptr \<Rightarrow> server_state \<Rightarrow> (main_position \<times> server_state) option" where
  "search_step p s =
     (if p = 0 then Some (Accepting, s)
      else do {
        (s, stop) \<leftarrow> reap_body p s;
        if stop then Some (Accepting, s)
        else do { q \<leftarrow> SLIST_NEXT (conns s) p; Some (Searching q, s) }
      })"

lemma update_order: "s\<lparr>conns := m, threads := ts\<rparr> = s\<lparr>threads := ts, conns := m\<rparr>"
  by simp

lemma accept_step_halves:
  "r_listen A \<noteq> - 1 \<Longrightarrow> r_accept A \<noteq> - 1 \<Longrightarrow>
   accept_step A s =
     do {
       s \<leftarrow> register_connection A s;
       (_, s) \<leftarrow> reap_finished (s\<lparr>conns := mark_completed (completed A) (conns s)\<rparr>);
       Some (Running s)
     }"
  by (cases "r_thread A")
    (simp_all add: accept_step_def register_connection_def reap_finished_def Let_def update_order map_conv_bind_option
      Option.bind_assoc comp_def)

text \<open>A thread that ends raises the flag in its node.\<close>

definition finish_in_node :: "ptr \<Rightarrow> thread_phase \<Rightarrow> server_state \<Rightarrow> server_state option" where
  "finish_in_node p ph s =
     (if ph = Finished
      then map_option (\<lambda>m. s\<lparr>conns := m\<rparr>) (set_data (conns s) p (\<lambda>d. d\<lparr>thread_complete := True\<rparr>))
      else Some s)"

section \<open>The whole server as a transition system\<close>

text \<open>The state of the main thread, the connections with the driver, the node of every connection in the order
  of their arrival, where the main thread is, and the histories. \<open>malloc\<close>
  returns a block that is not in use.\<close>

inductive operating ::
  "server_globals \<Rightarrow> server_state \<Rightarrow> server_run \<Rightarrow> ptr list \<Rightarrow> main_position \<Rightarrow> (nat \<times> byte list) list \<Rightarrow>
   (nat \<times> server_event) list \<Rightarrow> bool"
  for g :: server_globals where
  start: "setup_ok N \<Longrightarrow> g = globals (started argv N) \<Longrightarrow>
    operating g (started argv N) \<lparr>kernel = fresh_state, counted = 0, connections = []\<rparr> [] Accepting [] []"
| register: "operating g s y ns Accepting ws out \<Longrightarrow> \<not> process_flag s \<Longrightarrow> r_listen A \<noteq> - 1 \<Longrightarrow> r_accept A \<noteq> - 1 \<Longrightarrow>
    r_malloc A \<noteq> 0 \<Longrightarrow> conn_data s (r_malloc A) = None \<Longrightarrow> r_thread A = Some t \<Longrightarrow>
    register_connection A s = Some s' \<Longrightarrow>
    operating g s'
      (y\<lparr>connections := connections y @
        [new_connection \<lparr>thread_id = t, client_fd = r_accept A, thread_complete = False\<rparr>]\<rparr>)
      (ns @ [r_malloc A]) (Searching (SLIST_FIRST (conns s'))) ws out"
| search: "operating g s y ns (Searching p) ws out \<Longrightarrow> search_step p s = Some (pos, s') \<Longrightarrow> operating g s' y ns pos ws out"
| thread: "operating g s y ns pos ws out \<Longrightarrow> step_env_ok S \<Longrightarrow> connection_step g S i y = Some (Inr (evs, y')) \<Longrightarrow>
    finish_in_node (ns ! i) (c_phase (connections y' ! i)) s = Some s' \<Longrightarrow>
    operating g s' y' ns pos (ws @ map (Pair i) (written_by (c_phase (connections y ! i)))) (out @ map (Pair i) evs)"

lemma operating_serves: "operating g s y ns pos ws out \<Longrightarrow> serving g y ws out"
  by (induction rule: operating.induct) (auto intro: serving.intros)

text \<open>Left alone, the steps of the search are the loop.\<close>

lemma search_alone:
  assumes "chain (conns s) p vs" "operating g s y ns (Searching p) ws out" "foreach_loop conns reap_body p s = Some (q, s')"
  shows "operating g s' y ns Accepting ws out"
  using assms
proof (induction vs arbitrary: p)
  case Nil
  then have "p = 0" "s' = s" by (auto simp: foreach_loop.simps)
  then show ?case using operating.search [OF Nil.prems(2)] by (simp add: search_step_def)
next
  case (Cons x xs)
  obtain next_node where link: "SLIST_NEXT (conns s) x = Some next_node" "chain (conns s) next_node xs" "p = x" "x \<noteq> 0"
    using Cons.prems(1) by (rule chain_ConsE)
  obtain s2 stop where body: "reap_body p s = Some (s2, stop)"
    using Cons.prems(3) link(3,4) by (subst (asm) foreach_loop.simps) (auto simp: bind_eq_Some_conv)
  show ?case
  proof (cases stop)
    case True
    then have "s' = s2" using Cons.prems(3) link(3,4) body by (subst (asm) foreach_loop.simps) simp
    moreover have "search_step p s = Some (Accepting, s2)" using body True link(3,4) by (simp add: search_step_def)
    ultimately show ?thesis using operating.search [OF Cons.prems(2)] by simp
  next
    case False
    then have same: "s2 = s" using body reap_body_continue by simp
    then have "foreach_loop conns reap_body next_node s = Some (q, s')"
      using Cons.prems(3) link body False by (subst (asm) foreach_loop.simps) simp
    moreover have "search_step p s = Some (Searching next_node, s)"
      using body False same link by (simp add: search_step_def)
    ultimately show ?thesis using Cons.IH [OF link(2)] operating.search [OF Cons.prems(2)] by simp
  qed
qed

section \<open>Steps on the nodes\<close>

lemma set_data_registry:
  assumes "registry s ps" "set_data (conns s) p upd = Some m" "\<And>d. thread_id (upd d) = thread_id d"
  shows "registry (s\<lparr>conns := m\<rparr>) ps" "conn_data (s\<lparr>conns := m\<rparr>) q = (if q = p then map_option upd (conn_data s p) else conn_data s q)"
    "SLIST_NEXT m x = SLIST_NEXT (conns s) x"
proof -
  obtain n where n: "nodes (conns s) p = Some n" using assms(2) by (auto simp: set_data_def)
  then have "map_option elem_data (nodes (conns s) p) = Some (elem_data n)" by simp
  then obtain m' where m': "set_data (conns s) p upd = Some m'" "slh_first m' = slh_first (conns s)"
    "\<forall>x. SLIST_NEXT m' x = SLIST_NEXT (conns s) x" "map_option elem_data (nodes m' p) = Some (upd (elem_data n))"
    "\<forall>x. x \<noteq> p \<longrightarrow> map_option elem_data (nodes m' x) = map_option elem_data (nodes (conns s) x)"
    by (rule set_data_Some)
  have data: "conn_data (s\<lparr>conns := m\<rparr>) q = (if q = p then map_option upd (conn_data s p) else conn_data s q)" for q
    using m'(1,4,5) assms(2) n by (simp add: conn_data_def)
  then show "conn_data (s\<lparr>conns := m\<rparr>) q = (if q = p then map_option upd (conn_data s p) else conn_data s q)" .
  show "SLIST_NEXT m x = SLIST_NEXT (conns s) x" using m'(1,3) assms(2) by simp
  have "slist m ps = slist (conns s) ps" using m'(1-3) assms(2) by (intro slist_cong) auto
  moreover have "conn_ids (s\<lparr>conns := m\<rparr>) ps = conn_ids s ps"
    unfolding conn_ids_def
  proof (rule map_cong [OF refl])
    fix q assume "q \<in> set ps"
    then obtain d where "conn_data s q = Some d" using assms(1) by (auto simp: registry_def)
    then show "thread_id (the (conn_data (s\<lparr>conns := m\<rparr>) q)) = thread_id (the (conn_data s q))"
      using assms(3) by (cases "q = p") (simp_all add: data)
  qed
  ultimately show "registry (s\<lparr>conns := m\<rparr>) ps" using assms(1) by (auto simp: registry_def data)
qed

lemma mark_none: "mark_completed (\<lambda>p. False) m = m"
  by (simp add: mark_completed_def option.map_ident)

lemma register_exec:
  assumes "registry s ps" "r_malloc A \<noteq> 0" "conn_data s (r_malloc A) = None" "r_thread A = Some t"
  obtains s' where "register_connection A s = Some s'" "registry s' (r_malloc A # ps)" "same_program s s'"
    "conn_data s' = (conn_data s)(r_malloc A \<mapsto> \<lparr>thread_id = t, client_fd = r_accept A, thread_complete = False\<rparr>)"
proof -
  obtain m1 m2 m3 where ins:
    "SLIST_INSERT_HEAD ((conns s)\<lparr>nodes := (nodes (conns s))(r_malloc A \<mapsto> r_contents A)\<rparr>) (r_malloc A) = Some m1"
    "set_data m1 (r_malloc A) (\<lambda>t. t\<lparr>client_fd := r_accept A, thread_complete := False\<rparr>) = Some m2"
    "set_data m2 (r_malloc A) (\<lambda>d. d\<lparr>thread_id := t\<rparr>) = Some m3"
    "registry (s\<lparr>conns := m3, threads := threads s @ [t]\<rparr>) (r_malloc A # ps)"
    "map_option elem_data (nodes m3 (r_malloc A)) = Some \<lparr>thread_id = t, client_fd = r_accept A, thread_complete = False\<rparr>"
    "\<forall>q. q \<noteq> r_malloc A \<longrightarrow> map_option elem_data (nodes m3 q) = map_option (\<lambda>d. d) (conn_data s q)"
    by (rule accept_insert [OF assms(1-3), where fin = "\<lambda>p. False", unfolded mark_none if_False])
  let ?s = "s\<lparr>conns := m3, threads := threads s @ [t]\<rparr>"
  have "conn_data ?s = (conn_data s)(r_malloc A \<mapsto> \<lparr>thread_id = t, client_fd = r_accept A, thread_complete = False\<rparr>)"
    using ins(5,6) by (auto simp: fun_eq_iff conn_data_def option.map_ident simp del: map_option_eq_Some)
  then show thesis
    using that [of ?s] ins(1-4) assms(2,4) by (simp add: register_connection_def Let_def)
qed

lemma reap_exec:
  assumes "registry s ps"
  obtains (none) "reap_finished s = Some (0, s)" "\<forall>p d. conn_data s p = Some d \<longrightarrow> \<not> thread_complete d"
  | (one) q d s' where "reap_finished s = Some (q, s')" "conn_data s q = Some d" "thread_complete d"
    "registry s' (remove1 q ps)" "threads s' = remove1 (thread_id d) (threads s)" "conn_data s' = (conn_data s)(q := None)"
    "same_program s s'"
proof -
  have live: "\<forall>q \<in> set ps. conn_data s q \<noteq> None" using assms by (simp add: registry_def)
  note run = foreach_reap [OF assms, folded reap_finished_def, unfolded fold_break_reap [OF live]]
  show thesis
  proof (cases "find (complete_in s) ps")
    case None
    have "\<not> thread_complete d" if "conn_data s p = Some d" for p d
    proof -
      have "p \<in> set ps" using assms that by (metis option.distinct(1) registry_def)
      then show ?thesis using None that by (auto simp: find_None_iff complete_in_def)
    qed
    then show thesis using none run None by simp
  next
    case (Some q)
    from find_SomeD [OF this] have q: "q \<in> set ps" "complete_in s q" by blast+
    then obtain d where d: "conn_data s q = Some d" "thread_complete d"
      by (auto simp: complete_in_def split: option.splits)
    obtain s' where s': "reap_body q s = Some (s', True)" "registry s' (remove1 q ps)"
      "threads s' = remove1 (thread_id d) (threads s)" "nodes (conns s') q = None"
      "\<forall>p. p \<noteq> q \<longrightarrow> conn_data s' p = conn_data s p" "same_program s s'"
      using reap_one [OF assms q(1) d] by metis
    have "conn_data s' = (conn_data s)(q := None)" using s'(4,5) by (auto simp: fun_eq_iff conn_data_def)
    then show thesis using one [of q s' d] run Some s' d by simp
  qed
qed

text \<open>One step of the search, when the node it has come to begins the rest of the list.\<close>

lemma search_exec:
  assumes "registry s ps" "chain (conns s) p vs"
  obtains (finished) "p = 0" "search_step p s = Some (Accepting, s)"
  | (on) d q where "p \<noteq> 0" "conn_data s p = Some d" "\<not> thread_complete d" "search_step p s = Some (Searching q, s)"
      "chain (conns s) q (tl vs)" "vs \<noteq> []"
  | (one) d s' where "p \<noteq> 0" "conn_data s p = Some d" "thread_complete d" "search_step p s = Some (Accepting, s')" "p \<in> set ps"
      "registry s' (remove1 p ps)" "threads s' = remove1 (thread_id d) (threads s)" "conn_data s' = (conn_data s)(p := None)"
      "same_program s s'"
proof (cases vs)
  case Nil
  then show thesis using assms(2) finished by (simp add: search_step_def)
next
  case (Cons x xs)
  obtain q where link: "SLIST_NEXT (conns s) p = Some q" "chain (conns s) q xs" "p \<noteq> 0"
    using assms(2) Cons chain_ConsE [of "conns s" p x xs] by metis
  have "conn_data s p \<noteq> None" using link(1) by (auto simp: conn_data_def SLIST_NEXT_def)
  then obtain d where d: "conn_data s p = Some d" and p: "p \<in> set ps" using assms(1) by (auto simp: registry_def)
  show thesis
  proof (cases "thread_complete d")
    case False
    then show thesis
      using on [OF link(3) d False] reap_skip [OF d False] link Cons by (simp add: search_step_def)
  next
    case True
    obtain s' where s': "reap_body p s = Some (s', True)" "registry s' (remove1 p ps)"
      "threads s' = remove1 (thread_id d) (threads s)" "nodes (conns s') p = None"
      "\<forall>q. q \<noteq> p \<longrightarrow> conn_data s' q = conn_data s q" "same_program s s'"
      using reap_one [OF assms(1) p d True] by metis
    have "conn_data s' = (conn_data s)(p := None)" using s'(4,5) by (auto simp: fun_eq_iff conn_data_def)
    then show thesis using one [OF link(3) d True _ p] s' link(3) by (simp add: search_step_def)
  qed
qed

text \<open>A step of a thread leaves its data alone until it ends, and an ended thread has no step.\<close>

lemma thread_step_args:
  assumes "thread_step ops E g r args ph n d = Some (Goes args' ph' evs n' d')"
  shows "ph \<noteq> Finished \<and> args' = (if ph' = Finished then args\<lparr>thread_complete := True\<rparr> else args)"
proof (cases ph)
  case (Receiving buffer)
  then obtain res where "recv_pass (realloc_ok E) r buffer (replicate BUFFER_SIZE 0) n = Some res"
    using assms by (auto simp: thread_step_def bind_eq_Some_conv)
  then show ?thesis using assms Receiving by (cases res) (auto simp: thread_step_def split: if_splits)
next
  case (Handling fd buffer)
  then obtain res where "handle_packet ops g buffer d = Some res"
    using assms by (auto simp: thread_step_def bind_eq_Some_conv)
  then show ?thesis using assms Handling by (cases res) (auto simp: thread_step_def)
next
  case (Replying fd buf)
  then obtain message d2 where "send_pass (d_read ops) buf d = Some (message, d2)"
    using assms by (auto simp: thread_step_def bind_eq_Some_conv)
  then show ?thesis using assms Replying by (cases message) (auto simp: thread_step_def)
qed (use assms in \<open>auto simp: thread_step_def split: if_splits prod.splits\<close>)

lemma connection_step_args:
  assumes "connection_step g S i y = Some (Inr (evs, y'))"
  obtains c where "i < length (connections y)" "c_phase (connections y ! i) \<noteq> Finished"
    "connections y' = (connections y)[i := c]"
    "c_args c = (if c_phase c = Finished then (c_args (connections y ! i))\<lparr>thread_complete := True\<rparr> else c_args (connections y ! i))"
proof -
  let ?c = "connections y ! i"
  obtain res where i: "i < length (connections y)"
    and res: "thread_step (driver_ops (s_fd S) (s_arg S)) (s_memory S) g (s_recv S) (c_args ?c) (c_phase ?c)
      (counted y) (s_kernel S, c_file ?c, kernel y) = Some res"
    using assms by (auto simp: connection_step_def bind_eq_Some_conv arr_get_def split: if_splits)
  obtain args ph evs' n d where go: "res = Goes args ph evs' n d"
    using assms res i by (cases res) (auto simp: connection_step_def arr_get_def)
  obtain K f k where d: "d = (K, f, k)" by (cases d)
  show thesis
    using that [of "\<lparr>c_args = args, c_phase = ph, c_file = f\<rparr>"] assms res i go d thread_step_args [OF res [unfolded go]]
    by (auto simp: connection_step_def arr_get_def)
qed

section \<open>The invariant\<close>

text \<open>Every thread that has not ended has its own node, which holds its data, and every node belongs to the last
  connection that was given its address.\<close>

definition owns :: "ptr list \<Rightarrow> nat \<Rightarrow> ptr \<Rightarrow> bool" where
  "owns ns i p \<longleftrightarrow> i < length ns \<and> ns ! i = p \<and> (\<forall>j < length ns. i < j \<longrightarrow> ns ! j \<noteq> p)"

definition nodes_agree :: "(ptr \<Rightarrow> thread_data option) \<Rightarrow> connection list \<Rightarrow> ptr list \<Rightarrow> bool" where
  "nodes_agree data cs ns \<longleftrightarrow> length ns = length cs \<and>
     (\<forall>i < length cs. (thread_complete (c_args (cs ! i)) \<longleftrightarrow> c_phase (cs ! i) = Finished) \<and>
        (c_phase (cs ! i) \<noteq> Finished \<longrightarrow> owns ns i (ns ! i) \<and> data (ns ! i) = Some (c_args (cs ! i)))) \<and>
     (\<forall>p d. data p = Some d \<longrightarrow> (\<exists>i. owns ns i p \<and> c_args (cs ! i) = d))"

text \<open>The search stands at a node of the list or at its end.\<close>

definition position_ok :: "server_state \<Rightarrow> main_position \<Rightarrow> bool" where
  "position_ok s pos \<longleftrightarrow> (\<forall>p. pos = Searching p \<longrightarrow> (\<exists>vs. chain (conns s) p vs))"

definition whole_inv :: "server_state \<Rightarrow> server_run \<Rightarrow> ptr list \<Rightarrow> main_position \<Rightarrow> bool" where
  "whole_inv s y ns pos \<longleftrightarrow> (\<exists>ps. registry s ps) \<and> \<not> process_flag s \<and> nodes_agree (conn_data s) (connections y) ns \<and>
     position_ok s pos"

lemma position_ok_simps [simp]:
  "position_ok s Accepting" "position_ok s (Searching p) \<longleftrightarrow> (\<exists>vs. chain (conns s) p vs)"
  by (simp_all add: position_ok_def)

lemma position_ok_frame:
  "(\<And>x. SLIST_NEXT (conns s') x = SLIST_NEXT (conns s) x) \<Longrightarrow> position_ok s pos \<Longrightarrow> position_ok s' pos"
  unfolding position_ok_def using chain_frame [of _ "conns s'" "conns s"] by blast

lemma owns_unique: "owns ns i p \<Longrightarrow> owns ns j p \<Longrightarrow> i = j"
  unfolding owns_def by (metis linorder_neqE_nat)

lemma owns_snoc: "owns (ns @ [q]) i p \<longleftrightarrow> (if p = q then i = length ns else owns ns i p)"
  by (auto simp: owns_def nth_append less_Suc_eq)

lemma owner:
  assumes "nodes_agree data cs ns" "data p = Some d"
  obtains i where "owns ns i p" "c_args (cs ! i) = d"
  using assms unfolding nodes_agree_def by blast

lemma agree_register:
  assumes "nodes_agree data cs ns" "data p = None" "c_phase c \<noteq> Finished" "\<not> thread_complete (c_args c)"
  shows "nodes_agree (data(p \<mapsto> c_args c)) (cs @ [c]) (ns @ [p])"
proof -
  have len: "length ns = length cs" using assms(1) by (simp add: nodes_agree_def)
  have old: "ns ! i \<noteq> p" if "i < length cs" "c_phase (cs ! i) \<noteq> Finished" for i
    using assms(1,2) that by (auto simp: nodes_agree_def)
  have "\<exists>i. owns (ns @ [p]) i q \<and> c_args ((cs @ [c]) ! i) = d" if q: "(data(p \<mapsto> c_args c)) q = Some d" for q d
  proof (cases "q = p")
    case True
    then show ?thesis using q len by (intro exI [of _ "length ns"]) (simp add: owns_snoc)
  next
    case False
    then have "data q = Some d" using q by simp
    then obtain i where "owns ns i q" "c_args (cs ! i) = d" by (rule owner [OF assms(1)])
    then show ?thesis using False len by (intro exI [of _ i]) (simp add: owns_snoc nth_append, simp add: owns_def)
  qed
  moreover have "(thread_complete (c_args ((cs @ [c]) ! i)) \<longleftrightarrow> c_phase ((cs @ [c]) ! i) = Finished) \<and>
      (c_phase ((cs @ [c]) ! i) \<noteq> Finished \<longrightarrow>
        owns (ns @ [p]) i ((ns @ [p]) ! i) \<and> (data(p \<mapsto> c_args c)) ((ns @ [p]) ! i) = Some (c_args ((cs @ [c]) ! i)))"
    if "i < Suc (length cs)" for i
    using that assms old len by (cases "i < length cs") (auto simp: nodes_agree_def owns_snoc nth_append less_Suc_eq)
  ultimately show ?thesis using len by (simp add: nodes_agree_def)
qed

lemma agree_reap:
  assumes "nodes_agree data cs ns" "data q = Some d" "thread_complete d"
  shows "nodes_agree (data(q := None)) cs ns"
  using assms by (auto simp: nodes_agree_def)

lemma agree_thread:
  assumes "nodes_agree data cs ns" "i < length cs" "c_phase (cs ! i) \<noteq> Finished"
    and "c_args c = (if c_phase c = Finished then (c_args (cs ! i))\<lparr>thread_complete := True\<rparr> else c_args (cs ! i))"
  shows "nodes_agree (data(ns ! i \<mapsto> c_args c)) (cs[i := c]) ns"
proof -
  have mine: "owns ns i (ns ! i)" "data (ns ! i) = Some (c_args (cs ! i))" "\<not> thread_complete (c_args (cs ! i))"
    using assms(1-3) by (auto simp: nodes_agree_def)
  have other: "ns ! j \<noteq> ns ! i" if "j < length cs" "c_phase (cs ! j) \<noteq> Finished" "j \<noteq> i" for j
  proof
    assume "ns ! j = ns ! i"
    then have "owns ns j (ns ! i)" using assms(1) that by (auto simp: nodes_agree_def)
    then show False using owns_unique mine(1) that(3) by blast
  qed
  have len: "length ns = length cs" using assms(1) by (simp add: nodes_agree_def)
  have "\<exists>j. owns ns j p \<and> c_args (cs[i := c] ! j) = d" if d: "(data(ns ! i \<mapsto> c_args c)) p = Some d" for p d
  proof (cases "p = ns ! i")
    case True
    then show ?thesis using mine(1) d assms(2) by (intro exI [of _ i]) simp
  next
    case False
    then have "data p = Some d" using d by simp
    then obtain j where "owns ns j p" "c_args (cs ! j) = d" by (rule owner [OF assms(1)])
    moreover from this have "j \<noteq> i" using False by (auto simp: owns_def)
    ultimately show ?thesis by auto
  qed
  moreover have "(thread_complete (c_args (cs[i := c] ! j)) \<longleftrightarrow> c_phase (cs[i := c] ! j) = Finished) \<and>
      (c_phase (cs[i := c] ! j) \<noteq> Finished \<longrightarrow> owns ns j (ns ! j) \<and> (data(ns ! i \<mapsto> c_args c)) (ns ! j) = Some (c_args (cs[i := c] ! j)))"
    if "j < length cs" for j
    using that assms mine other by (cases "j = i") (auto simp: nodes_agree_def)
  ultimately show ?thesis using len by (auto simp: nodes_agree_def)
qed

text \<open>What a step of a thread does to its node: the write at its end finds the node.\<close>

lemma thread_in_node:
  assumes "whole_inv s y ns pos" "connection_step g S i y = Some (Inr (evs, y'))"
  obtains s' where "finish_in_node (ns ! i) (c_phase (connections y' ! i)) s = Some s'" "whole_inv s' y' ns pos"
proof -
  obtain c where c: "i < length (connections y)" "c_phase (connections y ! i) \<noteq> Finished"
    "connections y' = (connections y)[i := c]"
    "c_args c = (if c_phase c = Finished then (c_args (connections y ! i))\<lparr>thread_complete := True\<rparr> else c_args (connections y ! i))"
    by (rule connection_step_args [OF assms(2)])
  obtain ps where reg: "registry s ps" and agree: "nodes_agree (conn_data s) (connections y) ns" and pf: "\<not> process_flag s"
    and at: "position_ok s pos"
    using assms(1) by (auto simp: whole_inv_def)
  have mine: "conn_data s (ns ! i) = Some (c_args (connections y ! i))" using agree c(1,2) by (simp add: nodes_agree_def)
  note after = agree_thread [OF agree c(1,2,4), folded c(3)]
  show thesis
  proof (cases "c_phase c = Finished")
    case True
    obtain n where n: "nodes (conns s) (ns ! i) = Some n" using mine by (auto simp: conn_data_def)
    then obtain m where m: "set_data (conns s) (ns ! i) (\<lambda>d. d\<lparr>thread_complete := True\<rparr>) = Some m"
      by (simp add: set_data_def)
    note facts = set_data_registry [OF reg m, simplified]
    have "conn_data (s\<lparr>conns := m\<rparr>) = (conn_data s)(ns ! i \<mapsto> c_args c)"
      using facts(2) mine c(4) True by (auto simp: fun_eq_iff)
    then show thesis
      using that [of "s\<lparr>conns := m\<rparr>"] facts(1) after pf m True c(1,3) position_ok_frame [OF _ at, of "s\<lparr>conns := m\<rparr>"] facts(3)
      by (auto simp: whole_inv_def finish_in_node_def)
  next
    case False
    then have "(conn_data s)(ns ! i \<mapsto> c_args c) = conn_data s" using mine c(4) by (auto simp: fun_eq_iff)
    then show thesis
      using that [of s] reg after pf at False c(1,3) by (auto simp: whole_inv_def finish_in_node_def)
  qed
qed

lemma operating_inv: "operating g s y ns pos ws out \<Longrightarrow> whole_inv s y ns pos"
proof (induction rule: operating.induct)
  case (start N argv)
  have "registry (started argv N) []" "conn_data (started argv N) = Map.empty"
    by (auto simp: registry_def conn_data_def conn_ids_def started_def initial_server_def slist_def)
  then show ?case by (auto simp: whole_inv_def nodes_agree_def started_def initial_server_def)
next
  case (register s y ns ws out A t s')
  obtain ps where reg: "registry s ps" and agree: "nodes_agree (conn_data s) (connections y) ns"
    using register.IH by (auto simp: whole_inv_def)
  let ?c = "new_connection \<lparr>thread_id = t, client_fd = r_accept A, thread_complete = False\<rparr>"
  obtain s1 where s1: "register_connection A s = Some s1" "registry s1 (r_malloc A # ps)" "same_program s s1"
    "conn_data s1 = (conn_data s)(r_malloc A \<mapsto> c_args ?c)"
    by (rule register_exec [OF reg register.hyps(5-7)]) (simp add: new_connection_def)
  have "nodes_agree ((conn_data s)(r_malloc A \<mapsto> c_args ?c)) (connections y @ [?c]) (ns @ [r_malloc A])"
    by (rule agree_register [OF agree register.hyps(6)]) (simp_all add: new_connection_def)
  moreover have "position_ok s1 (Searching (SLIST_FIRST (conns s1)))"
    using s1(2) unfolding position_ok_simps registry_def slist_def SLIST_FIRST_def by blast
  moreover have "s1 = s'" using s1(1) register.hyps(8) by simp
  ultimately show ?case
    using s1(2-4) register.hyps(2) by (auto simp del: fun_upd_apply position_ok_simps simp: whole_inv_def same_program_def)
next
  case (search s y ns p ws out pos s')
  obtain ps vs where reg: "registry s ps" and agree: "nodes_agree (conn_data s) (connections y) ns" and pf: "\<not> process_flag s"
    and at: "chain (conns s) p vs"
    using search.IH by (auto simp: whole_inv_def)
  show ?case
  proof (rule search_exec [OF reg at])
    assume "p = 0" "search_step p s = Some (Accepting, s)"
    then show ?thesis using search.hyps(2) reg agree pf by (auto simp: whole_inv_def)
  next
    fix d q
    assume "search_step p s = Some (Searching q, s)" "chain (conns s) q (tl vs)"
    then show ?thesis using search.hyps(2) reg agree pf by (auto simp: whole_inv_def)
  next
    fix d s2
    assume a: "conn_data s p = Some d" "thread_complete d" "search_step p s = Some (Accepting, s2)"
      "registry s2 (remove1 p ps)" "conn_data s2 = (conn_data s)(p := None)" "same_program s s2"
    then show ?thesis
      using search.hyps(2) pf agree_reap [OF agree a(1,2)] by (auto simp: whole_inv_def same_program_def)
  qed
next
  case (thread s y ns pos ws out S i evs y' s')
  show ?case by (rule thread_in_node [OF thread.IH thread.hyps(3)]) (use thread.hyps(4) in auto)
qed

text \<open>A complete node belongs to a thread that has ended and has not been joined.\<close>

lemma joined_thread:
  assumes "registry s ps" "nodes_agree (conn_data s) (connections y) ns" "conn_data s q = Some d" "thread_complete d"
  shows "q \<noteq> 0 \<and> (\<exists>i < length ns. ns ! i = q \<and> c_phase (connections y ! i) = Finished \<and> c_args (connections y ! i) = d \<and>
    thread_id d \<in> set (threads s))"
proof -
  obtain i where i: "owns ns i q" "c_args (connections y ! i) = d" by (rule owner [OF assms(2,3)])
  have q: "q \<in> set ps" using assms(1,3) by (metis option.distinct(1) registry_def)
  then have "q \<noteq> 0" using assms(1) chain_live by (auto simp: registry_def slist_def)
  moreover have "thread_id d \<in> set (threads s)"
  proof -
    have "thread_id d \<in># mset (conn_ids s ps)" using q assms(3) by (force simp: conn_ids_def)
    then show ?thesis using assms(1) by (metis registry_def set_mset_mset)
  qed
  moreover have "i < length ns" "ns ! i = q" "c_phase (connections y ! i) = Finished"
    using i assms(2,4) by (auto simp: owns_def nodes_agree_def)
  ultimately show ?thesis using i(2) by blast
qed

section \<open>A server with one connection\<close>

abbreviation one_client :: server_run where
  "one_client \<equiv> \<lparr>kernel = fresh_state, counted = 0,
     connections = [new_connection \<lparr>thread_id = 7, client_fd = 5, thread_complete = False\<rparr>]\<rparr>"

lemma demo_operating: obtains s where "operating demo_globals s one_client [16] (Searching 16) [] []" "SLIST_FIRST (conns s) = 16"
proof -
  let ?s0 = "started [''aesdsocket''] demo_setup"
  have reg: "registry ?s0 []" and free: "conn_data ?s0 16 = None"
    by (simp_all add: registry_def conn_data_def conn_ids_def started_def initial_server_def slist_def)
  have zero: "operating demo_globals ?s0 \<lparr>kernel = fresh_state, counted = 0, connections = []\<rparr> [] Accepting [] []"
    by (rule operating.start) (simp_all add: setup_ok_def demo_setup_def started_simps)
  have A: "r_listen (demo_accept 16 7 {}) \<noteq> - 1" "r_accept (demo_accept 16 7 {}) = 5" "r_malloc (demo_accept 16 7 {}) = 16"
    "r_thread (demo_accept 16 7 {}) = Some 7"
    by (simp_all add: demo_accept_def)
  obtain s where s: "register_connection (demo_accept 16 7 {}) ?s0 = Some s" "registry s [16]"
    using register_exec [OF reg, of "demo_accept 16 7 {}" 7] A free by auto
  have "SLIST_FIRST (conns s) = 16" using s(2) by (simp add: registry_def slist_def SLIST_FIRST_def)
  with operating.register [OF zero _ A(1) _ _ _ A(4) s(1)] show thesis
    using that A(2,3) free by (simp add: started_simps)
qed

section \<open>Properties\<close>

text \<open>C8. No thread uses freed memory. In every reachable state of the whole server, wherever the main thread is in its
  search, a thread that has not ended has a node of its own, still allocated, that holds exactly the data the
  thread works with; every defined step the thread takes next is a step of the server, its last one included,
  whose write of the flag finds the node. What the clients see is a run of the connections with the driver
  alone.\<close>

theorem threads_use_live_nodes:
  assumes "operating g s y ns pos ws out" "i < length (connections y)" "c_phase (connections y ! i) \<noteq> Finished"
  shows "conn_data s (ns ! i) = Some (c_args (connections y ! i)) \<and>
    (\<forall>j < length (connections y). j \<noteq> i \<and> c_phase (connections y ! j) \<noteq> Finished \<longrightarrow> ns ! j \<noteq> ns ! i) \<and>
    (\<forall>S evs y'. step_env_ok S \<and> connection_step g S i y = Some (Inr (evs, y')) \<longrightarrow>
      (\<exists>s'. finish_in_node (ns ! i) (c_phase (connections y' ! i)) s = Some s' \<and>
        operating g s' y' ns pos (ws @ map (Pair i) (written_by (c_phase (connections y ! i)))) (out @ map (Pair i) evs))) \<and>
    serving g y ws out"
proof -
  note inv = operating_inv [OF assms(1)]
  then have agree: "nodes_agree (conn_data s) (connections y) ns" by (simp add: whole_inv_def)
  have "ns ! j \<noteq> ns ! i" if "j < length (connections y)" "j \<noteq> i" "c_phase (connections y ! j) \<noteq> Finished" for j
  proof
    assume "ns ! j = ns ! i"
    then have "owns ns j (ns ! i)" "owns ns i (ns ! i)" using agree that(1,3) assms(2,3) by (auto simp: nodes_agree_def)
    then show False using owns_unique that(2) by blast
  qed
  moreover have "\<exists>s'. finish_in_node (ns ! i) (c_phase (connections y' ! i)) s = Some s' \<and>
      operating g s' y' ns pos (ws @ map (Pair i) (written_by (c_phase (connections y ! i)))) (out @ map (Pair i) evs)"
    if "step_env_ok S" "connection_step g S i y = Some (Inr (evs, y'))" for S evs y'
    by (rule thread_in_node [OF inv that(2)]) (use operating.thread [OF assms(1) that] in blast)
  moreover have "conn_data s (ns ! i) = Some (c_args (connections y ! i))"
    using agree assms(2,3) by (simp add: nodes_agree_def)
  ultimately show ?thesis using operating_serves [OF assms(1)] by blast
qed

theorem threads_use_live_nodes_witness:
  "\<exists>s. operating demo_globals s one_client [16] (Searching 16) [] [] \<and>
    conn_data s 16 = Some \<lparr>thread_id = 7, client_fd = 5, thread_complete = False\<rparr>"
proof -
  obtain s where s: "operating demo_globals s one_client [16] (Searching 16) [] []" by (rule demo_operating)
  then show ?thesis using threads_use_live_nodes [OF s, of 0] by (auto simp: new_connection_def)
qed



end
