(* ===== verification/Timestamp.thy ===== *)
theory Timestamp
  imports Socket_Thread
begin

text \<open>
  The timestamps of \<^verbatim>\<open>server/aesdsocket.c\<close> in the configuration with a plain data file: the format of
  \<open>timer_handler\<close>, with the conversions of \<open>strftime\<close> it uses (in the C locale, which the program never
  leaves; \<open>%k\<close> is the GNU one). The time zone, and so \<open>localtime\<close>, is outside the program.
\<close>

section \<open>Broken-down time\<close>

record tm =
  tm_sec :: int
  tm_min :: int
  tm_hour :: int
  tm_mday :: int
  tm_mon :: int
  tm_year :: int

text \<open>The normal ranges of the fields; outside them the output is unspecified.\<close>

definition tm_ok :: "tm \<Rightarrow> bool" where
  "tm_ok t \<longleftrightarrow> 0 \<le> tm_sec t \<and> tm_sec t \<le> 60 \<and> 0 \<le> tm_min t \<and> tm_min t \<le> 59 \<and> 0 \<le> tm_hour t \<and> tm_hour t \<le> 23 \<and>
     1 \<le> tm_mday t \<and> tm_mday t \<le> 31 \<and> 0 \<le> tm_mon t \<and> tm_mon t \<le> 11"

section \<open>strftime\<close>

definition digit :: "int \<Rightarrow> byte" where
  "digit n = word_of_nat (48 + nat (n mod 10))"

definition two_digits :: "int \<Rightarrow> byte list" where
  "two_digits n = [digit (n div 10), digit n]"

definition month_names :: "string list" where
  "month_names = [''Jan'', ''Feb'', ''Mar'', ''Apr'', ''May'', ''Jun'', ''Jul'', ''Aug'', ''Sep'', ''Oct'', ''Nov'', ''Dec'']"

text \<open>One conversion: year of the century, month name, day, hour padded with a space, minute, second. No other
  one is used.\<close>

definition conversion :: "tm \<Rightarrow> byte \<Rightarrow> byte list option" where
  "conversion t f =
     (if f = of_char CHR ''y'' then Some (two_digits (tm_year t mod 100))
      else if f = of_char CHR ''b'' then Some (bytes_of (month_names ! nat (tm_mon t)))
      else if f = of_char CHR ''d'' then Some (two_digits (tm_mday t))
      else if f = of_char CHR ''k''
        then Some (if tm_hour t < 10 then [32, digit (tm_hour t)] else two_digits (tm_hour t))
      else if f = of_char CHR ''M'' then Some (two_digits (tm_min t))
      else if f = of_char CHR ''S'' then Some (two_digits (tm_sec t))
      else None)"

fun expand :: "tm \<Rightarrow> byte list \<Rightarrow> byte list option" where
  "expand t [] = Some []"
| "expand t [c] = (if c = 37 then None else Some [c])"
| "expand t (c # f # cs) =
     (if c = 37 then do { x \<leftarrow> conversion t f; xs \<leftarrow> expand t cs; Some (x @ xs) }
      else do { xs \<leftarrow> expand t (f # cs); Some (c # xs) })"

text \<open>The length and the contents: 0 and indeterminate contents when the array of \<open>maxsize\<close> bytes is too small.\<close>

definition strftime :: "nat \<Rightarrow> byte list \<Rightarrow> tm \<Rightarrow> (nat \<times> byte list) option" where
  "strftime maxsize fmt t =
     (if \<not> tm_ok t then None
      else do {
        s \<leftarrow> expand t fmt;
        Some (if length s + 1 \<le> maxsize then (length s, s) else (0, []))
      })"

definition timestamp_format :: "byte list" where
  "timestamp_format = bytes_of ''timestamp:%y %b %d'' @ [9] @ bytes_of ''%k:%M:%S'' @ [newline]"

text \<open>The first part of a pass of the timer: the time, broken down and printed into an array of 100 bytes. The
  left result is the status the process ends with.\<close>

definition make_timestamp :: "tm option \<Rightarrow> (int + byte list) option" where
  "make_timestamp time_structure =
     (case time_structure of
        None \<Rightarrow> Some (Inl 1)
      | Some t \<Rightarrow> do {
          (timestampLength, timestampBuffer) \<leftarrow> strftime 100 timestamp_format t;
          Some (if timestampLength = 0 then Inl 1 else Inr timestampBuffer)
        })"

section \<open>The timestamp is one line\<close>

lemma expand_format:
  "expand t timestamp_format =
    Some (bytes_of ''timestamp:'' @ two_digits (tm_year t mod 100) @ [32] @ bytes_of (month_names ! nat (tm_mon t)) @ [32] @
      two_digits (tm_mday t) @ [9] @ (if tm_hour t < 10 then [32, digit (tm_hour t)] else two_digits (tm_hour t)) @ [58] @
      two_digits (tm_min t) @ [58] @ two_digits (tm_sec t) @ [newline])"
  by (simp add: timestamp_format_def bytes_of_def conversion_def newline_def)

lemma month_name:
  assumes "tm_ok t"
  shows "length (bytes_of (month_names ! nat (tm_mon t))) = 3" "newline \<notin> set (bytes_of (month_names ! nat (tm_mon t)))"
    "0 \<notin> set (bytes_of (month_names ! nat (tm_mon t)))"
proof -
  have "nat (tm_mon t) < length month_names" using assms by (auto simp: tm_ok_def month_names_def)
  then have "month_names ! nat (tm_mon t) \<in> set month_names" by (rule nth_mem)
  moreover have "\<forall>m \<in> set month_names. length (bytes_of m) = 3 \<and> newline \<notin> set (bytes_of m) \<and> 0 \<notin> set (bytes_of m)"
    by (simp add: month_names_def bytes_of_def newline_def)
  ultimately show "length (bytes_of (month_names ! nat (tm_mon t))) = 3" "newline \<notin> set (bytes_of (month_names ! nat (tm_mon t)))"
    "0 \<notin> set (bytes_of (month_names ! nat (tm_mon t)))"
    by blast+
qed

lemma digit_range: "digit n \<noteq> newline" "digit n \<noteq> 0"
proof -
  have "unat (digit n) = 48 + nat (n mod 10)"
    unfolding digit_def by (subst unat_of_nat) (simp add: take_bit_nat_def nat_less_iff)
  then show "digit n \<noteq> newline" "digit n \<noteq> 0" by (auto simp: newline_def)
qed

lemma stamp_is_line:
  assumes "tm_ok t"
  shows "\<exists>s. make_timestamp (Some t) = Some (Inr (s @ [newline])) \<and> length (s @ [newline]) = 29 \<and>
    newline \<notin> set s \<and> 0 \<notin> set s"
proof -
  let ?s = "bytes_of ''timestamp:'' @ two_digits (tm_year t mod 100) @ [32] @ bytes_of (month_names ! nat (tm_mon t)) @ [32] @
      two_digits (tm_mday t) @ [9] @ (if tm_hour t < 10 then [32, digit (tm_hour t)] else two_digits (tm_hour t)) @ [58] @
      two_digits (tm_min t) @ [58] @ two_digits (tm_sec t)"
  have len: "length ?s = 28" using month_name(1) [OF assms] by (simp add: two_digits_def bytes_of_def)
  have "expand t timestamp_format = Some (?s @ [newline])" by (simp only: expand_format append_assoc)
  then have "make_timestamp (Some t) = Some (Inr (?s @ [newline]))"
    using assms len by (simp only: make_timestamp_def strftime_def) simp
  moreover have "newline \<notin> set ?s"
    using month_name(2) [OF assms] digit_range(1) by (auto simp: two_digits_def bytes_of_def newline_def dest: sym)
  moreover have "0 \<notin> set ?s"
    using month_name(3) [OF assms] digit_range(2) by (auto simp: two_digits_def bytes_of_def dest: sym)
  ultimately show ?thesis using len by (intro exI [of _ ?s]) simp
qed

section \<open>Property\<close>

text \<open>Whatever valid time \<open>localtime\<close> gives, the timestamp is a single line of 29 bytes that ends with
  its newline and fits the array of 100 bytes with its terminator: formatting never fails, and the
  timer goes on to write a line that does not run into its neighbours.\<close>

theorem timestamp_is_one_line:
  assumes "tm_ok t"
  shows "\<exists>s. make_timestamp (Some t) = Some (Inr (s @ [newline])) \<and> length (s @ [newline]) = 29 \<and>
    newline \<notin> set s \<and> 0 \<notin> set s"
  by (rule stamp_is_line [OF assms])

definition demo_time :: tm where
  "demo_time = \<lparr>tm_sec = 7, tm_min = 30, tm_hour = 9, tm_mday = 5, tm_mon = 3, tm_year = 124\<rparr>"

theorem timestamp_is_one_line_witness:
  "make_timestamp (Some demo_time) = Some (Inr (bytes_of ''timestamp:24 Apr 05'' @ [9] @ bytes_of '' 9:30:07'' @ [newline])) \<and>
   (\<exists>s. make_timestamp (Some demo_time) = Some (Inr (s @ [newline])) \<and> length s = 28)"
proof
  have ok: "tm_ok demo_time" by (simp add: tm_ok_def demo_time_def)
  show "make_timestamp (Some demo_time) = Some (Inr (bytes_of ''timestamp:24 Apr 05'' @ [9] @ bytes_of '' 9:30:07'' @ [newline]))"
    using ok expand_format [of demo_time]
    by (simp add: make_timestamp_def strftime_def) (simp add: demo_time_def two_digits_def digit_def month_names_def bytes_of_def)
  show "\<exists>s. make_timestamp (Some demo_time) = Some (Inr (s @ [newline])) \<and> length s = 28"
    using timestamp_is_one_line [OF ok] by auto
qed

end
