(* ===== verification/Server_File.thy ===== *)
theory Server_File
  imports Thread_Steps Timestamp
begin

text \<open>
  The other configuration of \<^verbatim>\<open>server/aesdsocket.c\<close>, without \<open>USE_AESD_CHAR_DEVICE\<close>: packets are appended to
  a plain file under \<open>mutex_lock\<close>, and the thread of \<open>timer_handler\<close> appends a timestamp every ten
  seconds. The connections and the timer are interleaved one system call at a time; a thread that waits for
  the mutex has no step.
\<close>

section \<open>A plain file\<close>

text \<open>The contents and the position of one open file. Every write goes to the end (\<open>O_APPEND\<close>) and leaves the
  position there; a control request is unknown to a plain file. The answers that the file system decides are
  parameters: the descriptor and the number of bytes written (\<open>- 1\<close> for a failure).\<close>

type_synonym open_data_file = "byte list \<times> nat"

record file_env =
  fs_open :: int
  fs_write :: "byte list \<Rightarrow> int"
  m_lock :: int
  m_unlock :: int

definition data_file_path :: string where
  "data_file_path = ''/var/tmp/aesdsocketdata''"

definition file_write :: "file_env \<Rightarrow> open_data_file \<Rightarrow> byte list \<Rightarrow> int \<times> open_data_file" where
  "file_write F d xs =
     (let n = fs_write F xs
      in if n < 0 then (- 1, d) else (n, fst d @ take (nat n) xs, length (fst d @ take (nat n) xs)))"

definition file_read :: "open_data_file \<Rightarrow> nat \<Rightarrow> (int \<times> byte list \<times> open_data_file) option" where
  "file_read d n =
     (let bytes = take n (drop (snd d) (fst d)) in Some (int (length bytes), bytes, (fst d, snd d + length bytes)))"

definition file_ops :: "file_env \<Rightarrow> open_data_file device_ops" where
  "file_ops F =
     \<lparr>d_open = (\<lambda>d. (fs_open F, (fst d, 0))), d_ioctl = (\<lambda>d wc wo. Some (- 1, d)),
      d_write = (\<lambda>d xs. Some (file_write F d xs)), d_read = file_read\<rparr>"

section \<open>The timer\<close>

datatype locker = TimerThread | Connection nat

text \<open>The point in the body of \<open>timer_handler\<close>, with the timestamp, the descriptor and the status of the write where they
  are still used; \<open>TimerEnded\<close> is behind the loop, where the thread ends.\<close>

datatype timer_phase =
    TimeCheck
  | TimerOpen "byte list"
  | TimerLock int "byte list"
  | TimerWrite int "byte list"
  | TimerUnlock int int
  | TimerStatus int int
  | TimerSleep
  | TimerEnded

text \<open>The test \<open>while (1)\<close>.\<close>

definition timer_loop_test :: timer_phase where
  "timer_loop_test = (if (1 :: int) \<noteq> 0 then TimeCheck else TimerEnded)"

text \<open>A step: the thread waits for the mutex (or has ended), ends the process, or goes on.\<close>

datatype timer_result = TBlocked | TExits int | TGoes timer_phase "byte list" "locker option"

definition timer_handler_step ::
  "file_env \<Rightarrow> tm option \<Rightarrow> timer_phase \<Rightarrow> byte list \<Rightarrow> locker option \<Rightarrow> timer_result option" where
  "timer_handler_step F now ph stored_data owner =
     (case ph of
        TimeCheck \<Rightarrow> do {
          stamp \<leftarrow> make_timestamp now;
          Some (case stamp of Inl status \<Rightarrow> TExits status | Inr s \<Rightarrow> TGoes (TimerOpen s) stored_data owner)
        }
      | TimerOpen s \<Rightarrow>
          Some (if fs_open F = - 1 then TExits 1 else TGoes (TimerLock (fs_open F) s) stored_data owner)
      | TimerLock data_file s \<Rightarrow>
          Some (if owner \<noteq> None then TBlocked
                else if m_lock F \<noteq> 0 then TExits 1
                else TGoes (TimerWrite data_file s) stored_data (Some TimerThread))
      | TimerWrite data_file s \<Rightarrow>
          (let (writeStatus, stored_data, _) = file_write F (stored_data, 0) s
           in Some (TGoes (TimerUnlock data_file writeStatus) stored_data owner))
      | TimerUnlock data_file writeStatus \<Rightarrow>
          Some (if m_unlock F \<noteq> 0 then TExits 1 else TGoes (TimerStatus data_file writeStatus) stored_data None)
      | TimerStatus data_file writeStatus \<Rightarrow>
          Some (if writeStatus = - 1 then TExits 1 else TGoes TimerSleep stored_data owner)
      | TimerSleep \<Rightarrow> Some (TGoes timer_loop_test stored_data owner)
      | TimerEnded \<Rightarrow> Some TBlocked)"

text \<open>Starting the timer, at the top of every pass of the accept loop: the flag, and the thread when there is one.\<close>

definition start_timer :: "bool \<times> timer_phase option \<Rightarrow> bool \<times> timer_phase option" where
  "start_timer t =
     (case t of (timer_thread_flag, timer_thread) \<Rightarrow>
        if \<not> timer_thread_flag then (True, Some timer_loop_test) else (timer_thread_flag, timer_thread))"

lemma one_timer: "(start_timer ^^ Suc n) (False, None) = (True, Some TimeCheck)"
  by (induction n) (simp_all add: start_timer_def timer_loop_test_def)

text \<open>Where the timer can get to, whatever the file system, the clock and the other threads do.\<close>

inductive timer_reaches :: "timer_phase \<Rightarrow> timer_phase \<Rightarrow> bool" where
  here: "timer_reaches tp tp"
| later: "timer_reaches tp tp' \<Longrightarrow> timer_handler_step F now tp' c own = Some (TGoes tp'' c' own') \<Longrightarrow> timer_reaches tp tp''"

section \<open>The connections\<close>

text \<open>\<open>exit_safely\<close> in this configuration waits for the timer thread, when it was started, before it ends the process;
  without a status the wait goes on.\<close>

definition exit_safely_file :: "server_globals \<Rightarrow> timer_phase option \<Rightarrow> server_event list \<times> int option" where
  "exit_safely_file g timer_thread =
     ([EvShutdown (server_socket g), EvClose (server_socket g), EvClose (client_socket g), EvCloselog,
       EvRemove data_file_path],
      case timer_thread of None \<Rightarrow> Some 0 | Some ph \<Rightarrow> if ph = TimerEnded then Some 0 else None)"

text \<open>A connection: the phases it has in both configurations, and the two in which it holds the mutex.\<close>

datatype file_phase = Plain thread_phase | Locked int cblock | Written int

text \<open>A step: the thread waits for the mutex, ends the process, calls \<open>exit_safely\<close> (the status is missing when
  that waits for the timer), or goes on. The last argument is the timer thread.\<close>

datatype file_result =
    FBlocked
  | FExits int "server_event list"
  | FLeaves "server_event list" "int option"
  | FGoes thread_data file_phase "server_event list" int open_data_file "locker option"

definition file_thread_step ::
  "file_env \<Rightarrow> thread_env \<Rightarrow> server_globals \<Rightarrow> recv_result \<Rightarrow> nat \<Rightarrow> thread_data \<Rightarrow> file_phase \<Rightarrow> int \<Rightarrow>
   open_data_file \<Rightarrow> locker option \<Rightarrow> timer_phase option \<Rightarrow> file_result option" where
  "file_thread_step F E g r i args ph data_count d owner timer_thread =
     (let common = (\<lambda>leave ph. map_option (\<lambda>res.
            (case res of
               Exits status evs \<Rightarrow> leave status evs
             | Goes args ph evs data_count d \<Rightarrow> FGoes args (Plain ph) evs data_count d owner))
          (thread_step (file_ops F) E g r args ph data_count d))
      in case ph of
           Plain (Handling data_file buffer) \<Rightarrow> do {
             is_command \<leftarrow> strncmp_eq buffer seekto_prefix;
             if is_command
             then common (\<lambda>status evs. case exit_safely_file g timer_thread of (evs, status) \<Rightarrow> FLeaves evs status)
               (Handling data_file buffer)
             else if owner \<noteq> None then Some FBlocked
             else if m_lock F \<noteq> 0 then Some (FExits 1 [])
             else Some (FGoes args (Locked data_file buffer) [] data_count d (Some (Connection i)))
           }
         | Locked data_file buffer \<Rightarrow> do {
             s \<leftarrow> c_string buffer;
             let (write_result, d) = file_write F d s;
             Some (if write_result = - 1 then FExits 1 []
                   else FGoes args (Written data_file) [] data_count d owner)
           }
         | Written data_file \<Rightarrow>
             Some (if m_unlock F \<noteq> 0 then FExits 1 []
                   else FGoes args (Plain (Replying data_file (replicate BUFFER_SIZE 0))) [] data_count d None)
         | Plain ph \<Rightarrow> common FExits ph)"

section \<open>Interleaving\<close>

record worker =
  w_args :: thread_data
  w_phase :: file_phase
  w_pos :: nat

record file_server =
  stored_data :: "byte list"
  owner :: "locker option"
  workers :: "worker list"
  timer_thread_flag :: bool
  timer :: "timer_phase option"
  received :: int

text \<open>What a step appends to the file, for the history: the record it has to write and the part of it that
  \<open>write\<close> took. A write may be short.\<close>

type_synonym file_log = "(locker \<times> byte list \<times> byte list) list"

definition part_of :: "file_env \<Rightarrow> byte list \<Rightarrow> byte list" where
  "part_of F s = take (nat (fs_write F s)) s"

definition worker_writes :: "file_env \<Rightarrow> file_phase \<Rightarrow> (byte list \<times> byte list) list" where
  "worker_writes F ph =
     (case ph of
        Locked fd buffer \<Rightarrow> (case c_string buffer of Some s \<Rightarrow> [(s, part_of F s)] | None \<Rightarrow> [])
      | _ \<Rightarrow> [])"

definition timer_writes :: "file_env \<Rightarrow> timer_phase \<Rightarrow> (byte list \<times> byte list) list" where
  "timer_writes F ph =
     (case ph of TimerWrite fd s \<Rightarrow> if fs_write F s < 0 then [] else [(s, part_of F s)] | _ \<Rightarrow> [])"

definition written_bytes :: "file_log \<Rightarrow> byte list" where
  "written_bytes log = concat (map (\<lambda>(who, record, part). part) log)"

text \<open>The states the server can be in until a thread ends the process or calls \<open>exit_safely\<close> (which removes the
  file). A pass of the main thread starts the timer, when it has not been started, and then accepts a connection.\<close>

inductive running :: "server_globals \<Rightarrow> file_server \<Rightarrow> file_log \<Rightarrow> bool"
  for g :: server_globals where
  start: "running g \<lparr>stored_data = [], owner = None, workers = [], timer_thread_flag = False, timer = None, received = 0\<rparr> []"
| accept: "running g y log \<Longrightarrow> start_timer (timer_thread_flag y, timer y) = (flag, tmr) \<Longrightarrow>
    running g (y\<lparr>timer_thread_flag := flag, timer := tmr,
      workers := workers y @ [\<lparr>w_args = args, w_phase = Plain Starting, w_pos = 0\<rparr>]\<rparr>) log"
| wait: "running g y log \<Longrightarrow> start_timer (timer_thread_flag y, timer y) = (flag, tmr) \<Longrightarrow>
    running g (y\<lparr>timer_thread_flag := flag, timer := tmr\<rparr>) log"
| work: "running g y log \<Longrightarrow> (\<forall>xs. r = Received xs \<longrightarrow> length xs \<le> BUFFER_SIZE) \<Longrightarrow>
    i < length (workers y) \<Longrightarrow> w = workers y ! i \<Longrightarrow>
    file_thread_step F E g r i (w_args w) (w_phase w) (received y) (stored_data y, w_pos w) (owner y) (timer y) =
      Some (FGoes args ph evs n (stored_data', pos) owner') \<Longrightarrow>
    running g \<lparr>stored_data = stored_data', owner = owner',
        workers = (workers y)[i := \<lparr>w_args = args, w_phase = ph, w_pos = pos\<rparr>],
        timer_thread_flag = timer_thread_flag y, timer = timer y, received = n\<rparr>
      (log @ map (Pair (Connection i)) (worker_writes F (w_phase w)))"
| tick: "running g y log \<Longrightarrow> timer y = Some tp \<Longrightarrow> (\<forall>t. now = Some t \<longrightarrow> tm_ok t) \<Longrightarrow>
    timer_handler_step F now tp (stored_data y) (owner y) = Some (TGoes ph stored_data' owner') \<Longrightarrow>
    running g (y\<lparr>stored_data := stored_data', owner := owner', timer := Some ph\<rparr>)
      (log @ map (Pair TimerThread) (timer_writes F tp))"

section \<open>The invariant\<close>

definition holds_mutex :: "file_phase \<Rightarrow> bool" where
  "holds_mutex ph = (case ph of Locked fd buffer \<Rightarrow> True | Written fd \<Rightarrow> True | Plain ph \<Rightarrow> False)"

definition timer_holds_mutex :: "timer_phase \<Rightarrow> bool" where
  "timer_holds_mutex ph = (case ph of TimerWrite fd s \<Rightarrow> True | TimerUnlock fd n \<Rightarrow> True | _ \<Rightarrow> False)"

definition stamp_line :: "byte list \<Rightarrow> bool" where
  "stamp_line s \<longleftrightarrow> length s = 29 \<and> last s = newline \<and> newline \<notin> set (butlast s)"

definition has_stamp :: "timer_phase \<Rightarrow> bool" where
  "has_stamp ph =
     (case ph of TimerOpen s \<Rightarrow> stamp_line s | TimerLock fd s \<Rightarrow> stamp_line s | TimerWrite fd s \<Rightarrow> stamp_line s | _ \<Rightarrow> True)"

definition holds_packet :: "bool \<Rightarrow> cblock \<Rightarrow> bool" where
  "holds_packet complete buffer \<longleftrightarrow> (\<exists>p. c_string buffer = Some p \<and> packet_ok complete p)"

definition unwritten :: "file_log \<Rightarrow> nat \<Rightarrow> bool" where
  "unwritten log i \<longleftrightarrow> Connection i \<notin> fst ` set log"

definition worker_ok :: "file_log \<Rightarrow> nat \<Rightarrow> file_phase \<Rightarrow> bool" where
  "worker_ok log i ph =
     (case ph of
        Plain ph \<Rightarrow>
          (case ph of
             Starting \<Rightarrow> unwritten log i
           | Receiving buffer \<Rightarrow> unwritten log i \<and> holds_packet False buffer
           | Opening buffer \<Rightarrow> unwritten log i \<and> holds_packet True buffer
           | Handling fd buffer \<Rightarrow> unwritten log i \<and> holds_packet True buffer
           | Replying fd buf \<Rightarrow> True
           | Finished \<Rightarrow> True)
      | Locked fd buffer \<Rightarrow> unwritten log i \<and> holds_packet True buffer
      | Written fd \<Rightarrow> True)"

definition record_ok :: "nat \<Rightarrow> locker \<times> byte list \<times> byte list \<Rightarrow> bool" where
  "record_ok n e \<longleftrightarrow>
     (\<exists>k. snd (snd e) = take k (fst (snd e))) \<and>
     (case fst e of TimerThread \<Rightarrow> stamp_line (fst (snd e)) | Connection i \<Rightarrow> i < n \<and> packet_ok True (fst (snd e)))"

definition packets :: "file_log \<Rightarrow> file_log" where
  "packets log = filter (\<lambda>e. fst e \<noteq> TimerThread) log"

definition timer_ok :: "file_server \<Rightarrow> bool" where
  "timer_ok y \<longleftrightarrow>
     (timer_thread_flag y \<longleftrightarrow> timer y \<noteq> None) \<and> (workers y \<noteq> [] \<longrightarrow> timer y \<noteq> None) \<and>
     (\<forall>tp. timer y = Some tp \<longrightarrow> has_stamp tp \<and> tp \<noteq> TimerEnded) \<and>
     (owner y = Some TimerThread \<longleftrightarrow> (\<exists>tp. timer y = Some tp \<and> timer_holds_mutex tp))"

definition running_inv :: "file_server \<Rightarrow> file_log \<Rightarrow> bool" where
  "running_inv y log \<longleftrightarrow>
     stored_data y = written_bytes log \<and> distinct (map fst (packets log)) \<and>
     (\<forall>e \<in> set log. record_ok (length (workers y)) e) \<and> timer_ok y \<and>
     (\<forall>i. owner y = Some (Connection i) \<longleftrightarrow> i < length (workers y) \<and> holds_mutex (w_phase (workers y ! i))) \<and>
     (\<forall>i < length (workers y). worker_ok log i (w_phase (workers y ! i)))"

lemma file_write_part:
  assumes "file_write F d xs = (n, d')"
  shows "n = - 1 \<and> fs_write F xs < 0 \<and> d' = d \<or>
    n \<noteq> - 1 \<and> 0 \<le> fs_write F xs \<and> d' = (fst d @ part_of F xs, length (fst d @ part_of F xs))"
  using assms by (auto simp: file_write_def part_of_def Let_def split: if_splits)

lemma written_bytes_append [simp]:
  "written_bytes [] = []" "written_bytes (log @ log') = written_bytes log @ written_bytes log'"
  "written_bytes ((who, record, part) # log) = part @ written_bytes log"
  "written_bytes (map (Pair who) ps) = concat (map snd ps)"
  by (simp_all add: written_bytes_def comp_def split_def)

text \<open>The loop of the timer has no end.\<close>

lemma timer_goes_on:
  assumes "timer_handler_step F now tp c own = Some (TGoes tp' c' own')"
  shows "tp' \<noteq> TimerEnded"
proof (cases tp)
  case TimeCheck
  then obtain stamp where "make_timestamp now = Some stamp"
    using assms by (auto simp: timer_handler_step_def bind_eq_Some_conv)
  then show ?thesis using assms TimeCheck by (cases stamp) (auto simp: timer_handler_step_def)
qed (use assms in \<open>auto simp: timer_handler_step_def timer_loop_test_def split: if_splits prod.splits\<close>)

lemma timer_never_ends: "timer_reaches tp tp' \<Longrightarrow> tp \<noteq> TimerEnded \<Longrightarrow> tp' \<noteq> TimerEnded"
  by (induction rule: timer_reaches.induct) (auto dest: timer_goes_on)

text \<open>The steps that both configurations share leave the file and the mutex alone.\<close>

lemma common_step:
  assumes "thread_step (file_ops F) E g r args ph n d = Some (Goes args' ph' evs n' d')"
    and "worker_ok log i (Plain ph)" "\<forall>xs. r = Received xs \<longrightarrow> length xs \<le> BUFFER_SIZE"
    and "\<forall>fd buffer. ph = Handling fd buffer \<longrightarrow> strncmp_eq buffer seekto_prefix = Some True"
  shows "fst d' = fst d \<and> worker_ok log i (Plain ph') \<and>
    ((\<exists>fd buf. ph' = Replying fd buf) \<longrightarrow> (\<exists>fd buf. ph = Replying fd buf))"
proof (cases ph)
  case Starting
  then show ?thesis
    using assms empty_buffer by (auto simp: thread_step_def worker_ok_def holds_packet_def packet_ok_def split: if_splits)
next
  case (Receiving buffer)
  obtain d0 where d0: "c_string buffer = Some d0" "packet_ok False d0" "unwritten log i"
    using assms(2) Receiving by (auto simp: worker_ok_def holds_packet_def)
  obtain res where res: "recv_pass (realloc_ok E) r buffer (replicate BUFFER_SIZE 0) n = Some res"
    using assms(1) Receiving by (auto simp: thread_step_def bind_eq_Some_conv)
  then obtain complete buffer' where got: "recv_pass (realloc_ok E) r buffer (replicate BUFFER_SIZE 0) n =
      Some (Inr (complete, buffer', n'))" "d' = d" "ph' = (if complete then Opening buffer' else Receiving buffer')"
    using assms(1) Receiving by (cases res) (auto simp: thread_step_def)
  then show ?thesis
    using recv_pass_string [OF got(1) d0(1,2) assms(3)] d0(3) by (cases complete) (auto simp: worker_ok_def holds_packet_def)
next
  case (Handling fd buffer)
  obtain handled where h: "handle_packet (file_ops F) g buffer d = Some handled"
    using assms(1) Handling by (auto simp: thread_step_def bind_eq_Some_conv)
  then have "handled = Inl (exit_safely g)"
    using assms(4) Handling
    by (auto simp: handle_packet_def file_ops_def bind_eq_Some_conv split: option.splits)
  then show ?thesis using assms(1) Handling h by (simp add: thread_step_def exit_safely_def)
next
  case (Replying fd buf)
  then show ?thesis
    using assms(1)
    by (auto simp: thread_step_def worker_ok_def file_ops_def send_pass_def file_read_def Let_def bind_eq_Some_conv split: if_splits)
qed (use assms in \<open>auto simp: thread_step_def worker_ok_def file_ops_def split: if_splits\<close>)

lemma plain_step:
  assumes "file_thread_step F E g r i args (Plain p) n d own tmr = Some (FGoes args' ph' evs n' d' own')"
    and "\<forall>fd buffer. p = Handling fd buffer \<longrightarrow> strncmp_eq buffer seekto_prefix = Some True"
  obtains p' where "thread_step (file_ops F) E g r args p n d = Some (Goes args' p' evs n' d')" "ph' = Plain p'" "own' = own"
proof -
  obtain leave where go: "map_option (\<lambda>res. case res of Exits status evs \<Rightarrow> leave status evs
      | Goes args ph evs data_count d \<Rightarrow> FGoes args (Plain ph) evs data_count d own)
    (thread_step (file_ops F) E g r args p n d) = Some (FGoes args' ph' evs n' d' own')"
    and leave: "leave = FExits \<or> leave = (\<lambda>status evs. case exit_safely_file g tmr of (evs, status) \<Rightarrow> FLeaves evs status)"
    using assms by (cases p; auto simp: file_thread_step_def Let_def)
  obtain res where res: "thread_step (file_ops F) E g r args p n d = Some res" using go by auto
  then show thesis using go that leave by (cases res) (auto simp: exit_safely_file_def)
qed

text \<open>What one step of a connection changes: the file grows by its packet, and the mutex is taken only when it
  is free and released only by the one that took it.\<close>

definition worker_effect ::
  "file_env \<Rightarrow> file_log \<Rightarrow> nat \<Rightarrow> file_phase \<Rightarrow> byte list \<Rightarrow> locker option \<Rightarrow> file_phase \<Rightarrow> byte list \<Rightarrow>
   locker option \<Rightarrow> bool" where
  "worker_effect F log i ph c own ph' c' own' \<longleftrightarrow>
     c' = c @ concat (map snd (worker_writes F ph)) \<and>
     (own' = Some (Connection i) \<longleftrightarrow> holds_mutex ph') \<and>
     (own' = own \<or> own = None \<and> own' = Some (Connection i) \<or> own = Some (Connection i) \<and> own' = None) \<and>
     worker_ok (log @ map (Pair (Connection i)) (worker_writes F ph)) i ph' \<and>
     (worker_writes F ph = [] \<or>
       (\<exists>p. worker_writes F ph = [p] \<and> packet_ok True (fst p) \<and> (\<exists>k. snd p = take k (fst p)) \<and> unwritten log i))"

lemma worker_step:
  assumes "file_thread_step F E g r i args ph n (c, pos) own tmr = Some (FGoes args' ph' evs n' (c', pos') own')"
    and "worker_ok log i ph" "\<forall>xs. r = Received xs \<longrightarrow> length xs \<le> BUFFER_SIZE"
    and "own = Some (Connection i) \<longleftrightarrow> holds_mutex ph"
  shows "worker_effect F log i ph c own ph' c' own'"
proof -
  show ?thesis
  proof (cases ph)
    case (Plain p)
    show ?thesis
    proof (cases "\<forall>fd buffer. p = Handling fd buffer \<longrightarrow> strncmp_eq buffer seekto_prefix = Some True")
      case True
      obtain p' where p': "thread_step (file_ops F) E g r args p n (c, pos) = Some (Goes args' p' evs n' (c', pos'))"
        "ph' = Plain p'" "own' = own"
        by (rule plain_step [OF assms(1) [unfolded Plain] True])
      show ?thesis
        using common_step [OF p'(1) _ assms(3) True, of log i] assms(2,4) Plain p'
        by (simp add: worker_effect_def worker_writes_def holds_mutex_def)
    next
      case False
      then obtain fd buffer where p: "p = Handling fd buffer" "strncmp_eq buffer seekto_prefix \<noteq> Some True" by blast
      then have "own = None" "own' = Some (Connection i)" "ph' = Locked fd buffer" "c' = c"
        using assms(1) Plain by (auto simp: file_thread_step_def bind_eq_Some_conv split: if_splits)
      then show ?thesis
        using assms(2) Plain p by (simp add: worker_effect_def worker_writes_def holds_mutex_def worker_ok_def)
    qed
  next
    case (Locked fd buffer)
    obtain s where s: "c_string buffer = Some s" "packet_ok True s" "unwritten log i"
      using assms(2) Locked by (auto simp: worker_ok_def holds_packet_def)
    obtain k c2 q where w: "file_write F (c, pos) s = (k, c2, q)" by (cases "file_write F (c, pos) s")
    then have "k \<noteq> - 1" "ph' = Written fd" "c' = c2" "own' = own"
      using assms(1) Locked s(1) by (auto simp: file_thread_step_def split: if_splits)
    moreover have "c2 = c @ part_of F s" using file_write_part [OF w] calculation(1) by simp
    moreover have "\<exists>k. part_of F s = take k s" unfolding part_of_def by blast
    ultimately show ?thesis
      using assms(4) Locked s by (simp add: worker_effect_def worker_writes_def holds_mutex_def worker_ok_def)
  next
    case (Written fd)
    then show ?thesis
      using assms(1,4) by (auto simp: file_thread_step_def worker_effect_def worker_writes_def holds_mutex_def worker_ok_def split: if_splits)
  qed
qed

text \<open>The same for the timer.\<close>

lemma timer_step:
  assumes "timer_handler_step F now ph c own = Some (TGoes ph' c' own')"
    and "has_stamp ph" "\<forall>t. now = Some t \<longrightarrow> tm_ok t"
    and "own = Some TimerThread \<longleftrightarrow> timer_holds_mutex ph"
  shows "c' = c @ concat (map snd (timer_writes F ph)) \<and> (own' = Some TimerThread \<longleftrightarrow> timer_holds_mutex ph') \<and>
    (own' = own \<or> own = None \<and> own' = Some TimerThread \<or> own = Some TimerThread \<and> own' = None) \<and>
    has_stamp ph' \<and> (\<forall>s \<in> set (timer_writes F ph). stamp_line (fst s) \<and> (\<exists>k. snd s = take k (fst s)))"
proof (cases ph)
  case TimeCheck
  then obtain stamp where "make_timestamp now = Some stamp"
    using assms(1) by (auto simp: timer_handler_step_def bind_eq_Some_conv)
  then obtain s where s: "make_timestamp now = Some (Inr s)" "ph' = TimerOpen s" "c' = c" "own' = own"
    using assms(1) TimeCheck by (cases stamp) (auto simp: timer_handler_step_def)
  then obtain t where "now = Some t" by (cases now) (simp_all add: make_timestamp_def)
  then have "stamp_line s"
    using stamp_is_line [of t] assms(3) s(1) by (auto simp: stamp_line_def)
  then show ?thesis using s TimeCheck assms(4) by (simp add: timer_writes_def timer_holds_mutex_def has_stamp_def)
next
  case (TimerWrite fd s)
  obtain k c2 q where w: "file_write F (c, 0) s = (k, c2, q)" by (cases "file_write F (c, 0) s")
  moreover have "\<exists>k. part_of F s = take k s" unfolding part_of_def by blast
  ultimately show ?thesis
    using file_write_part [OF w] assms(1,2,4) TimerWrite
    by (auto simp: timer_handler_step_def timer_writes_def timer_holds_mutex_def has_stamp_def)
qed (use assms in \<open>auto simp: timer_handler_step_def timer_loop_test_def timer_writes_def timer_holds_mutex_def has_stamp_def
      split: if_splits\<close>)

lemma worker_ok_frame: "e \<noteq> Connection i \<Longrightarrow> worker_ok log i ph \<Longrightarrow> worker_ok (log @ map (Pair e) ps) i ph"
  unfolding worker_ok_def unwritten_def by (auto split: file_phase.splits thread_phase.splits)

lemma map_snd_pairs [simp]: "map (snd \<circ> Pair e) ps = ps"
  by (simp add: comp_def)

lemma unwritten_alt: "unwritten log i \<longleftrightarrow> (\<forall>e \<in> set log. fst e \<noteq> Connection i)"
  by (force simp: unwritten_def)

lemma running_inv_work:
  assumes "running_inv y log" "\<forall>xs. r = Received xs \<longrightarrow> length xs \<le> BUFFER_SIZE"
    and "i < length (workers y)" "w = workers y ! i"
    and "file_thread_step F E g r i (w_args w) (w_phase w) (received y) (stored_data y, w_pos w) (owner y) (timer y) =
      Some (FGoes args ph evs n (c', pos) own')"
  shows "running_inv \<lparr>stored_data = c', owner = own', workers = (workers y)[i := \<lparr>w_args = args, w_phase = ph, w_pos = pos\<rparr>],
      timer_thread_flag = timer_thread_flag y, timer = timer y, received = n\<rparr> (log @ map (Pair (Connection i)) (worker_writes F (w_phase w)))"
proof -
  note inv = assms(1) [unfolded running_inv_def]
  let ?ps = "worker_writes F (w_phase w)"
  have "worker_effect F log i (w_phase w) (stored_data y) (owner y) ph c' own'"
    using worker_step [OF assms(5) _ assms(2), of log] inv assms(3,4) by blast
  note eff = this [unfolded worker_effect_def]
  have "worker_ok (log @ map (Pair (Connection i)) ?ps) j (w_phase ((workers y)[i := \<lparr>w_args = args, w_phase = ph, w_pos = pos\<rparr>] ! j))"
    if "j < length (workers y)" for j
    using that eff inv worker_ok_frame [of "Connection i" j log "w_phase (workers y ! j)" ?ps] assms(3)
    by (cases "j = i") auto
  moreover have "distinct (map fst (packets (log @ map (Pair (Connection i)) ?ps)))"
  proof -
    have old: "distinct (map fst (packets log))" using inv by blast
    from eff consider "?ps = []" | q where "?ps = [q]" "unwritten log i" by blast
    then show ?thesis
    proof cases
      case 2
      then have "Connection i \<notin> fst ` set (packets log)" by (auto simp: unwritten_def packets_def image_iff)
      moreover have "map fst (packets (log @ map (Pair (Connection i)) ?ps)) = map fst (packets log) @ [Connection i]"
        using 2(1) by (simp add: packets_def)
      ultimately show ?thesis using old by simp
    qed (use old in simp)
  qed
  moreover have "own' = Some (Connection j) \<longleftrightarrow> j < length (workers y) \<and>
      holds_mutex (w_phase ((workers y)[i := \<lparr>w_args = args, w_phase = ph, w_pos = pos\<rparr>] ! j))" for j
  proof (cases "j = i")
    case True
    then show ?thesis using eff assms(3) by simp
  next
    case False
    have "owner y = Some (Connection j) \<longleftrightarrow> j < length (workers y) \<and> holds_mutex (w_phase (workers y ! j))"
      using inv by blast
    moreover have "own' = Some (Connection j) \<longleftrightarrow> owner y = Some (Connection j)" using eff False by auto
    ultimately show ?thesis using False by simp
  qed
  moreover have "timer_ok \<lparr>stored_data = c', owner = own', workers = (workers y)[i := \<lparr>w_args = args, w_phase = ph, w_pos = pos\<rparr>],
      timer_thread_flag = timer_thread_flag y, timer = timer y, received = n\<rparr>"
    using eff inv by (auto simp: timer_ok_def)
  moreover have "\<forall>e \<in> set (log @ map (Pair (Connection i)) ?ps). record_ok (length (workers y)) e"
    using eff inv assms(3) by (auto simp: record_ok_def)
  ultimately show ?thesis using eff inv unfolding running_inv_def by simp
qed

lemma running_inv_tick:
  assumes "running_inv y log" "timer y = Some tp" "\<forall>t. now = Some t \<longrightarrow> tm_ok t"
    and "timer_handler_step F now tp (stored_data y) (owner y) = Some (TGoes ph c' own')"
  shows "running_inv (y\<lparr>stored_data := c', owner := own', timer := Some ph\<rparr>)
    (log @ map (Pair TimerThread) (timer_writes F tp))"
proof -
  note inv = assms(1) [unfolded running_inv_def]
  let ?ps = "timer_writes F tp"
  have "has_stamp tp" "owner y = Some TimerThread \<longleftrightarrow> timer_holds_mutex tp"
    using inv assms(2) by (auto simp: timer_ok_def)
  from timer_step [OF assms(4) this(1) assms(3) this(2)]
  have eff: "c' = stored_data y @ concat (map snd ?ps)" "own' = Some TimerThread \<longleftrightarrow> timer_holds_mutex ph"
    "own' = owner y \<or> owner y = None \<and> own' = Some TimerThread \<or> owner y = Some TimerThread \<and> own' = None"
    "has_stamp ph" "\<forall>s \<in> set ?ps. stamp_line (fst s) \<and> (\<exists>k. snd s = take k (fst s))"
    by blast+
  have "worker_ok (log @ map (Pair TimerThread) ?ps) j (w_phase (workers y ! j))" if "j < length (workers y)" for j
    using that inv worker_ok_frame [of TimerThread j log "w_phase (workers y ! j)" ?ps] by simp
  moreover have "packets (map (Pair TimerThread) ?ps) = []" by (simp add: packets_def)
  then have "packets (log @ map (Pair TimerThread) ?ps) = packets log" by (simp add: packets_def)
  moreover have "\<forall>e \<in> set (log @ map (Pair TimerThread) ?ps). record_ok (length (workers y)) e"
    using eff(5) inv by (auto simp: record_ok_def)
  moreover have "own' = Some (Connection j) \<longleftrightarrow> j < length (workers y) \<and> holds_mutex (w_phase (workers y ! j))" for j
    using eff(3) inv by auto
  moreover have "timer_ok (y\<lparr>stored_data := c', owner := own', timer := Some ph\<rparr>)"
    using inv assms(2) eff(2,4) timer_goes_on [OF assms(4)] by (auto simp: timer_ok_def)
  ultimately show ?thesis using eff(1) inv unfolding running_inv_def by simp
qed

lemma running_inv_pass:
  assumes "running_inv y log" "start_timer (timer_thread_flag y, timer y) = (flag, tmr)"
  shows "running_inv (y\<lparr>timer_thread_flag := flag, timer := tmr\<rparr>) log" "tmr \<noteq> None"
proof -
  have t: "timer_ok y" using assms(1) by (simp add: running_inv_def)
  then show "tmr \<noteq> None" using assms(2) by (auto simp: start_timer_def timer_ok_def split: if_splits)
  have "timer_ok (y\<lparr>timer_thread_flag := flag, timer := tmr\<rparr>)"
    using t assms(2)
    by (auto simp: start_timer_def timer_ok_def timer_loop_test_def has_stamp_def timer_holds_mutex_def split: if_splits)
  then show "running_inv (y\<lparr>timer_thread_flag := flag, timer := tmr\<rparr>) log"
    using assms(1) by (simp add: running_inv_def)
qed

lemma running_inv_accept:
  assumes "running_inv y log" "timer y \<noteq> None"
  shows "running_inv (y\<lparr>workers := workers y @ [\<lparr>w_args = args, w_phase = Plain Starting, w_pos = 0\<rparr>]\<rparr>) log"
proof -
  have "unwritten log (length (workers y))"
    using assms(1) unfolding running_inv_def unwritten_def record_ok_def by force
  moreover have "timer_ok (y\<lparr>workers := workers y @ [\<lparr>w_args = args, w_phase = Plain Starting, w_pos = 0\<rparr>]\<rparr>)"
    using assms by (simp add: running_inv_def timer_ok_def)
  ultimately show ?thesis
    using assms(1) unfolding running_inv_def
    by (auto simp: nth_append less_Suc_eq worker_ok_def holds_mutex_def record_ok_def split: locker.splits)
qed

lemma running_invariant: "running g y log \<Longrightarrow> running_inv y log"
proof (induction rule: running.induct)
  case start
  then show ?case by (simp add: running_inv_def packets_def timer_ok_def)
next
  case (accept y log flag tmr args)
  note passed = running_inv_pass [OF accept.IH accept.hyps(2)]
  show ?case using running_inv_accept [OF passed(1)] passed(2) by simp
next
  case wait
  then show ?case using running_inv_pass(1) by blast
next
  case work
  then show ?case by (simp add: running_inv_work)
next
  case tick
  then show ?case by (simp add: running_inv_tick)
qed

section \<open>Where a reply starts\<close>

text \<open>A connection that has written stands behind its own packet.\<close>

definition behind_own :: "file_log \<Rightarrow> nat \<Rightarrow> nat \<Rightarrow> bool" where
  "behind_own log i pos \<longleftrightarrow>
     (\<exists>pre p part post. log = pre @ (Connection i, p, part) # post \<and> length (written_bytes pre) + length part \<le> pos)"

definition reply_ok :: "file_log \<Rightarrow> nat \<Rightarrow> file_phase \<Rightarrow> nat \<Rightarrow> bool" where
  "reply_ok log i ph pos \<longleftrightarrow>
     (case ph of
        Written fd \<Rightarrow> behind_own log i pos
      | Plain p \<Rightarrow> (case p of Replying fd buf \<Rightarrow> behind_own log i pos | _ \<Rightarrow> True)
      | Locked fd buffer \<Rightarrow> True)"

lemma behind_own_later: "behind_own log i pos \<Longrightarrow> pos \<le> pos' \<Longrightarrow> behind_own (log @ vs) i pos'"
  unfolding behind_own_def by (metis append_Cons append_assoc le_trans)

lemma reply_ok_later: "reply_ok log i ph pos \<Longrightarrow> reply_ok (log @ vs) i ph pos"
  using behind_own_later unfolding reply_ok_def by (auto split: file_phase.splits thread_phase.splits)

lemma reply_ok_work:
  assumes "file_thread_step F E g r i args ph n (c, pos) own tmr = Some (FGoes args' ph' evs n' (c', pos') own')"
    and "worker_ok log i ph" "reply_ok log i ph pos" "c = written_bytes log"
    and "\<forall>xs. r = Received xs \<longrightarrow> length xs \<le> BUFFER_SIZE"
  shows "reply_ok (log @ map (Pair (Connection i)) (worker_writes F ph)) i ph' pos'"
proof (cases ph)
  case (Locked fd buffer)
  obtain s where s: "c_string buffer = Some s" using assms(2) Locked by (auto simp: worker_ok_def holds_packet_def)
  obtain k c2 q where w: "file_write F (c, pos) s = (k, c2, q)" by (cases "file_write F (c, pos) s")
  then have go: "k \<noteq> - 1" "ph' = Written fd" "pos' = q"
    using assms(1) Locked s by (auto simp: file_thread_step_def split: if_splits)
  then have "q = length (c @ part_of F s)" using file_write_part [OF w] by simp
  then have "behind_own (log @ [(Connection i, s, part_of F s)]) i q"
    unfolding behind_own_def assms(4) by (intro exI [of _ log] exI [of _ s] exI [of _ "part_of F s"] exI [of _ "[]"]) simp
  then show ?thesis using go Locked s by (simp add: reply_ok_def worker_writes_def)
next
  case (Written fd)
  then show ?thesis
    using assms(1,3) by (auto simp: file_thread_step_def reply_ok_def worker_writes_def split: if_splits)
next
  case (Plain p)
  have none: "worker_writes F ph = []" using Plain by (simp add: worker_writes_def)
  show ?thesis
  proof (cases "\<exists>fd buf. p = Replying fd buf")
    case True
    then obtain fd buf where p: "p = Replying fd buf" by blast
    have "behind_own log i pos" using assms(3) Plain p by (simp add: reply_ok_def)
    moreover have "pos \<le> pos' \<and> (ph' = Plain Finished \<or> (\<exists>buf'. ph' = Plain (Replying fd buf')))"
      using assms(1) Plain p
      by (auto simp: file_thread_step_def thread_step_def file_ops_def send_pass_def file_read_def Let_def bind_eq_Some_conv
          split: if_splits)
    ultimately show ?thesis using behind_own_later [of log i pos pos' "[]"] none by (auto simp: reply_ok_def)
  next
    case False
    have "\<not> (\<exists>fd buf. ph' = Plain (Replying fd buf)) \<and> \<not> (\<exists>fd. ph' = Written fd)"
    proof (cases "\<forall>fd buffer. p = Handling fd buffer \<longrightarrow> strncmp_eq buffer seekto_prefix = Some True")
      case True
      obtain p' where "thread_step (file_ops F) E g r args p n (c, pos) = Some (Goes args' p' evs n' (c', pos'))" "ph' = Plain p'"
        by (rule plain_step [OF assms(1) [unfolded Plain] True])
      then show ?thesis using common_step [of F E g r args p n "(c, pos)" args' p' evs n' "(c', pos')" log i] assms(2,5) Plain True False
        by auto
    next
      case c: False
      then show ?thesis
        using assms(1) Plain by (auto simp: file_thread_step_def bind_eq_Some_conv split: if_splits)
    qed
    then show ?thesis by (auto simp: reply_ok_def split: file_phase.splits thread_phase.splits)
  qed
qed

lemma running_reply_ok:
  "running g y log \<Longrightarrow> \<forall>i < length (workers y). reply_ok log i (w_phase (workers y ! i)) (w_pos (workers y ! i))"
proof (induction rule: running.induct)
  case (accept y log flag tmr args)
  then show ?case by (auto simp: nth_append less_Suc_eq reply_ok_def)
next
  case (work y log r i w F E args ph evs n c' pos owner')
  note inv = running_invariant [OF work.hyps(1), unfolded running_inv_def]
  have "reply_ok (log @ map (Pair (Connection i)) (worker_writes F (w_phase w))) i ph pos"
    using reply_ok_work [OF work.hyps(5)] inv work.hyps work.IH by blast
  then show ?case using work.IH work.hyps(3) reply_ok_later by (auto simp: nth_list_update)
next
  case tick
  then show ?case using reply_ok_later by simp
qed simp_all

section \<open>A run with one client and one timestamp\<close>

definition demo_file :: file_env where
  "demo_file = \<lparr>fs_open = 3, fs_write = (\<lambda>xs. int (length xs)), m_lock = 0, m_unlock = 0\<rparr>"

definition demo_memory :: thread_env where
  "demo_memory = \<lparr>malloc_ok = True, realloc_ok = (\<lambda>n. True), arrivals = []\<rparr>"

lemma demo_file_simps: "fs_open demo_file = 3" "m_lock demo_file = 0" "m_unlock demo_file = 0"
  "file_write demo_file (c, k) xs = (int (length xs), c @ xs, length (c @ xs))" "\<not> fs_write demo_file xs < 0"
  "part_of demo_file xs = xs"
  by (simp_all add: demo_file_def part_of_def file_write_def)

abbreviation idle_server :: file_server where
  "idle_server \<equiv> \<lparr>stored_data = [], owner = None, workers = [], timer_thread_flag = True, timer = Some TimeCheck, received = 0\<rparr>"

lemma demo_file_started: "running g idle_server []"
  using running.wait [OF running.start, of True "Some TimeCheck" g] by (simp add: start_timer_def timer_loop_test_def)

lemma running_tickI:
  assumes "running g (idle_server\<lparr>stored_data := c, owner := own, timer := Some tp\<rparr>) log" "tm_ok t"
    and "timer_handler_step demo_file (Some t) tp c own = Some (TGoes tp' c' own')"
  shows "running g (idle_server\<lparr>stored_data := c', owner := own', timer := Some tp'\<rparr>)
    (log @ map (Pair TimerThread) (timer_writes demo_file tp))"
proof -
  have now: "\<forall>u. Some t = Some u \<longrightarrow> tm_ok u" using assms(2) by simp
  show ?thesis using running.tick [OF assms(1) _ now, of tp demo_file] assms(3) by simp
qed

lemma demo_timer_run:
  assumes "make_timestamp (Some t) = Some (Inr s)" "tm_ok t"
  shows "running g (idle_server\<lparr>stored_data := s, owner := Some TimerThread, timer := Some (TimerUnlock 3 (int (length s)))\<rparr>)
    [(TimerThread, s, s)]"
proof -
  note tick = running_tickI [OF _ assms(2), of g]
  have 0: "running g (idle_server\<lparr>stored_data := [], owner := None, timer := Some TimeCheck\<rparr>) []"
    using demo_file_started by simp
  have "timer_handler_step demo_file (Some t) TimeCheck [] None = Some (TGoes (TimerOpen s) [] None)"
    using assms(1) by (simp add: timer_handler_step_def)
  from tick [OF 0 this] have 1: "running g (idle_server\<lparr>stored_data := [], owner := None, timer := Some (TimerOpen s)\<rparr>) []"
    by (simp add: timer_writes_def)
  have "timer_handler_step demo_file (Some t) (TimerOpen s) [] None = Some (TGoes (TimerLock 3 s) [] None)"
    by (simp add: timer_handler_step_def demo_file_simps)
  from tick [OF 1 this] have 2: "running g (idle_server\<lparr>stored_data := [], owner := None, timer := Some (TimerLock 3 s)\<rparr>) []"
    by (simp add: timer_writes_def)
  have "timer_handler_step demo_file (Some t) (TimerLock 3 s) [] None = Some (TGoes (TimerWrite 3 s) [] (Some TimerThread))"
    by (simp add: timer_handler_step_def demo_file_simps)
  from tick [OF 2 this]
  have 3: "running g (idle_server\<lparr>stored_data := [], owner := Some TimerThread, timer := Some (TimerWrite 3 s)\<rparr>) []"
    by (simp add: timer_writes_def)
  have "timer_handler_step demo_file (Some t) (TimerWrite 3 s) [] (Some TimerThread) =
      Some (TGoes (TimerUnlock 3 (int (length s))) s (Some TimerThread))"
    by (simp add: timer_handler_step_def demo_file_simps)
  from tick [OF 3 this] show ?thesis by (simp add: timer_writes_def demo_file_simps)
qed

lemma running_workI:
  assumes "running g (idle_server\<lparr>stored_data := c, owner := own, workers := [\<lparr>w_args = a, w_phase = ph, w_pos = k\<rparr>], received := n\<rparr>) log"
    and "\<forall>xs. r = Received xs \<longrightarrow> length xs \<le> BUFFER_SIZE"
    and "file_thread_step demo_file demo_memory g r 0 a ph n (c, k) own (Some TimeCheck) = Some (FGoes a' ph' evs n' (c', k') own')"
  shows "running g (idle_server\<lparr>stored_data := c', owner := own', workers := [\<lparr>w_args = a', w_phase = ph', w_pos = k'\<rparr>], received := n'\<rparr>)
    (log @ map (Pair (Connection 0)) (worker_writes demo_file ph))"
  using running.work [OF assms(1,2), of 0] assms(3) by simp

text \<open>A client whose packet has arrived and whose file is open.\<close>

lemma demo_packet_run:
  assumes "0 \<notin> set xs" "newline \<notin> set xs" "length xs < 1023"
  obtains b where "c_string b = Some (xs @ [newline])"
    "running g (idle_server\<lparr>stored_data := [], owner := None, workers := [\<lparr>w_args = a, w_phase = Plain (Handling 3 b), w_pos = 0\<rparr>],
      received := int (length xs) + 1\<rparr>) []"
proof -
  let ?r = "Received (xs @ [newline])"
  have r: "\<forall>ys. ?r = Received ys \<longrightarrow> length ys \<le> BUFFER_SIZE" using assms(3) by (simp add: BUFFER_SIZE_def)
  note work = running_workI [OF _ r]
  obtain b where b: "recv_pass (realloc_ok demo_memory) ?r (replicate BUFFER_SIZE (Some 0)) (replicate BUFFER_SIZE 0) 0 =
      Some (Inr (True, b, int (length xs) + 1))" "c_string b = Some (xs @ [newline])"
    using recv_pass_whole [OF assms, of 0 "realloc_ok demo_memory"] assms(3) by (auto simp: demo_memory_def)
  have 1: "running g (idle_server\<lparr>stored_data := [], owner := None, workers := [\<lparr>w_args = a, w_phase = Plain Starting, w_pos = 0\<rparr>], received := 0\<rparr>) []"
    using running.accept [OF demo_file_started, of True "Some TimeCheck" g a] by (simp add: start_timer_def)
  have 2: "running g (idle_server\<lparr>stored_data := [], owner := None, workers := [\<lparr>w_args = a, w_phase = Plain (Receiving (replicate BUFFER_SIZE (Some 0))), w_pos = 0\<rparr>], received := 0\<rparr>) []"
    using work [OF 1] by (force simp: file_thread_step_def thread_step_def worker_writes_def demo_memory_def)
  have 3: "running g (idle_server\<lparr>stored_data := [], owner := None, workers := [\<lparr>w_args = a, w_phase = Plain (Opening b), w_pos = 0\<rparr>], received := int (length xs) + 1\<rparr>) []"
    using work [OF 2] b(1) by (force simp: file_thread_step_def thread_step_def worker_writes_def)
  have "running g (idle_server\<lparr>stored_data := [], owner := None, workers := [\<lparr>w_args = a, w_phase = Plain (Handling 3 b), w_pos = 0\<rparr>], received := int (length xs) + 1\<rparr>) []"
    using work [OF 3] by (force simp: file_thread_step_def thread_step_def worker_writes_def file_ops_def demo_file_simps)
  then show thesis using that b(2) by blast
qed

lemma demo_client_run:
  "running g (idle_server\<lparr>stored_data := [104, 105, 10], workers :=
    [\<lparr>w_args = a, w_phase = Plain (Replying 3 (replicate BUFFER_SIZE 0)), w_pos = 3\<rparr>], received := 3\<rparr>)
    [(Connection 0, [104, 105, 10], [104, 105, 10])]"
proof -
  have r: "\<forall>ys. RecvClosed = Received ys \<longrightarrow> length ys \<le> BUFFER_SIZE" by simp
  note work = running_workI [OF _ r]
  obtain b where b: "c_string b = Some [104, 105, 10]"
    and 4: "running g (idle_server\<lparr>stored_data := [], owner := None, workers := [\<lparr>w_args = a, w_phase = Plain (Handling 3 b), w_pos = 0\<rparr>], received := 3\<rparr>) []"
    by (rule demo_packet_run [of "[104, 105]" g a]) (simp_all add: newline_def)
  have nocmd: "strncmp_eq b seekto_prefix = Some False"
    using strncmp_eq_string [OF b seekto_prefix_facts(2)] by (simp add: seekto_prefix_def bytes_of_def)
  have 5: "running g (idle_server\<lparr>stored_data := [], owner := Some (Connection 0), workers := [\<lparr>w_args = a, w_phase = Locked 3 b, w_pos = 0\<rparr>], received := 3\<rparr>) []"
    using work [OF 4] nocmd by (force simp: file_thread_step_def worker_writes_def demo_file_simps)
  have 6: "running g (idle_server\<lparr>stored_data := [104, 105, 10], owner := Some (Connection 0),
      workers := [\<lparr>w_args = a, w_phase = Written 3, w_pos = 3\<rparr>], received := 3\<rparr>) [(Connection 0, [104, 105, 10], [104, 105, 10])]"
  proof -
    have "file_thread_step demo_file demo_memory g RecvClosed 0 a (Locked 3 b) 3 ([], 0) (Some (Connection 0)) (Some TimeCheck) =
        Some (FGoes a (Written 3) [] 3 ([104, 105, 10], 3) (Some (Connection 0)))"
      using b by (simp add: file_thread_step_def demo_file_simps)
    from work [OF 5 this] show ?thesis using b by (simp add: worker_writes_def demo_file_simps)
  qed
  show ?thesis
    using work [OF 6] by (force simp: file_thread_step_def worker_writes_def demo_file_simps)
qed

section \<open>Properties\<close>

text \<open>C17. Records in the data file are not mixed. However connections and timer interleave, and however short
  their writes are, the file is the concatenation of what the writes took, in their order: from each record one
  piece, a beginning of the record (all of it when its write was complete). Each timestamp is one line of 29 bytes, each
  packet has at most one newline, at its end, and each connection writes at most once; and whoever writes, or
  has written and not yet unlocked, owns the mutex, so that there is at most one such thread.\<close>

theorem file_records_are_whole:
  assumes "running g y log"
  shows "stored_data y = concat (map (\<lambda>(who, record, part). part) log) \<and>
    (\<forall>(who, record, part) \<in> set log. (\<exists>k. part = take k record) \<and>
      (case who of TimerThread \<Rightarrow> stamp_line record | Connection i \<Rightarrow> i < length (workers y) \<and> packet_ok True record)) \<and>
    distinct (map fst (packets log)) \<and>
    (\<forall>i < length (workers y). holds_mutex (w_phase (workers y ! i)) \<longrightarrow> owner y = Some (Connection i)) \<and>
    (\<forall>tp. timer y = Some tp \<and> timer_holds_mutex tp \<longrightarrow> owner y = Some TimerThread)"
proof -
  note inv = running_invariant [OF assms, unfolded running_inv_def]
  have each: "(\<exists>k. part = take k xs) \<and>
      (case who of TimerThread \<Rightarrow> stamp_line xs | Connection i \<Rightarrow> i < length (workers y) \<and> packet_ok True xs)"
    if "(who, xs, part) \<in> set log" for who xs part
  proof -
    have "record_ok (length (workers y)) (who, xs, part)" using inv that by blast
    then show ?thesis unfolding record_ok_def fst_conv snd_conv .
  qed
  have "stored_data y = concat (map (\<lambda>(who, record, part). part) log)" using inv by (simp add: written_bytes_def)
  moreover have "\<forall>tp. timer y = Some tp \<and> timer_holds_mutex tp \<longrightarrow> owner y = Some TimerThread"
    using inv unfolding timer_ok_def by blast
  moreover have "\<forall>i < length (workers y). holds_mutex (w_phase (workers y ! i)) \<longrightarrow> owner y = Some (Connection i)"
    using inv by blast
  ultimately show ?thesis using each inv by blast
qed

theorem file_records_are_whole_witness:
  "\<exists>y s. running \<lparr>server_socket = 0, client_socket = 0\<rparr> y [(TimerThread, s, s)] \<and> stored_data y = s \<and> length s = 29"
proof -
  have ok: "tm_ok demo_time" by (simp add: tm_ok_def demo_time_def)
  obtain s where s: "make_timestamp (Some demo_time) = Some (Inr s)" using stamp_is_line [OF ok] by blast
  note run = demo_timer_run [OF s ok, of "\<lparr>server_socket = 0, client_socket = 0\<rparr>"]
  have "stamp_line s" using file_records_are_whole [OF run] by simp
  then show ?thesis using run by (intro exI) (auto simp: stamp_line_def)
qed

text \<open>C36. In this configuration a client gets no answer unless another thread writes in between. Its file is opened for
  appending, so the write leaves the position at the end of the file: when nobody else has written since (its
  write is the last of the history), the thread reads nothing, sends nothing and closes the connection.\<close>

theorem file_client_gets_no_answer:
  assumes "running g y (log @ [(Connection i, p, part)])" "i < length (workers y)"
    and "w_phase (workers y ! i) = Plain (Replying fd buf)"
  shows "file_thread_step F E g r i (w_args (workers y ! i)) (Plain (Replying fd buf)) (received y)
      (stored_data y, w_pos (workers y ! i)) (owner y) (timer y) =
    Some (FGoes ((w_args (workers y ! i))\<lparr>thread_complete := True\<rparr>) (Plain Finished)
      [EvClose fd, EvClose (client_fd (w_args (workers y ! i)))] (received y) (stored_data y, w_pos (workers y ! i)) (owner y))"
proof -
  let ?w = "workers y ! i" and ?log = "log @ [(Connection i, p, part)]"
  note inv = running_invariant [OF assms(1), unfolded running_inv_def]
  have "reply_ok ?log i (w_phase ?w) (w_pos ?w)" using running_reply_ok [OF assms(1)] assms(2) by blast
  then have "behind_own ?log i (w_pos ?w)" using assms(3) by (simp add: reply_ok_def)
  then obtain pre q qpart post where b: "?log = pre @ (Connection i, q, qpart) # post"
    "length (written_bytes pre) + length qpart \<le> w_pos ?w"
    by (auto simp: behind_own_def)
  have "Connection i \<notin> fst ` set log" using inv by (auto simp: packets_def)
  then have "pre = log \<and> qpart = part \<and> post = []"
    using b(1) by (cases post rule: rev_cases) (auto simp: image_iff)
  then have "length (stored_data y) \<le> w_pos ?w" using b(2) inv by simp
  then have "drop (w_pos ?w) (stored_data y) = []" by simp
  then show ?thesis
    by (simp add: file_thread_step_def thread_step_def file_ops_def send_pass_def file_read_def)
qed

theorem file_client_gets_no_answer_witness:
  "file_thread_step demo_file demo_memory \<lparr>server_socket = 0, client_socket = 0\<rparr> RecvClosed 0
      \<lparr>thread_id = 1, client_fd = 5, thread_complete = False\<rparr> (Plain (Replying 3 (replicate BUFFER_SIZE 0))) 3 ([104, 105, 10], 3) None
      (Some TimeCheck) =
    Some (FGoes \<lparr>thread_id = 1, client_fd = 5, thread_complete = True\<rparr> (Plain Finished) [EvClose 3, EvClose 5] 3 ([104, 105, 10], 3) None)"
  using file_client_gets_no_answer [of "\<lparr>server_socket = 0, client_socket = 0\<rparr>" _ "[]", simplified,
      OF demo_client_run [of _ "\<lparr>thread_id = 1, client_fd = 5, thread_complete = False\<rparr>"], of 3 "replicate BUFFER_SIZE 0" demo_file demo_memory RecvClosed]
  by simp



end
