(* ===== verification/Systemcalls.thy ===== *)
theory Systemcalls
  imports Aesd_Prelude
begin

unbundle bit_operations_syntax

text \<open>
  The process functions of \<^verbatim>\<open>examples/systemcalls/systemcalls.c\<close>. A call may end in two processes; the
  result says how each of them ends: it returns from the function, exits, or is killed by a signal. The
  programs that \<open>execv\<close> can start are a parameter, a function of the path, the argument array and the
  open descriptors; the status \<open>waitpid\<close> stores is computed from the end of the child as the system
  documents it. \<open>None\<close> is undefined behaviour.
\<close>

section \<open>Processes\<close>

datatype proc_end = Returns bool | Exits int | Killed nat

text \<open>The files behind the open descriptors.\<close>

type_synonym fdtable = "int \<Rightarrow> string option"

record exec_env =
  e_system :: "string option \<Rightarrow> int"
  e_open :: int
  e_fork :: int
  e_dup2 :: int
  e_execv :: "string option \<Rightarrow> string option list \<Rightarrow> fdtable \<Rightarrow> proc_end option"
  e_waitpid :: int

text \<open>\<open>e_execv\<close> is \<open>None\<close> when the program cannot be started. How a process ends, as a wait status:
  the low byte of an exit status in bits 8 to 15, or the number of the signal.\<close>

fun wait_status :: "proc_end \<Rightarrow> u32" where
  "wait_status (Exits n) = push_bit 8 (word_of_int n AND 255)"
| "wait_status (Killed sig) = word_of_nat sig AND 127"
| "wait_status (Returns b) = 127"

definition WIFEXITED :: "u32 \<Rightarrow> bool" where
  "WIFEXITED w \<longleftrightarrow> w AND 127 = 0"

definition WEXITSTATUS :: "u32 \<Rightarrow> u32" where
  "WEXITSTATUS w = drop_bit 8 w AND 255"

definition EXIT_SUCCESS :: u32 where "EXIT_SUCCESS = 0"

definition SIGABRT :: nat where "SIGABRT = 6"

record call_result =
  caller :: proc_end
  child :: "proc_end option"
  caller_fds :: fdtable

section \<open>The functions\<close>

definition do_system :: "exec_env \<Rightarrow> string option \<Rightarrow> bool" where
  "do_system E cmd = (let status = e_system E cmd in if status = - 1 then False else True)"

text \<open>The argument array: \<open>count\<close> pointers taken from the variable arguments, then NULL. Taking more
  arguments than were passed, or an array of negative size, is undefined.\<close>

definition build_command :: "int \<Rightarrow> string option list \<Rightarrow> string option list option" where
  "build_command cnt args =
     (if cnt < 0 \<or> length args < nat cnt then None else Some (take (nat cnt) args @ [None]))"

text \<open>The parent's part: the result of \<open>waitpid\<close> and the status it stored.\<close>

definition parent_status :: "int \<Rightarrow> u32 \<Rightarrow> bool" where
  "parent_status status wstatus =
     (if status = - 1 then False
      else if WIFEXITED wstatus then (if WEXITSTATUS wstatus = EXIT_SUCCESS then True else False)
      else False)"

definition do_exec :: "exec_env \<Rightarrow> fdtable \<Rightarrow> int \<Rightarrow> string option list \<Rightarrow> call_result option" where
  "do_exec E fds cnt args =
     do {
       command \<leftarrow> build_command cnt args;
       let child_pid = e_fork E;
       if child_pid = - 1 then Some \<lparr>caller = Exits 1, child = None, caller_fds = fds\<rparr>
       else
         (let child_end = (case e_execv E (hd command) command fds of None \<Rightarrow> Exits 1 | Some r \<Rightarrow> r)
          in Some \<lparr>caller = Returns (parent_status (e_waitpid E) (wait_status child_end)),
                   child = Some child_end, caller_fds = fds\<rparr>)
     }"

text \<open>\<open>dup2(fd, 1)\<close> makes descriptor 1 the same file; with \<open>fd = 1\<close> it changes nothing.\<close>

definition do_exec_redirect ::
  "exec_env \<Rightarrow> fdtable \<Rightarrow> string \<Rightarrow> int \<Rightarrow> string option list \<Rightarrow> call_result option" where
  "do_exec_redirect E fds outputfile cnt args =
     do {
       command \<leftarrow> build_command cnt args;
       let fd = e_open E;
       if fd < 0 then Some \<lparr>caller = Killed SIGABRT, child = None, caller_fds = fds\<rparr>
       else
         (let fds = fds(fd \<mapsto> outputfile); kidpid = e_fork E
          in if kidpid = - 1 then Some \<lparr>caller = Killed SIGABRT, child = None, caller_fds = fds\<rparr>
             else
               (let child_end =
                  (if e_dup2 E < 0 then Killed SIGABRT
                   else (let child_fds = (fds(1 := fds fd))(fd := None)
                         in case e_execv E (hd command) command child_fds of None \<Rightarrow> Killed SIGABRT | Some r \<Rightarrow> r))
                in Some \<lparr>caller = Returns (parent_status (e_waitpid E) (wait_status child_end)),
                         child = Some child_end, caller_fds = fds(fd := None)\<rparr>))
     }"

section \<open>Wait statuses\<close>

lemma exit_byte:
  "word_of_int n AND 255 = (0 :: u32) \<longleftrightarrow> n mod 256 = 0"
proof -
  have "(word_of_int n :: u32) AND 255 = take_bit 8 (word_of_int n)"
    by (simp add: take_bit_eq_mask mask_eq_exp_minus_1)
  moreover have "uint (take_bit 8 (word_of_int n :: u32)) = n mod 256"
  proof -
    have "uint (take_bit 8 (word_of_int n :: u32)) = take_bit 8 (take_bit LENGTH(32) n)"
      by (simp only: unsigned_take_bit_eq unsigned_of_int) simp
    also have "\<dots> = take_bit 8 n" by (simp only: take_bit_take_bit) simp
    finally show ?thesis by (simp add: take_bit_eq_mod)
  qed
  ultimately show ?thesis by (metis uint_0_iff)
qed

lemma exits_status:
  "WIFEXITED (wait_status (Exits n))" "WEXITSTATUS (wait_status (Exits n)) = word_of_int n AND 255"
proof -
  have m: "(255 :: u32) = mask 8" "(127 :: u32) = mask 7" by (simp_all add: mask_eq_exp_minus_1)
  show "WIFEXITED (wait_status (Exits n))"
    unfolding WIFEXITED_def wait_status.simps m by (rule bit_word_eqI) (simp add: bit_simps)
  show "WEXITSTATUS (wait_status (Exits n)) = word_of_int n AND 255"
    unfolding WEXITSTATUS_def wait_status.simps m by (rule bit_word_eqI) (auto simp: bit_simps)
qed

lemma killed_status:
  assumes "0 < sig" "sig < 128"
  shows "\<not> WIFEXITED (wait_status (Killed sig))"
proof -
  have "unat (word_of_nat sig AND 127 :: u32) = sig"
  proof -
    have "(word_of_nat sig AND 127 :: u32) = take_bit 7 (word_of_nat sig)"
      by (simp add: take_bit_eq_mask mask_eq_exp_minus_1)
    then show ?thesis
      using assms by (simp add: unsigned_take_bit_eq unat_of_nat take_bit_nat_eq_self)
  qed
  then have "word_of_nat sig AND 127 \<noteq> (0 :: u32)" using assms(1) by (metis less_numeral_extra(3) unat_0)
  then show ?thesis by (simp add: WIFEXITED_def and.assoc)
qed

text \<open>A program that is run ends by an exit or by a signal.\<close>

definition execv_ok :: "exec_env \<Rightarrow> bool" where
  "execv_ok E \<longleftrightarrow> (\<forall>path argv fds r. e_execv E path argv fds = Some r \<longrightarrow>
     (\<exists>n. r = Exits n) \<or> (\<exists>sig. r = Killed sig \<and> 0 < sig \<and> sig < 128))"

lemma parent_status_exit: "status \<noteq> - 1 \<Longrightarrow> parent_status status (wait_status (Exits n)) \<longleftrightarrow> n mod 256 = 0"
  by (simp add: parent_status_def exits_status exit_byte EXIT_SUCCESS_def del: wait_status.simps)

lemma parent_status_killed:
  "0 < sig \<Longrightarrow> sig < 128 \<Longrightarrow> \<not> parent_status status (wait_status (Killed sig))"
  by (simp add: parent_status_def killed_status del: wait_status.simps)

lemma parent_status_iff:
  assumes "status \<noteq> - 1" "(\<exists>n. r = Exits n) \<or> (\<exists>sig. r = Killed sig \<and> 0 < sig \<and> sig < 128)"
  shows "parent_status status (wait_status r) \<longleftrightarrow> (\<exists>n. r = Exits n \<and> n mod 256 = 0)"
  using assms parent_status_exit parent_status_killed by auto

section \<open>Properties\<close>

text \<open>C30. \<open>do_exec\<close> returns true exactly when the program was started with the given path and argument
  array and exited with a status whose low byte is zero; when it cannot be started, is killed, or exits
  otherwise the result is false, and the child never returns from the call.\<close>

theorem do_exec_true_iff_succeeded:
  assumes "execv_ok E" "0 \<le> cnt" "nat cnt \<le> length args" "e_fork E \<noteq> - 1" "e_waitpid E \<noteq> - 1"
  shows "\<exists>b r. do_exec E fds cnt args = Some \<lparr>caller = Returns b, child = Some r, caller_fds = fds\<rparr> \<and>
    (\<forall>c. r \<noteq> Returns c) \<and>
    (b \<longleftrightarrow> (\<exists>n. e_execv E (hd (take (nat cnt) args @ [None])) (take (nat cnt) args @ [None]) fds = Some (Exits n) \<and>
      n mod 256 = 0))"
proof -
  let ?cmd = "take (nat cnt) args @ [None]"
  have cmd: "build_command cnt args = Some ?cmd" using assms(2,3) by (simp add: build_command_def)
  show ?thesis
  proof (cases "e_execv E (hd ?cmd) ?cmd fds")
    case None
    then show ?thesis
      using cmd assms(4,5) parent_status_exit [of "e_waitpid E" 1] by (simp add: do_exec_def Let_def del: wait_status.simps) (rule exI [of _ False], simp)
  next
    case (Some r)
    then have r: "(\<exists>n. r = Exits n) \<or> (\<exists>sig. r = Killed sig \<and> 0 < sig \<and> sig < 128)"
      using assms(1) unfolding execv_ok_def by blast
    then show ?thesis
      using cmd assms(4) Some parent_status_iff [OF assms(5) r] by (auto simp: do_exec_def Let_def simp del: wait_status.simps)
  qed
qed

text \<open>A system with one program, which exits with 0 when it gets one argument and its output is not
  closed, and with 1 otherwise.\<close>

definition demo_exec :: exec_env where
  "demo_exec = \<lparr>e_system = (\<lambda>c. 0), e_open = 3, e_fork = 100, e_dup2 = 1,
     e_execv = (\<lambda>path argv fds. if path = Some ''/bin/echo''
       then Some (Exits (if length argv = 3 \<and> fds 1 \<noteq> None then 0 else 1)) else None),
     e_waitpid = 100\<rparr>"

lemma demo_execv_ok: "execv_ok demo_exec"
  by (simp add: execv_ok_def demo_exec_def)

theorem do_exec_true_iff_succeeded_witness:
  "do_exec demo_exec [1 \<mapsto> ''tty''] 2 [Some ''/bin/echo'', Some ''hi''] =
     Some \<lparr>caller = Returns True, child = Some (Exits 0), caller_fds = [1 \<mapsto> ''tty'']\<rparr> \<and>
   (\<exists>r. do_exec demo_exec Map.empty 1 [Some ''echo''] = Some \<lparr>caller = Returns False, child = Some r, caller_fds = Map.empty\<rparr>)"
proof -
  have "e_fork demo_exec \<noteq> - 1" "e_waitpid demo_exec \<noteq> - 1" by (simp_all add: demo_exec_def)
  note run = do_exec_true_iff_succeeded [OF demo_execv_ok _ _ this]
  have e1: "e_execv demo_exec (Some ''/bin/echo'') [Some ''/bin/echo'', Some ''hi'', None] [1 \<mapsto> ''tty''] = Some (Exits 0)"
    by (simp add: demo_exec_def)
  have e2: "e_execv demo_exec (Some ''echo'') [Some ''echo'', None] Map.empty = None"
    by (simp add: demo_exec_def)
  have "do_exec demo_exec [1 \<mapsto> ''tty''] 2 [Some ''/bin/echo'', Some ''hi''] =
     Some \<lparr>caller = Returns True, child = Some (Exits 0), caller_fds = [1 \<mapsto> ''tty'']\<rparr>"
    using run [of 2 "[Some ''/bin/echo'', Some ''hi'']" "[1 \<mapsto> ''tty'']"] e1
    by (auto simp: numeral_2_eq_2 do_exec_def build_command_def Let_def demo_exec_def simp del: wait_status.simps)
  then show ?thesis
    using run [of 1 "[Some ''echo'']" Map.empty] e2 by auto
qed

text \<open>C38. When the file can be opened, \<open>do_exec_redirect\<close> runs the program with standard output on the new file and with no
  other descriptor for that file, provided the file was opened on a descriptor other than 1. On descriptor 1 (the
  caller's standard output was closed) \<open>dup2\<close> changes nothing and the \<open>close\<close> behind it closes the new
  file, so the program runs with standard output closed. In both cases the caller's descriptors are as
  before, and the result is true exactly when the program exits with a zero low byte.\<close>

theorem do_exec_redirect_runs_on_file:
  assumes "execv_ok E" "0 \<le> cnt" "nat cnt \<le> length args" "e_fork E \<noteq> - 1" "e_waitpid E \<noteq> - 1"
    and "0 \<le> e_open E" "fds (e_open E) = None" "0 \<le> e_dup2 E"
  shows "\<exists>b r. do_exec_redirect E fds outputfile cnt args =
      Some \<lparr>caller = Returns b, child = Some r, caller_fds = fds\<rparr> \<and>
    (b \<longleftrightarrow> (\<exists>n. e_execv E (hd (take (nat cnt) args @ [None])) (take (nat cnt) args @ [None])
        (if e_open E = 1 then fds(1 := None) else fds(1 \<mapsto> outputfile)) = Some (Exits n) \<and> n mod 256 = 0))"
proof -
  let ?cmd = "take (nat cnt) args @ [None]"
  let ?fds = "if e_open E = 1 then fds(1 := None) else fds(1 \<mapsto> outputfile)"
  have cmd: "build_command cnt args = Some ?cmd" using assms(2,3) by (simp add: build_command_def)
  have kid: "((fds(e_open E \<mapsto> outputfile))(1 := (fds(e_open E \<mapsto> outputfile)) (e_open E)))(e_open E := None) = ?fds"
    using assms(7) by (auto simp: fun_eq_iff)
  have own: "(fds(e_open E \<mapsto> outputfile))(e_open E := None) = fds"
    using assms(7) by (auto simp: fun_eq_iff)
  show ?thesis
  proof (cases "e_execv E (hd ?cmd) ?cmd ?fds")
    case None
    then show ?thesis
      using cmd assms(4-6,8) parent_status_killed [of SIGABRT "e_waitpid E"] kid own
      by (simp add: do_exec_redirect_def Let_def SIGABRT_def del: wait_status.simps fun_upd_apply fun_upd_upd)
        (rule exI [of _ False], simp)
  next
    case (Some r)
    then have r: "(\<exists>n. r = Exits n) \<or> (\<exists>sig. r = Killed sig \<and> 0 < sig \<and> sig < 128)"
      using assms(1) unfolding execv_ok_def by blast
    then show ?thesis
      using cmd assms(4,6,8) Some parent_status_iff [OF assms(5) r] kid own
      by (simp add: do_exec_redirect_def Let_def del: wait_status.simps fun_upd_apply fun_upd_upd)
  qed
qed

theorem do_exec_redirect_runs_on_file_witness:
  "\<exists>b r. do_exec_redirect demo_exec [1 \<mapsto> ''tty''] ''out.txt'' 2 [Some ''/bin/echo'', Some ''hi''] =
     Some \<lparr>caller = Returns b, child = Some r, caller_fds = [1 \<mapsto> ''tty'']\<rparr> \<and> b"
proof -
  have "e_fork demo_exec \<noteq> - 1" "e_waitpid demo_exec \<noteq> - 1" "0 \<le> e_open demo_exec" "0 \<le> e_dup2 demo_exec"
    "[1 \<mapsto> ''tty''] (e_open demo_exec) = None" "e_open demo_exec \<noteq> 1"
    "e_execv demo_exec (Some ''/bin/echo'') [Some ''/bin/echo'', Some ''hi'', None] ([1 \<mapsto> ''tty''](1 \<mapsto> ''out.txt'')) = Some (Exits 0)"
    by (simp_all add: demo_exec_def)
  then show ?thesis
    using do_exec_redirect_runs_on_file [OF demo_execv_ok, of 2 "[Some ''/bin/echo'', Some ''hi'']" "[1 \<mapsto> ''tty'']" "''out.txt''"]
    by auto
qed

end
