(* ===== verification/Threading.thy ===== *)
theory Threading
  imports Aesd_Prelude
begin

text \<open>
  The mutex exercise of \<^verbatim>\<open>examples/threading\<close>: \<open>start_thread_obtaining_mutex\<close> starts a thread that
  sleeps, takes a mutex, sleeps while holding it, and releases it. The body \<open>threadfunc\<close> is a state
  machine with one transition per call that other threads can observe; any number of threads over any
  mutexes run interleaved. The results of the library calls are nondeterministic within their
  documentation. A sleep time whose product with 1000 leaves \<open>int\<close> is undefined behaviour and a
  state of its own.
\<close>

section \<open>State\<close>

record mutex_thread_data =
  mutex :: ptr
  wait_to_obtain_ms :: int
  wait_to_release_ms :: int
  thread_complete_success :: bool

datatype phase = Starting | Locking | Holding | Unlocking | Finished | Undefined

text \<open>The phases in program order.\<close>

fun rank :: "phase \<Rightarrow> nat" where
  "rank Starting = 0"
| "rank Locking = 1"
| "rank Holding = 2"
| "rank Unlocking = 3"
| "rank Finished = 4"
| "rank Undefined = 5"

lemma rank_inj: "rank a = rank b \<Longrightarrow> a = b"
  by (cases a; cases b) simp_all

instantiation phase :: linorder
begin

definition less_eq_phase :: "phase \<Rightarrow> phase \<Rightarrow> bool" where
  "less_eq_phase a b \<longleftrightarrow> rank a \<le> rank b"

definition less_phase :: "phase \<Rightarrow> phase \<Rightarrow> bool" where
  "less_phase a b \<longleftrightarrow> rank a < rank b"

instance
  by standard (auto simp: less_eq_phase_def less_phase_def intro: rank_inj)

end

text \<open>A thread has its data block, its phase, and the pointer it exits with (0 is NULL).\<close>

record mthread =
  data_ptr :: ptr
  phase_of :: phase
  retval :: ptr

record msys =
  owner :: "ptr \<Rightarrow> nat option"
  data_heap :: "ptr \<Rightarrow> mutex_thread_data option"
  mthreads :: "nat \<Rightarrow> mthread option"

definition usleep_defined :: "int \<Rightarrow> bool" where
  "usleep_defined ms \<longleftrightarrow> - 2147483648 \<le> ms * 1000 \<and> ms * 1000 \<le> 2147483647"

definition set_thread :: "nat \<Rightarrow> mthread \<Rightarrow> msys \<Rightarrow> msys" where
  "set_thread t th s = s\<lparr>mthreads := (mthreads s)(t \<mapsto> th)\<rparr>"

definition set_success :: "ptr \<Rightarrow> bool \<Rightarrow> msys \<Rightarrow> msys" where
  "set_success p b s = s\<lparr>data_heap := (data_heap s)(p := map_option (\<lambda>d. d\<lparr>thread_complete_success := b\<rparr>) (data_heap s p))\<rparr>"

section \<open>Starting a thread\<close>

text \<open>The address \<open>malloc\<close> returns with the block's indeterminate contents, and the result of
  \<open>pthread_create\<close>: the new thread's number, or none.\<close>

definition start_thread_obtaining_mutex ::
  "ptr \<Rightarrow> mutex_thread_data \<Rightarrow> nat option \<Rightarrow> ptr \<Rightarrow> int \<Rightarrow> int \<Rightarrow> msys \<Rightarrow> bool \<times> msys" where
  "start_thread_obtaining_mutex malloc_result contents created m obtain_ms release_ms s =
     (if malloc_result = 0 then (False, s)
      else
        (let data = contents\<lparr>mutex := m, wait_to_obtain_ms := obtain_ms, wait_to_release_ms := release_ms\<rparr>;
             s = s\<lparr>data_heap := (data_heap s)(malloc_result \<mapsto> data)\<rparr>
         in case created of
              None \<Rightarrow> (False, s\<lparr>data_heap := (data_heap s)(malloc_result := None)\<rparr>)
            | Some t \<Rightarrow> (True, set_thread t \<lparr>data_ptr = malloc_result, phase_of = Starting, retval = 0\<rparr> s)))"

section \<open>The thread's body\<close>

text \<open>The thread exits with the pointer \<open>p\<close> after storing its success flag.\<close>

definition finish :: "nat \<Rightarrow> mthread \<Rightarrow> bool \<Rightarrow> msys \<Rightarrow> msys" where
  "finish t th ok s =
     set_thread t (th\<lparr>phase_of := Finished, retval := (if ok then data_ptr th else 0)\<rparr>) (set_success (data_ptr th) ok s)"

inductive threadfunc_step :: "msys \<Rightarrow> nat \<Rightarrow> msys \<Rightarrow> bool" where
  sleep_before: "mthreads s t = Some th \<Longrightarrow> phase_of th = Starting \<Longrightarrow> data_heap s (data_ptr th) = Some d \<Longrightarrow>
    threadfunc_step s t (set_thread t (th\<lparr>phase_of := (if usleep_defined (wait_to_obtain_ms d) then Locking else Undefined)\<rparr>) s)"
| lock: "mthreads s t = Some th \<Longrightarrow> phase_of th = Locking \<Longrightarrow> data_heap s (data_ptr th) = Some d \<Longrightarrow>
    owner s (mutex d) = None \<Longrightarrow>
    threadfunc_step s t (set_thread t (th\<lparr>phase_of := Holding\<rparr>) (s\<lparr>owner := (owner s)(mutex d \<mapsto> t)\<rparr>))"
| lock_error: "mthreads s t = Some th \<Longrightarrow> phase_of th = Locking \<Longrightarrow>
    threadfunc_step s t (finish t th False s)"
| sleep_holding: "mthreads s t = Some th \<Longrightarrow> phase_of th = Holding \<Longrightarrow> data_heap s (data_ptr th) = Some d \<Longrightarrow>
    threadfunc_step s t (set_thread t (th\<lparr>phase_of := (if usleep_defined (wait_to_release_ms d) then Unlocking else Undefined)\<rparr>) s)"
| unlock: "mthreads s t = Some th \<Longrightarrow> phase_of th = Unlocking \<Longrightarrow> data_heap s (data_ptr th) = Some d \<Longrightarrow>
    owner s (mutex d) = Some t \<Longrightarrow>
    threadfunc_step s t (finish t th True (s\<lparr>owner := (owner s)(mutex d := None)\<rparr>))"
| unlock_error: "mthreads s t = Some th \<Longrightarrow> phase_of th = Unlocking \<Longrightarrow> data_heap s (data_ptr th) = Some d \<Longrightarrow>
    owner s (mutex d) \<noteq> Some t \<Longrightarrow>
    threadfunc_step s t (finish t th False s)"

inductive_cases threadfunc_step_elim: "threadfunc_step s t s'"

section \<open>Programs\<close>

inductive mreach :: "msys \<Rightarrow> bool" where
  none_started: "mreach \<lparr>owner = Map.empty, data_heap = Map.empty, mthreads = Map.empty\<rparr>"
| start: "mreach s \<Longrightarrow> data_heap s p = None \<Longrightarrow> (\<forall>t. created = Some t \<longrightarrow> mthreads s t = None) \<Longrightarrow>
    start_thread_obtaining_mutex p contents created m obtain_ms release_ms s = (r, s') \<Longrightarrow> mreach s'"
| run: "mreach s \<Longrightarrow> threadfunc_step s t s' \<Longrightarrow> mreach s'"

text \<open>The invariant: every thread has its own data block; a thread in the phases between lock and
  unlock owns its mutex, and a mutex is owned only by such a thread, or by one stopped by the overflow
  of its sleep time; a finished thread exits with its data exactly when the success flag is set.\<close>

definition thread_ok :: "msys \<Rightarrow> nat \<Rightarrow> mthread \<Rightarrow> bool" where
  "thread_ok s t th \<longleftrightarrow>
     (case data_heap s (data_ptr th) of
        None \<Rightarrow> False
      | Some d \<Rightarrow>
          data_ptr th \<noteq> 0 \<and>
          (phase_of th \<in> {Holding, Unlocking} \<longrightarrow> owner s (mutex d) = Some t) \<and>
          (phase_of th \<in> {Starting, Locking, Finished} \<longrightarrow> (\<forall>m. owner s m \<noteq> Some t)) \<and>
          (phase_of th \<notin> {Starting, Locking, Finished} \<longrightarrow> (\<forall>m. owner s m = Some t \<longrightarrow> m = mutex d)) \<and>
          (phase_of th = Finished \<longrightarrow> retval th = (if thread_complete_success d then data_ptr th else 0)))"

definition msys_inv :: "msys \<Rightarrow> bool" where
  "msys_inv s \<longleftrightarrow>
     (\<forall>t th. mthreads s t = Some th \<longrightarrow> thread_ok s t th) \<and>
     (\<forall>t t' th th'. mthreads s t = Some th \<longrightarrow> mthreads s t' = Some th' \<longrightarrow> data_ptr th = data_ptr th' \<longrightarrow> t = t') \<and>
     (\<forall>m t. owner s m = Some t \<longrightarrow> mthreads s t \<noteq> None)"


section \<open>The invariant holds in every run\<close>

named_theorems msys_simps \<open>rewriting of updates of the thread system\<close>

lemmas [msys_simps] = set_thread_def set_success_def finish_def

lemma msys_inv_thread: "msys_inv s \<Longrightarrow> mthreads s t = Some th \<Longrightarrow> thread_ok s t th"
  by (simp add: msys_inv_def)

lemma thread_okE:
  assumes "thread_ok s t th"
  obtains d where "data_heap s (data_ptr th) = Some d" "data_ptr th \<noteq> 0"
    "phase_of th \<in> {Holding, Unlocking} \<Longrightarrow> owner s (mutex d) = Some t"
    "phase_of th \<in> {Starting, Locking, Finished} \<Longrightarrow> \<forall>m. owner s m \<noteq> Some t"
    "phase_of th \<notin> {Starting, Locking, Finished} \<Longrightarrow> \<forall>m. owner s m = Some t \<longrightarrow> m = mutex d"
    "phase_of th = Finished \<Longrightarrow> retval th = (if thread_complete_success d then data_ptr th else 0)"
  using assms by (auto simp: thread_ok_def split: option.splits)

lemma thread_ok_frame:
  assumes "data_heap s' (data_ptr th) = data_heap s (data_ptr th)"
    and "\<forall>m. owner s' m = Some t \<longleftrightarrow> owner s m = Some t"
  shows "thread_ok s' t th \<longleftrightarrow> thread_ok s t th"
  using assms(2) unfolding thread_ok_def assms(1) by (cases "data_heap s (data_ptr th)") auto

text \<open>A step of one thread: its own record must be sound afterwards, and the step must leave the
  data blocks of the others and their mutexes alone.\<close>

lemma msys_inv_step:
  assumes inv: "msys_inv s" and th: "mthreads s t = Some th"
    and th': "mthreads s' = (mthreads s)(t \<mapsto> th')" "data_ptr th' = data_ptr th" "thread_ok s' t th'"
    and frame: "\<forall>p. p \<noteq> data_ptr th \<longrightarrow> data_heap s' p = data_heap s p"
    and own: "\<forall>m t'. t' \<noteq> t \<longrightarrow> (owner s' m = Some t' \<longleftrightarrow> owner s m = Some t')"
  shows "msys_inv s'"
  unfolding msys_inv_def
proof (intro conjI allI impI)
  fix u uh
  assume u: "mthreads s' u = Some uh"
  show "thread_ok s' u uh"
  proof (cases "u = t")
    case True
    then show ?thesis using u th' by simp
  next
    case False
    then have uh: "mthreads s u = Some uh" using u th' by simp
    then have "data_ptr uh \<noteq> data_ptr th" using inv th False by (auto simp: msys_inv_def)
    moreover have "thread_ok s u uh" using inv uh by (rule msys_inv_thread)
    ultimately show ?thesis using frame own False by (subst thread_ok_frame) auto
  qed
next
  fix u v uh vh
  assume "mthreads s' u = Some uh" "mthreads s' v = Some vh" "data_ptr uh = data_ptr vh"
  then show "u = v" using inv th th'(1,2) unfolding msys_inv_def by (metis fun_upd_apply option.inject)
next
  fix m u
  assume "owner s' m = Some u"
  then show "mthreads s' u \<noteq> None" using inv own th'(1) by (cases "u = t") (auto simp: msys_inv_def)
qed

lemma msys_inv_set_phase:
  assumes inv: "msys_inv s" and th: "mthreads s t = Some th"
    and ok: "thread_ok s t (th\<lparr>phase_of := ph\<rparr>)"
  shows "msys_inv (set_thread t (th\<lparr>phase_of := ph\<rparr>) s)"
  by (rule msys_inv_step [OF inv th, where th' = "th\<lparr>phase_of := ph\<rparr>"])
    (use ok in \<open>simp_all add: set_thread_def thread_ok_frame [of "set_thread _ _ _", unfolded set_thread_def]\<close>)

lemma msys_inv_finish:
  assumes inv: "msys_inv s" and th: "mthreads s t = Some th" and p: "thread_ok s t th"
    and none: "\<forall>m. own m \<noteq> Some t"
    and own: "\<forall>m t'. t' \<noteq> t \<longrightarrow> (own m = Some t' \<longleftrightarrow> owner s m = Some t')"
  shows "msys_inv (finish t th ok (s\<lparr>owner := own\<rparr>))"
proof (rule msys_inv_step [OF inv th, where th' = "th\<lparr>phase_of := Finished, retval := (if ok then data_ptr th else 0)\<rparr>"])
  show "thread_ok (finish t th ok (s\<lparr>owner := own\<rparr>)) t
    (th\<lparr>phase_of := Finished, retval := if ok then data_ptr th else 0\<rparr>)"
    using none by (rule_tac thread_okE [OF p]) (simp add: msys_simps thread_ok_def)
qed (use own in \<open>simp_all add: msys_simps\<close>)

lemma threadfunc_step_inv:
  assumes "threadfunc_step s t s'" "msys_inv s"
  shows "msys_inv s'"
  using assms
proof (cases rule: threadfunc_step.cases)
  case (sleep_before th d)
  have ok: "thread_ok s t th" using assms(2) sleep_before(2) by (rule msys_inv_thread)
  show ?thesis unfolding sleep_before(1)
    by (rule msys_inv_set_phase [OF assms(2) sleep_before(2)])
      (use ok sleep_before in \<open>simp add: thread_ok_def\<close>)
next
  case (lock th d)
  have ok: "thread_ok s t th" using assms(2) lock(2) by (rule msys_inv_thread)
  show ?thesis unfolding lock(1)
    by (rule msys_inv_step [OF assms(2) lock(2), where th' = "th\<lparr>phase_of := Holding\<rparr>"])
      (use ok lock in \<open>simp_all add: set_thread_def thread_ok_def\<close>)
next
  case (lock_error th)
  have ok: "thread_ok s t th" using assms(2) lock_error(2) by (rule msys_inv_thread)
  have "msys_inv (finish t th False (s\<lparr>owner := owner s\<rparr>))"
    by (rule msys_inv_finish [OF assms(2) lock_error(2) ok]) (use ok lock_error in \<open>auto elim: thread_okE\<close>)
  then show ?thesis unfolding lock_error(1) by simp
next
  case (sleep_holding th d)
  have ok: "thread_ok s t th" using assms(2) sleep_holding(2) by (rule msys_inv_thread)
  show ?thesis unfolding sleep_holding(1)
    by (rule msys_inv_set_phase [OF assms(2) sleep_holding(2)])
      (use ok sleep_holding in \<open>simp add: thread_ok_def\<close>)
next
  case (unlock th d)
  have ok: "thread_ok s t th" using assms(2) unlock(2) by (rule msys_inv_thread)
  have only: "\<forall>m. owner s m = Some t \<longrightarrow> m = mutex d"
    using ok unlock(3,4) by (simp add: thread_ok_def)
  have "\<forall>m. ((owner s)(mutex d := None)) m \<noteq> Some t"
    using only by (metis fun_upd_apply option.distinct(1))
  moreover have "\<forall>m t'. t' \<noteq> t \<longrightarrow> (((owner s)(mutex d := None)) m = Some t' \<longleftrightarrow> owner s m = Some t')"
    using unlock(5) by simp
  ultimately show ?thesis unfolding unlock(1)
    by (rule msys_inv_finish [OF assms(2) unlock(2) ok])
next
  case (unlock_error th d)
  have "thread_ok s t th" using assms(2) unlock_error(2) by (rule msys_inv_thread)
  then show ?thesis using unlock_error by (simp add: thread_ok_def)
qed

lemma start_thread_inv:
  assumes inv: "msys_inv s" and fresh: "data_heap s p = None"
    and new: "\<forall>t. created = Some t \<longrightarrow> mthreads s t = None"
    and st: "start_thread_obtaining_mutex p contents created m obtain_ms release_ms s = (r, s')"
  shows "msys_inv s'"
proof (cases "p = 0 \<or> created = None")
  case True
  then have "s' = s" using st fresh
    by (auto simp: start_thread_obtaining_mutex_def Let_def fun_upd_idem split: if_splits)
  then show ?thesis using inv by simp
next
  case False
  then obtain t where t: "created = Some t" "mthreads s t = None" using new by auto
  have others: "data_ptr uh \<noteq> p" if "mthreads s u = Some uh" for u uh
    using msys_inv_thread [OF inv that] fresh by (auto simp: thread_ok_def)
  have free: "owner s m' \<noteq> Some t" for m' using inv t(2) unfolding msys_inv_def by blast
  let ?data = "contents\<lparr>mutex := m, wait_to_obtain_ms := obtain_ms, wait_to_release_ms := release_ms\<rparr>"
  have s': "mthreads s' = (mthreads s)(t \<mapsto> \<lparr>data_ptr = p, phase_of = Starting, retval = 0\<rparr>)"
    "data_heap s' = (data_heap s)(p \<mapsto> ?data)" "owner s' = owner s"
    using st False t by (auto simp: start_thread_obtaining_mutex_def Let_def set_thread_def)
  have old: "thread_ok s' u uh" if "mthreads s u = Some uh" for u uh
    using msys_inv_thread [OF inv that] others [OF that] s' by (subst thread_ok_frame) auto
  have new: "thread_ok s' t \<lparr>data_ptr = p, phase_of = Starting, retval = 0\<rparr>"
    using free False s' by (simp add: thread_ok_def)
  show ?thesis
    unfolding msys_inv_def s'(1,3)
  proof (intro conjI allI impI)
    fix u uh
    assume "((mthreads s)(t \<mapsto> \<lparr>data_ptr = p, phase_of = Starting, retval = 0\<rparr>)) u = Some uh"
    then show "thread_ok s' u uh" using old new by (auto split: if_splits)
  next
    fix u v uh vh
    assume "((mthreads s)(t \<mapsto> \<lparr>data_ptr = p, phase_of = Starting, retval = 0\<rparr>)) u = Some uh"
      "((mthreads s)(t \<mapsto> \<lparr>data_ptr = p, phase_of = Starting, retval = 0\<rparr>)) v = Some vh"
      "data_ptr uh = data_ptr vh"
    then show "u = v" using inv unfolding msys_inv_def by (auto split: if_splits dest: others)
  next
    fix k u
    assume "owner s k = Some u"
    then show "((mthreads s)(t \<mapsto> \<lparr>data_ptr = p, phase_of = Starting, retval = 0\<rparr>)) u \<noteq> None"
      using inv by (auto simp: msys_inv_def)
  qed
qed

lemma mreach_inv: "mreach s \<Longrightarrow> msys_inv s"
proof (induction rule: mreach.induct)
  case none_started
  show ?case by (simp add: msys_inv_def)
next
  case (start s p created contents m obtain_ms release_ms r s')
  then show ?case by (auto intro: start_thread_inv)
next
  case (run s t s')
  then show ?case by (auto intro: threadfunc_step_inv)
qed

lemma mreach_thread:
  "mreach s \<Longrightarrow> mthreads s t = Some th \<Longrightarrow> thread_ok s t th"
  by (simp add: mreach_inv msys_inv_thread)

section \<open>Progress and the length of runs\<close>

text \<open>What remains to be done: the steps each thread still has before it.\<close>

definition remaining :: "msys \<Rightarrow> nat \<Rightarrow> nat" where
  "remaining s t = (case mthreads s t of None \<Rightarrow> 0 | Some th \<Rightarrow> 4 - rank (phase_of th))"

definition work :: "msys \<Rightarrow> nat" where
  "work s = sum (remaining s) (dom (mthreads s))"

definition some_step :: "msys \<Rightarrow> msys \<Rightarrow> bool" where
  "some_step s s' \<longleftrightarrow> (\<exists>t. threadfunc_step s t s')"

text \<open>A step moves one thread to a later phase and changes no other thread.\<close>

lemma threadfunc_step_phase:
  assumes "threadfunc_step s t s'"
  shows "\<exists>th th'. mthreads s t = Some th \<and> mthreads s' = (mthreads s)(t \<mapsto> th') \<and>
    phase_of th < phase_of th' \<and> phase_of th < Finished \<and> data_ptr th' = data_ptr th"
  using assms by (cases rule: threadfunc_step.cases) (auto simp: msys_simps less_phase_def)

lemma some_step_work:
  assumes "some_step s s'" "finite (dom (mthreads s))"
  shows "dom (mthreads s') = dom (mthreads s) \<and> work s' < work s"
proof -
  obtain t th th' where st: "mthreads s t = Some th" "mthreads s' = (mthreads s)(t \<mapsto> th')"
    "phase_of th < phase_of th'" "phase_of th < Finished"
    using assms(1) threadfunc_step_phase unfolding some_step_def by metis
  have dom: "dom (mthreads s') = dom (mthreads s)" using st by auto
  have "remaining s' t < remaining s t"
    using st by (simp add: remaining_def less_phase_def)
  moreover have "remaining s' u = remaining s u" if "u \<noteq> t" for u
    using st that by (simp add: remaining_def)
  ultimately have "sum (remaining s') (dom (mthreads s)) < sum (remaining s) (dom (mthreads s))"
    using st(1) assms(2) by (intro sum_strict_mono_ex1) (auto, metis le_refl less_imp_le)
  then show ?thesis using dom by (simp add: work_def)
qed

lemma run_work:
  "(some_step ^^ n) s s' \<Longrightarrow> finite (dom (mthreads s)) \<Longrightarrow> n + work s' \<le> work s"
proof (induction n arbitrary: s)
  case (Suc n)
  obtain m where m: "some_step s m" "(some_step ^^ n) m s'"
    using Suc.prems(1) by (metis relpowp_Suc_D2)
  have "dom (mthreads m) = dom (mthreads s) \<and> work m < work s"
    using m(1) Suc.prems(2) by (rule some_step_work)
  moreover from this have "n + work s' \<le> work m" using Suc.IH m(2) Suc.prems(2) by simp
  ultimately show ?case by simp
qed simp

lemma work_bound: "work s \<le> 4 * card (dom (mthreads s))"
proof -
  have "work s \<le> of_nat (card (dom (mthreads s))) * 4"
    unfolding work_def by (rule sum_bounded_above) (simp add: remaining_def split: option.splits)
  then show ?thesis by simp
qed

lemma mreach_finite: "mreach s \<Longrightarrow> finite (dom (mthreads s))"
proof (induction rule: mreach.induct)
  case (start s p created contents m obtain_ms release_ms r s')
  show ?case
  proof (cases "p = 0 \<or> created = None")
    case True
    then have "mthreads s' = mthreads s"
      using start.hyps(4) by (auto simp: start_thread_obtaining_mutex_def Let_def split: if_splits)
    then show ?thesis using start.IH by simp
  next
    case False
    then obtain t where t: "created = Some t" by auto
    have s': "mthreads s' = (mthreads s)(t \<mapsto> \<lparr>data_ptr = p, phase_of = Starting, retval = 0\<rparr>)"
      using start.hyps(4) t False by (auto simp: start_thread_obtaining_mutex_def Let_def set_thread_def)
    show ?thesis using start.IH unfolding s' dom_fun_upd by (simp del: fun_upd_apply)
  qed
next
  case (run s t s')
  then show ?case using some_step_work unfolding some_step_def by metis
qed simp

text \<open>The sleep times of a thread are in range.\<close>

definition sleeps_ok :: "msys \<Rightarrow> bool" where
  "sleeps_ok s \<longleftrightarrow> (\<forall>t th d. mthreads s t = Some th \<longrightarrow> data_heap s (data_ptr th) = Some d \<longrightarrow>
     usleep_defined (wait_to_obtain_ms d) \<and> usleep_defined (wait_to_release_ms d) \<and> phase_of th \<noteq> Undefined)"

text \<open>One step of a thread that does not fail.\<close>

definition good_step :: "msys \<Rightarrow> nat \<Rightarrow> msys \<Rightarrow> bool" where
  "good_step s t s' \<longleftrightarrow> threadfunc_step s t s' \<and> sleeps_ok s' \<and>
     (\<forall>th'. mthreads s' t = Some th' \<longrightarrow> phase_of th' = Finished \<longrightarrow> retval th' = data_ptr th')"

lemma sleeps_ok_update:
  assumes "sleeps_ok s" "mthreads s t = Some th" "mthreads s' = (mthreads s)(t \<mapsto> th')"
    "data_ptr th' = data_ptr th" "phase_of th' \<noteq> Undefined"
    "\<forall>p d'. data_heap s' p = Some d' \<longrightarrow> (\<exists>d. data_heap s p = Some d \<and>
       wait_to_obtain_ms d' = wait_to_obtain_ms d \<and> wait_to_release_ms d' = wait_to_release_ms d)"
  shows "sleeps_ok s'"
  unfolding sleeps_ok_def
proof (intro allI impI)
  fix u uh d'
  assume u: "mthreads s' u = Some uh" and d': "data_heap s' (data_ptr uh) = Some d'"
  from d' assms(6) obtain d where d: "data_heap s (data_ptr uh) = Some d"
    "wait_to_obtain_ms d' = wait_to_obtain_ms d" "wait_to_release_ms d' = wait_to_release_ms d" by blast
  show "usleep_defined (wait_to_obtain_ms d') \<and> usleep_defined (wait_to_release_ms d') \<and> phase_of uh \<noteq> Undefined"
  proof (cases "u = t")
    case True
    then have "uh = th'" using u assms(3) by simp
    then show ?thesis using d assms(1,2,4,5) unfolding sleeps_ok_def by auto
  next
    case False
    then have "mthreads s u = Some uh" using u assms(3) by simp
    then show ?thesis using d assms(1) unfolding sleeps_ok_def by auto
  qed
qed

text \<open>A thread between its phases, other than one that waits for a mutex, can go on.\<close>

lemma unblocked_step:
  assumes inv: "msys_inv s" and sl: "sleeps_ok s" and th: "mthreads s t = Some th"
    and ph: "phase_of th < Finished"
    and free: "phase_of th = Locking \<Longrightarrow>
      (\<forall>d. data_heap s (data_ptr th) = Some d \<longrightarrow> owner s (mutex d) = None)"
  shows "\<exists>s'. good_step s t s'"
proof -
  have "thread_ok s t th" using inv th by (rule msys_inv_thread)
  then obtain d where d: "data_heap s (data_ptr th) = Some d"
    "phase_of th \<in> {Holding, Unlocking} \<Longrightarrow> owner s (mutex d) = Some t"
    by (auto simp: thread_ok_def split: option.splits)
  have us: "usleep_defined (wait_to_obtain_ms d)" "usleep_defined (wait_to_release_ms d)"
    using sl th d(1) by (auto simp: sleeps_ok_def)
  note upd = sleeps_ok_update [OF sl th]
  show ?thesis
  proof (cases "phase_of th")
    case Starting
    have "good_step s t (set_thread t (th\<lparr>phase_of := Locking\<rparr>) s)"
      using sleep_before [OF th Starting d(1)] us unfolding good_step_def
      by (auto simp: set_thread_def intro!: upd [where th' = "th\<lparr>phase_of := Locking\<rparr>"])
    then show ?thesis ..
  next
    case Locking
    have "good_step s t (set_thread t (th\<lparr>phase_of := Holding\<rparr>) (s\<lparr>owner := (owner s)(mutex d \<mapsto> t)\<rparr>))"
      using lock [OF th Locking d(1)] free [OF Locking] d(1) unfolding good_step_def
      by (auto simp: set_thread_def intro!: upd [where th' = "th\<lparr>phase_of := Holding\<rparr>"])
    then show ?thesis ..
  next
    case Holding
    have "good_step s t (set_thread t (th\<lparr>phase_of := Unlocking\<rparr>) s)"
      using sleep_holding [OF th Holding d(1)] us unfolding good_step_def
      by (auto simp: set_thread_def intro!: upd [where th' = "th\<lparr>phase_of := Unlocking\<rparr>"])
    then show ?thesis ..
  next
    case Unlocking
    have "good_step s t (finish t th True (s\<lparr>owner := (owner s)(mutex d := None)\<rparr>))"
      using unlock [OF th Unlocking d(1)] d(2) Unlocking unfolding good_step_def
      by (auto simp: msys_simps intro!: upd [where th' = "th\<lparr>phase_of := Finished, retval := data_ptr th\<rparr>"] split: if_splits)
    then show ?thesis ..
  qed (use ph in \<open>simp_all add: less_phase_def\<close>)
qed

lemma sleeps_ok_defined:
  assumes "msys_inv s" "sleeps_ok s" "mthreads s t = Some th"
  shows "phase_of th \<noteq> Undefined"
proof -
  have "\<exists>d. data_heap s (data_ptr th) = Some d"
    using msys_inv_thread [OF assms(1,3)] by (elim thread_okE) blast
  then show ?thesis using assms(2,3) unfolding sleeps_ok_def by blast
qed

text \<open>Some thread can always go on: the one that holds the mutex another waits for.\<close>

lemma progress:
  assumes inv: "msys_inv s" and sl: "sleeps_ok s" and th: "mthreads s t = Some th" "phase_of th < Finished"
  shows "\<exists>u s'. good_step s u s'"
proof (cases "\<exists>d u. phase_of th = Locking \<and> data_heap s (data_ptr th) = Some d \<and> owner s (mutex d) = Some u")
  case False
  then show ?thesis using unblocked_step [OF inv sl th] by auto
next
  case True
  then obtain m u where u: "owner s m = Some u" by blast
  then obtain uh where uh: "mthreads s u = Some uh" using inv unfolding msys_inv_def by blast
  then have ok: "thread_ok s u uh" using inv by (simp add: msys_inv_thread)
  have "phase_of uh \<notin> {Starting, Locking, Finished}" using ok u by (elim thread_okE) blast
  moreover have "phase_of uh \<noteq> Undefined" using inv sl uh by (rule sleeps_ok_defined)
  ultimately have "phase_of uh < Finished" "phase_of uh \<noteq> Locking"
    by (cases "phase_of uh"; simp add: less_phase_def)+
  then show ?thesis using unblocked_step [OF inv sl uh] by auto
qed

text \<open>So all threads can be brought to their end, and none has to fail on the way.\<close>

definition ends_well :: "mthread \<Rightarrow> mthread \<Rightarrow> bool" where
  "ends_well th th' \<longleftrightarrow> phase_of th' = Finished \<and> data_ptr th' = data_ptr th \<and>
     (if phase_of th = Finished then th' = th else retval th' = data_ptr th)"

lemma can_finish:
  "msys_inv s \<Longrightarrow> sleeps_ok s \<Longrightarrow> finite (dom (mthreads s)) \<Longrightarrow>
   \<exists>s'. some_step\<^sup>*\<^sup>* s s' \<and> (\<forall>t th. mthreads s t = Some th \<longrightarrow> (\<exists>th'. mthreads s' t = Some th' \<and> ends_well th th'))"
proof (induction s rule: measure_induct_rule [of work])
  case (less s)
  show ?case
  proof (cases "\<exists>t th. mthreads s t = Some th \<and> phase_of th < Finished")
    case False
    have "phase_of th = Finished" if th: "mthreads s t = Some th" for t th
    proof -
      have "phase_of th \<noteq> Undefined"
        using less.prems(1,2) th by (rule sleeps_ok_defined)
      then show ?thesis using False th by (cases "phase_of th") (force simp: less_phase_def)+
    qed
    then show ?thesis by (intro exI [of _ s]) (auto simp: ends_well_def)
  next
    case True
    then obtain u s1 where good: "good_step s u s1" using progress [OF less.prems(1,2)] by blast
    then have st: "threadfunc_step s u s1" and sl: "sleeps_ok s1"
      and ret: "\<forall>th'. mthreads s1 u = Some th' \<longrightarrow> phase_of th' = Finished \<longrightarrow> retval th' = data_ptr th'"
      by (simp_all add: good_step_def)
    from threadfunc_step_phase [OF st] obtain uh uh' where u: "mthreads s u = Some uh"
      "mthreads s1 = (mthreads s)(u \<mapsto> uh')" "phase_of uh < Finished" "data_ptr uh' = data_ptr uh" by blast
    have one: "some_step s s1" using st by (auto simp: some_step_def)
    have wk: "dom (mthreads s1) = dom (mthreads s) \<and> work s1 < work s"
      using one less.prems(3) by (rule some_step_work)
    obtain s' where s': "some_step\<^sup>*\<^sup>* s1 s'"
      "\<forall>t th. mthreads s1 t = Some th \<longrightarrow> (\<exists>th'. mthreads s' t = Some th' \<and> ends_well th th')"
      using less.IH [of s1] wk threadfunc_step_inv [OF st less.prems(1)] sl less.prems(3) by auto
    have "\<exists>th'. mthreads s' t = Some th' \<and> ends_well th th'" if t: "mthreads s t = Some th" for t th
    proof (cases "t = u")
      case True
      then have "th = uh" "mthreads s1 t = Some uh'" using t u by simp_all
      with s'(2) obtain th' where "mthreads s' t = Some th'" "ends_well uh' th'" by blast
      then show ?thesis using \<open>th = uh\<close> u ret unfolding ends_well_def
        by (auto simp: less_phase_def split: if_splits)
    next
      case False
      then show ?thesis using t u s'(2) by simp
    qed
    then show ?thesis using one s'(1) by (meson converse_rtranclp_into_rtranclp)
  qed
qed

section \<open>Properties\<close>

text \<open>A program with one thread and one with two threads over one mutex, for the witnesses.\<close>

definition mx_data :: mutex_thread_data where
  "mx_data = \<lparr>mutex = 7, wait_to_obtain_ms = 5, wait_to_release_ms = 9, thread_complete_success = False\<rparr>"

definition no_threads :: msys where
  "no_threads = \<lparr>owner = Map.empty, data_heap = Map.empty, mthreads = Map.empty\<rparr>"

definition one_started :: msys where
  "one_started = snd (start_thread_obtaining_mutex 100 mx_data (Some 3) 7 5 9 no_threads)"

lemma mreach_one_started: "mreach one_started"
  unfolding one_started_def
  by (rule mreach.start [of no_threads 100 "Some 3" mx_data 7 5 9 "fst (start_thread_obtaining_mutex 100 mx_data (Some 3) 7 5 9 no_threads)"])
    (simp_all add: mreach.none_started [folded no_threads_def], simp_all add: no_threads_def)

lemma one_started_eq:
  "one_started = \<lparr>owner = Map.empty, data_heap = [100 \<mapsto> mx_data],
     mthreads = [3 \<mapsto> \<lparr>data_ptr = 100, phase_of = Starting, retval = 0\<rparr>]\<rparr>"
  by (simp add: one_started_def start_thread_obtaining_mutex_def no_threads_def set_thread_def mx_data_def)

definition one_locking :: msys where
  "one_locking = one_started\<lparr>mthreads := [3 \<mapsto> \<lparr>data_ptr = 100, phase_of = Locking, retval = 0\<rparr>]\<rparr>"

definition one_failed :: msys where
  "one_failed = one_started\<lparr>mthreads := [3 \<mapsto> \<lparr>data_ptr = 100, phase_of = Finished, retval = 0\<rparr>]\<rparr>"

definition one_holding :: msys where
  "one_holding = one_started\<lparr>mthreads := [3 \<mapsto> \<lparr>data_ptr = 100, phase_of = Holding, retval = 0\<rparr>],
     owner := [7 \<mapsto> 3]\<rparr>"

lemma step_one_locking: "threadfunc_step one_started 3 one_locking"
  using sleep_before [of one_started 3 "\<lparr>data_ptr = 100, phase_of = Starting, retval = 0\<rparr>" mx_data]
  by (simp add: one_started_eq one_locking_def set_thread_def usleep_defined_def mx_data_def)

lemma step_one_failed: "threadfunc_step one_locking 3 one_failed"
  using lock_error [of one_locking 3 "\<lparr>data_ptr = 100, phase_of = Locking, retval = 0\<rparr>"]
  by (simp add: one_started_eq one_locking_def one_failed_def msys_simps mx_data_def)

lemma step_one_holding: "threadfunc_step one_locking 3 one_holding"
  using lock [of one_locking 3 "\<lparr>data_ptr = 100, phase_of = Locking, retval = 0\<rparr>" mx_data]
  by (simp add: one_started_eq one_locking_def one_holding_def msys_simps mx_data_def)

lemma mreach_one_failed: "mreach one_failed"
  by (rule mreach.run [OF mreach.run [OF mreach_one_started step_one_locking] step_one_failed])

lemma mreach_one_holding: "mreach one_holding"
  by (rule mreach.run [OF mreach.run [OF mreach_one_started step_one_locking] step_one_holding])

text \<open>A second thread over the same mutex: thread 3 has it, thread 4 waits for it.\<close>

definition with_second :: "msys \<Rightarrow> phase \<Rightarrow> msys" where
  "with_second s ph = s\<lparr>data_heap := (data_heap s)(200 \<mapsto> mx_data),
     mthreads := (mthreads s)(4 \<mapsto> \<lparr>data_ptr = 200, phase_of = ph, retval = 0\<rparr>)\<rparr>"

abbreviation two_threads :: msys where
  "two_threads \<equiv> with_second one_holding Locking"

lemma mreach_two_threads: "mreach two_threads"
proof -
  have "mreach (with_second one_holding Starting)"
    by (rule mreach.start [OF mreach_one_holding, of 200 "Some 4" mx_data 7 5 9 True])
      (simp_all add: start_thread_obtaining_mutex_def with_second_def one_holding_def one_started_eq set_thread_def mx_data_def)
  moreover have "threadfunc_step (with_second one_holding Starting) 4 two_threads"
    using sleep_before [of "with_second one_holding Starting" 4 "\<lparr>data_ptr = 200, phase_of = Starting, retval = 0\<rparr>" mx_data]
    by (simp add: with_second_def set_thread_def usleep_defined_def mx_data_def)
  ultimately show ?thesis by (rule mreach.run)
qed

text \<open>C21. In every program of threads started by \<open>start_thread_obtaining_mutex\<close>, whatever the
  scheduler does and whichever lock attempts fail, two threads between taking and releasing the same
  mutex are the same thread.\<close>

theorem mutual_exclusion:
  assumes "mreach s"
    and "mthreads s t = Some th" "phase_of th \<in> {Holding, Unlocking}" "data_heap s (data_ptr th) = Some d"
    and "mthreads s u = Some uh" "phase_of uh \<in> {Holding, Unlocking}" "data_heap s (data_ptr uh) = Some e"
    and "mutex d = mutex e"
  shows "t = u"
proof -
  have "owner s (mutex d) = Some t" using mreach_thread [OF assms(1,2)] assms(3,4) by (auto simp: thread_ok_def)
  moreover have "owner s (mutex e) = Some u" using mreach_thread [OF assms(1,5)] assms(6,7) by (auto simp: thread_ok_def)
  ultimately show ?thesis using assms(8) by simp
qed

theorem mutual_exclusion_witness:
  "card (dom (mthreads two_threads)) = 2 \<and>
   {u. \<exists>uh e. mthreads two_threads u = Some uh \<and> phase_of uh \<in> {Holding, Unlocking} \<and>
     data_heap two_threads (data_ptr uh) = Some e \<and> mutex e = 7} = {3}"
proof -
  have here: "mthreads two_threads 3 = Some \<lparr>data_ptr = 100, phase_of = Holding, retval = 0\<rparr>" "data_heap two_threads 100 = Some mx_data"
    "mutex mx_data = 7" "dom (mthreads two_threads) = {3, 4}"
    by (auto simp: with_second_def one_holding_def one_started_eq mx_data_def split: if_splits)
  have "u = 3" if "mthreads two_threads u = Some uh" "phase_of uh \<in> {Holding, Unlocking}"
    "data_heap two_threads (data_ptr uh) = Some e" "mutex e = 7" for u uh e
  proof (rule mutual_exclusion [OF mreach_two_threads that(1-3) here(1)])
    show "phase_of \<lparr>data_ptr = 100, phase_of = Holding, retval = 0\<rparr> \<in> {Holding, Unlocking}" by simp
    show "data_heap two_threads (data_ptr \<lparr>data_ptr = 100, phase_of = Holding, retval = 0\<rparr>) = Some mx_data"
      unfolding mthread.select_convs by (rule here(2))
    show "mutex e = mutex mx_data" unfolding here(3) by (rule that(4))
  qed
  then have only: "{u. \<exists>uh e. mthreads two_threads u = Some uh \<and> phase_of uh \<in> {Holding, Unlocking} \<and>
     data_heap two_threads (data_ptr uh) = Some e \<and> mutex e = 7} \<subseteq> {3}" by blast
  have "\<exists>uh e. mthreads two_threads 3 = Some uh \<and> phase_of uh \<in> {Holding, Unlocking} \<and>
     data_heap two_threads (data_ptr uh) = Some e \<and> mutex e = 7"
    unfolding here(1) using here(2,3) by simp
  then have "{3} \<subseteq> {u. \<exists>uh e. mthreads two_threads u = Some uh \<and> phase_of uh \<in> {Holding, Unlocking} \<and>
     data_heap two_threads (data_ptr uh) = Some e \<and> mutex e = 7}" by blast
  moreover have "card (dom (mthreads two_threads)) = 2" unfolding here(4) by simp
  ultimately show ?thesis using only by blast
qed

text \<open>When a thread has exited, its data block is still allocated and no mutex is left in its
  hands. The pointer it returns is its data block if it set the success flag and NULL otherwise: a
  joiner that follows the documented protocol gets back the block of a successful thread and has no
  way to free the block of a failed one.\<close>

theorem finished_thread_result:
  assumes "mreach s" "mthreads s t = Some th" "phase_of th = Finished"
  shows "\<exists>d. data_heap s (data_ptr th) = Some d \<and> data_ptr th \<noteq> 0 \<and>
    retval th = (if thread_complete_success d then data_ptr th else 0) \<and> (\<forall>m. owner s m \<noteq> Some t)"
  using mreach_thread [OF assms(1,2)] assms(3) by (elim thread_okE) blast

theorem finished_thread_result_witness:
  "data_heap one_failed 100 \<noteq> None \<and> (\<forall>m. owner one_failed m \<noteq> Some 3)"
  using finished_thread_result [OF mreach_one_failed, of 3 "\<lparr>data_ptr = 100, phase_of = Finished, retval = 0\<rparr>"]
  by (auto simp: one_failed_def)

text \<open>C22. No deadlock: from every reachable state in which no sleep time overflows \<open>int\<close> (and none has), the threads can
  be scheduled so that all of them exit; every thread that had not exited before then returns its data
  block, the sign of success, and a thread that had exited keeps its result, also when it had failed.\<close>

theorem threads_can_all_finish:
  assumes "mreach s" "sleeps_ok s"
  shows "\<exists>s'. some_step\<^sup>*\<^sup>* s s' \<and>
    (\<forall>t th. mthreads s t = Some th \<longrightarrow> (\<exists>th'. mthreads s' t = Some th' \<and> ends_well th th'))"
  using assms by (intro can_finish) (simp_all add: mreach_inv mreach_finite)

theorem threads_can_all_finish_witness:
  "\<exists>s' th'. some_step\<^sup>*\<^sup>* one_holding s' \<and> mthreads s' 3 = Some th' \<and> retval th' = 100"
proof -
  have "sleeps_ok one_holding"
    by (auto simp: sleeps_ok_def one_holding_def one_started_eq mx_data_def usleep_defined_def split: if_splits)
  from threads_can_all_finish [OF mreach_one_holding this] obtain s' where
    "some_step\<^sup>*\<^sup>* one_holding s'"
    "\<exists>th'. mthreads s' 3 = Some th' \<and> ends_well \<lparr>data_ptr = 100, phase_of = Holding, retval = 0\<rparr> th'"
    by (auto simp: one_holding_def)
  then show ?thesis by (auto simp: ends_well_def)
qed

text \<open>Every run of the started threads ends: it has at most four steps per thread, whatever the
  scheduler and the library calls do.\<close>

theorem thread_runs_are_short:
  assumes "mreach s" "(some_step ^^ n) s s'"
  shows "n \<le> 4 * card (dom (mthreads s))"
  using run_work [OF assms(2) mreach_finite [OF assms(1)]] work_bound [of s] by simp

theorem thread_runs_are_short_witness: "(2::nat) \<le> 4 * card (dom (mthreads one_started))"
proof (rule thread_runs_are_short [OF mreach_one_started])
  have "some_step one_started one_locking" "some_step one_locking one_failed"
    using step_one_locking step_one_failed by (auto simp: some_step_def)
  then show "(some_step ^^ 2) one_started one_failed" by (auto simp: numeral_2_eq_2)
qed

end
