(* ===== verification/Writer.thy ===== *)
theory Writer
  imports Aesd_Prelude
begin

text \<open>
  The file writer \<^verbatim>\<open>finder-app/writer.c\<close>: it writes its second argument to the file its first
  argument names. Standard I/O is a parameter: whether \<open>fopen\<close> succeeds, what \<open>fprintf\<close> returns and how
  many bytes it hands to the file at once (the rest waits in the stream's buffer), and what
  \<open>fclose\<close> returns and how many of the waiting bytes it gets out. \<open>None\<close> is undefined behaviour.
\<close>

section \<open>Standard I/O\<close>

record stdio_env =
  w_fopen :: "string \<Rightarrow> bool"
  w_fprintf :: "string \<Rightarrow> int \<times> nat"
  w_fclose :: "string \<Rightarrow> int \<times> nat"

record writer_state =
  files :: "string \<Rightarrow> string option"
  stderr_out :: "string list"
  syslog_out :: "(string \<times> string) list"

text \<open>What the manual promises: \<open>fprintf\<close> of a whole string returns its length or a negative number,
  and \<open>fclose\<close> returns 0 only when it wrote everything that was waiting.\<close>

definition stdio_ok :: "stdio_env \<Rightarrow> bool" where
  "stdio_ok E \<longleftrightarrow>
     (\<forall>s. (fst (w_fprintf E s) < 0 \<or> fst (w_fprintf E s) = int (length s)) \<and> snd (w_fprintf E s) \<le> length s) \<and>
     (\<forall>pending. snd (w_fclose E pending) \<le> length pending \<and>
       (fst (w_fclose E pending) = 0 \<longrightarrow> snd (w_fclose E pending) = length pending))"

definition complain :: "string \<Rightarrow> writer_state \<Rightarrow> writer_state" where
  "complain msg s = s\<lparr>stderr_out := stderr_out s @ [msg @ [CHR 0x0A]]\<rparr>"

definition append_file :: "string \<Rightarrow> string \<Rightarrow> writer_state \<Rightarrow> writer_state" where
  "append_file f bytes s = s\<lparr>files := (files s)(f := map_option (\<lambda>old. old @ bytes) (files s f))\<rparr>"

definition EXIT_FAILURE :: int where "EXIT_FAILURE = 1"

section \<open>The program\<close>

text \<open>The arguments are the strings of \<open>argv\<close> before its NULL; with an empty \<open>argv\<close> the usage message
  prints a NULL string, which is undefined. The result of \<open>fclose\<close> is not looked at.\<close>

definition writer_main :: "stdio_env \<Rightarrow> string list \<Rightarrow> writer_state \<Rightarrow> (int \<times> writer_state) option" where
  "writer_main E argv s =
     (if length argv \<noteq> 3 then
        do {
          prog \<leftarrow> arr_get argv 0;
          Some (EXIT_FAILURE, complain (''Usage: '' @ prog @ '' <writefile> <writestr>'') s)
        }
      else
        (let writefile = argv ! 1; writestr = argv ! 2
         in if length writefile = 0 then
              Some (EXIT_FAILURE, complain ''Error: 'writefile' argument is empty.'' s)
            else if length writestr = 0 then
              Some (EXIT_FAILURE, complain ''Error: 'writestr' argument is empty.'' s)
            else if \<not> w_fopen E writefile then
              Some (EXIT_FAILURE, complain (''Error: Failed to open file ''  @ [CHR 0x27] @ writefile @ [CHR 0x27] @ '' for writing.'') s)
            else
              (let s = s\<lparr>files := (files s)(writefile \<mapsto> [])\<rparr>;
                   (r, n) = w_fprintf E writestr;
                   s = append_file writefile (take n writestr) s;
                   pending = drop n writestr
               in if r < 0 then
                    (let s = complain (''Error: Failed to write to file '' @ [CHR 0x27] @ writefile @ [CHR 0x27] @ ''.'') s;
                         (c, m) = w_fclose E pending;
                         s = append_file writefile (take m pending) s
                     in Some (EXIT_FAILURE, s))
                  else
                    (let (c, m) = w_fclose E pending;
                         s = append_file writefile (take m pending) s;
                         s = s\<lparr>syslog_out := syslog_out s @ [(''writer'', ''Writing '' @ writestr @ '' to '' @ writefile)]\<rparr>
                     in Some (0, s)))))"

section \<open>Properties\<close>

definition good_arguments :: "string list \<Rightarrow> bool" where
  "good_arguments argv \<longleftrightarrow> length argv = 3 \<and> argv ! 1 \<noteq> [] \<and> argv ! 2 \<noteq> []"

lemmas writer_simps = writer_main_def complain_def append_file_def EXIT_FAILURE_def Let_def arr_get_def

lemma writer_main_rejects:
  assumes "argv \<noteq> []" "\<not> (good_arguments argv \<and> w_fopen E (argv ! 1))"
  shows "\<exists>msg. writer_main E argv s = Some (1, complain msg s)"
  using assms by (auto simp: writer_main_def EXIT_FAILURE_def Let_def arr_get_def good_arguments_def)

lemma writer_main_opened:
  assumes "good_arguments argv" "w_fopen E (argv ! 1)" "w_fprintf E (argv ! 2) = (r, n)"
    "w_fclose E (drop n (argv ! 2)) = (c, m)"
  shows "\<exists>s'. writer_main E argv s = Some (if r < 0 then 1 else 0, s') \<and>
    files s' = (files s)(argv ! 1 \<mapsto> take n (argv ! 2) @ take m (drop n (argv ! 2)))"
  using assms by (auto simp: writer_simps good_arguments_def)

text \<open>C39. The writer ends with status 0 exactly when it got three non-empty arguments, the file could
  be opened and the string could be handed to the stream; otherwise the status is 1. No other file
  changes, and a file that was not opened does not change. On status 0 the file holds the string,
  if closing the file succeeds; the status does not depend on that, so that bytes lost when the stream
  is flushed are not reported.\<close>

theorem writer_outcome:
  assumes ok: "stdio_ok E" and argv: "argv \<noteq> []"
  shows "\<exists>st s'. writer_main E argv s = Some (st, s') \<and>
    st = (if good_arguments argv \<and> w_fopen E (argv ! 1) \<and> 0 \<le> fst (w_fprintf E (argv ! 2)) then 0 else 1) \<and>
    (\<forall>f. \<not> (good_arguments argv \<and> w_fopen E (argv ! 1) \<and> f = argv ! 1) \<longrightarrow> files s' f = files s f) \<and>
    (st = 0 \<longrightarrow> (\<exists>n \<le> length (argv ! 2). files s' (argv ! 1) = Some (take n (argv ! 2)) \<and>
       (fst (w_fclose E (drop (snd (w_fprintf E (argv ! 2))) (argv ! 2))) = 0 \<longrightarrow> n = length (argv ! 2))))"
proof (cases "good_arguments argv \<and> w_fopen E (argv ! 1)")
  case False
  then obtain msg where "writer_main E argv s = Some (1, complain msg s)"
    using writer_main_rejects argv by blast
  then show ?thesis using False by (auto simp: complain_def)
next
  case True
  obtain r n where rn: "w_fprintf E (argv ! 2) = (r, n)" by fastforce
  obtain c m where cm: "w_fclose E (drop n (argv ! 2)) = (c, m)" by fastforce
  have n: "n \<le> length (argv ! 2)" and m: "m \<le> length (argv ! 2) - n" "c = 0 \<Longrightarrow> m = length (argv ! 2) - n"
    using ok rn cm unfolding stdio_ok_def by (metis snd_conv, metis snd_conv length_drop, metis snd_conv fst_conv length_drop)
  have add: "take n (argv ! 2) @ take m (drop n (argv ! 2)) = take (n + m) (argv ! 2)" by (simp add: take_add)
  obtain s' where s': "writer_main E argv s = Some (if r < 0 then 1 else 0, s')"
    "files s' = (files s)(argv ! 1 \<mapsto> take (n + m) (argv ! 2))"
    using writer_main_opened [of argv E r n c m s] True rn cm unfolding add by blast
  have "n + m \<le> length (argv ! 2)" using n m(1) by simp
  moreover have "c = 0 \<Longrightarrow> n + m = length (argv ! 2)" using n m(2) by simp
  ultimately show ?thesis
    using s' True rn cm by (intro exI conjI) (auto intro!: exI [of _ "n + m"])
qed

text \<open>A full disk: everything is accepted into the buffer and nothing gets out.\<close>

definition full_disk :: stdio_env where
  "full_disk = \<lparr>w_fopen = (\<lambda>f. True), w_fprintf = (\<lambda>s. (int (length s), 0)),
     w_fclose = (\<lambda>p. (if p = [] then 0 else - 1, 0))\<rparr>"

definition no_files :: writer_state where
  "no_files = \<lparr>files = Map.empty, stderr_out = [], syslog_out = []\<rparr>"

theorem writer_outcome_witness:
  "\<exists>s'. writer_main full_disk [''writer'', ''/tmp/f'', ''hello''] no_files = Some (0, s') \<and>
     files s' ''/tmp/f'' = Some [] \<and> files s' ''/etc/x'' = None"
proof -
  have "stdio_ok full_disk" by (simp add: stdio_ok_def full_disk_def)
  from writer_outcome [OF this, of "[''writer'', ''/tmp/f'', ''hello'']" no_files]
  obtain s' where "writer_main full_disk [''writer'', ''/tmp/f'', ''hello''] no_files = Some (0, s')"
    "files s' ''/etc/x'' = files no_files ''/etc/x''"
    by (auto simp: good_arguments_def full_disk_def)
  moreover from this(1) have "files s' ''/tmp/f'' = Some []"
    by (auto simp: writer_simps full_disk_def no_files_def)
  ultimately show ?thesis by (simp add: no_files_def)
qed

end
