(* ===== verification/Queue_Links.thy ===== *)
theory Queue_Links
  imports Aesd_Prelude
begin

text \<open>
  Memory for the tail queues and doubly-linked lists of \<^verbatim>\<open>server/queue.h\<close>. These structures keep
  addresses of pointer fields: a link is the first-element field of a head or the next field of a node. A
  head is a pair of the first element and the link behind the last one, and a node has a next pointer
  and, in the doubly-linked families, the link that points to it; the families that lack a field do
  not use it. A segment is the part of a queue between two links.
\<close>

section \<open>Nodes, heads and links\<close>

datatype link = HeadLink ptr | NextLink ptr

record 'a qnode =
  q_data :: 'a
  q_next :: ptr
  q_prev :: link

record qhead =
  q_first :: ptr
  q_last :: link

record 'a qmem =
  qnodes :: "ptr \<Rightarrow> 'a qnode option"
  qheads :: "ptr \<Rightarrow> qhead option"

text \<open>Following a link, and storing through it; without the node or head both are undefined.\<close>

fun load :: "'a qmem \<Rightarrow> link \<Rightarrow> ptr option" where
  "load m (HeadLink h) = map_option q_first (qheads m h)"
| "load m (NextLink x) = map_option q_next (qnodes m x)"

fun upd_link :: "'a qmem \<Rightarrow> link \<Rightarrow> ptr \<Rightarrow> 'a qmem" where
  "upd_link m (HeadLink h) p = m\<lparr>qheads := (qheads m)(h := map_option (\<lambda>H. H\<lparr>q_first := p\<rparr>) (qheads m h))\<rparr>"
| "upd_link m (NextLink x) p = m\<lparr>qnodes := (qnodes m)(x := map_option (\<lambda>n. n\<lparr>q_next := p\<rparr>) (qnodes m x))\<rparr>"

definition store :: "'a qmem \<Rightarrow> link \<Rightarrow> ptr \<Rightarrow> 'a qmem option" where
  "store m k p = (if load m k = None then None else Some (upd_link m k p))"

text \<open>The link fields of nodes and heads.\<close>

definition get_prev :: "'a qmem \<Rightarrow> ptr \<Rightarrow> link option" where
  "get_prev m x = map_option q_prev (qnodes m x)"

definition upd_prev :: "'a qmem \<Rightarrow> ptr \<Rightarrow> link \<Rightarrow> 'a qmem" where
  "upd_prev m x l = m\<lparr>qnodes := (qnodes m)(x := map_option (\<lambda>n. n\<lparr>q_prev := l\<rparr>) (qnodes m x))\<rparr>"

definition put_prev :: "'a qmem \<Rightarrow> ptr \<Rightarrow> link \<Rightarrow> 'a qmem option" where
  "put_prev m x l = (if get_prev m x = None then None else Some (upd_prev m x l))"

definition get_last :: "'a qmem \<Rightarrow> ptr \<Rightarrow> link option" where
  "get_last m h = map_option q_last (qheads m h)"

definition upd_last :: "'a qmem \<Rightarrow> ptr \<Rightarrow> link \<Rightarrow> 'a qmem" where
  "upd_last m h l = m\<lparr>qheads := (qheads m)(h := map_option (\<lambda>H. H\<lparr>q_last := l\<rparr>) (qheads m h))\<rparr>"

definition put_last :: "'a qmem \<Rightarrow> ptr \<Rightarrow> link \<Rightarrow> 'a qmem option" where
  "put_last m h l = (if get_last m h = None then None else Some (upd_last m h l))"

text \<open>The field behind the one a link points to: heads and nodes both have a link there, which is what
  the casts in \<open>TAILQ_LAST\<close> and \<open>TAILQ_PREV\<close> use.\<close>

fun partner :: "'a qmem \<Rightarrow> link \<Rightarrow> link option" where
  "partner m (HeadLink h) = get_last m h"
| "partner m (NextLink x) = get_prev m x"

definition data_at :: "'a qmem \<Rightarrow> ptr \<Rightarrow> 'a option" where
  "data_at m x = map_option q_data (qnodes m x)"

section \<open>Symbolic execution\<close>

named_theorems qexec \<open>rewriting of loads and stores in queue memory\<close>

lemma load_upd [qexec]:
  "load (upd_link m k p) k' = (if k' = k then map_option (\<lambda>_. p) (load m k) else load m k')"
  "load (upd_prev m x l) k = load m k"
  "load (upd_last m h l) k = load m k"
  by (cases k; cases k'; simp add: map_option_case split: option.splits)
    (cases k; simp add: upd_prev_def upd_last_def map_option_case split: option.splits)+

lemma get_prev_upd [qexec]:
  "get_prev (upd_link m k p) x = get_prev m x"
  "get_prev (upd_prev m y l) x = (if x = y then map_option (\<lambda>_. l) (get_prev m x) else get_prev m x)"
  "get_prev (upd_last m h l) x = get_prev m x"
  by (cases k; simp add: get_prev_def map_option_case split: option.splits)
    (simp_all add: get_prev_def upd_prev_def upd_last_def map_option_case split: option.splits)

lemma get_last_upd [qexec]:
  "get_last (upd_link m k p) h = get_last m h"
  "get_last (upd_prev m x l) h = get_last m h"
  "get_last (upd_last m h' l) h = (if h = h' then map_option (\<lambda>_. l) (get_last m h) else get_last m h)"
  by (cases k; simp add: get_last_def map_option_case split: option.splits)
    (simp_all add: get_last_def upd_prev_def upd_last_def map_option_case split: option.splits)

lemma data_at_upd [qexec]:
  "data_at (upd_link m k p) x = data_at m x"
  "data_at (upd_prev m y l) x = data_at m x"
  "data_at (upd_last m h l) x = data_at m x"
  by (cases k; simp add: data_at_def map_option_case split: option.splits)
    (simp_all add: data_at_def upd_prev_def upd_last_def map_option_case split: option.splits)

lemma accesses [qexec]:
  "load m k = Some v \<Longrightarrow> store m k p = Some (upd_link m k p)"
  "get_prev m x = Some u \<Longrightarrow> put_prev m x l = Some (upd_prev m x l)"
  "get_last m h = Some w \<Longrightarrow> put_last m h l = Some (upd_last m h l)"
  by (simp_all add: store_def put_prev_def put_last_def)

lemma node_fields:
  "load m (NextLink x) = None \<longleftrightarrow> get_prev m x = None"
  "load m (HeadLink h) = None \<longleftrightarrow> get_last m h = None"
  by (simp_all add: get_prev_def get_last_def)

declare load.simps [simp del] upd_link.simps [simp del]

lemma node_next: "get_prev m x = Some u \<Longrightarrow> \<exists>q. load m (NextLink x) = Some q"
  using node_fields(1) [of m x] by auto

lemma head_first: "get_last m h = Some u \<Longrightarrow> \<exists>p. load m (HeadLink h) = Some p"
  using node_fields(2) [of m h] by auto

section \<open>Walking a queue\<close>

text \<open>The iteration macros: the body returns the new state and whether it leaves the loop; the plain loops
  read the next element after the body, the safe ones before it.\<close>

partial_function (option) walk ::
  "('s \<Rightarrow> ptr \<Rightarrow> ptr option) \<Rightarrow> (ptr \<Rightarrow> 's \<Rightarrow> ('s \<times> bool) option) \<Rightarrow> ptr \<Rightarrow> 's \<Rightarrow> (ptr \<times> 's) option" where
  "walk nxt body var s =
     (if var = 0 then Some (0, s)
      else do {
        (s, stop) \<leftarrow> body var s;
        if stop then Some (var, s) else do { q \<leftarrow> nxt s var; walk nxt body q s }
      })"

partial_function (option) walk_safe ::
  "('s \<Rightarrow> ptr \<Rightarrow> ptr option) \<Rightarrow> (ptr \<Rightarrow> 's \<Rightarrow> ('s \<times> bool) option) \<Rightarrow> ptr \<Rightarrow> 's \<Rightarrow> (ptr \<times> 's) option" where
  "walk_safe nxt body var s =
     (if var = 0 then Some (0, s)
      else do {
        tvar \<leftarrow> nxt s var;
        (s, stop) \<leftarrow> body var s;
        if stop then Some (var, s) else walk_safe nxt body tvar s
      })"

section \<open>Segments\<close>

text \<open>\<open>seg d m l xs\<close>: from link \<open>l\<close> on the nodes \<open>xs\<close> follow one another; with \<open>d\<close> every node knows the
  link that points to it. \<open>reads l xs\<close> are the links followed and \<open>endl l xs\<close> is the one behind the last
  node.\<close>

fun seg :: "bool \<Rightarrow> 'a qmem \<Rightarrow> link \<Rightarrow> ptr list \<Rightarrow> bool" where
  "seg d m l [] \<longleftrightarrow> True"
| "seg d m l (x # xs) \<longleftrightarrow> load m l = Some x \<and> x \<noteq> 0 \<and> get_prev m x \<noteq> None \<and>
     (d \<longrightarrow> get_prev m x = Some l) \<and> seg d m (NextLink x) xs"

fun endl :: "link \<Rightarrow> ptr list \<Rightarrow> link" where
  "endl l [] = l"
| "endl l (x # xs) = endl (NextLink x) xs"

fun reads :: "link \<Rightarrow> ptr list \<Rightarrow> link list" where
  "reads l [] = []"
| "reads l (x # xs) = l # reads (NextLink x) xs"

lemma endl_append [simp]: "endl l (xs @ ys) = endl (endl l xs) ys"
  by (induction xs arbitrary: l) auto

lemma seg_append [simp]: "seg d m l (xs @ ys) \<longleftrightarrow> seg d m l xs \<and> seg d m (endl l xs) ys"
  by (induction xs arbitrary: l) auto

lemma reads_endl: "reads l xs @ [endl l xs] = l # map NextLink xs"
  by (induction xs arbitrary: l) auto

lemma in_reads: "k \<in> set (reads l xs) \<Longrightarrow> k = l \<or> (\<exists>x \<in> set xs. k = NextLink x)"
  by (induction xs arbitrary: l) auto

lemma endl_cases: "endl l xs = l \<or> (\<exists>x \<in> set xs. endl l xs = NextLink x)"
  by (induction xs arbitrary: l) auto

lemma endl_notin_reads:
  assumes "distinct xs" "l \<notin> NextLink ` set xs"
  shows "endl l xs \<notin> set (reads l xs)"
proof -
  have "distinct (l # map NextLink xs)" using assms by (auto simp: distinct_map inj_on_def)
  then show ?thesis unfolding reads_endl [symmetric] by simp
qed

lemma seg_nodes: "seg d m l xs \<Longrightarrow> x \<in> set xs \<Longrightarrow> x \<noteq> 0 \<and> get_prev m x \<noteq> None"
  by (induction xs arbitrary: l) auto

lemma seg_frame:
  assumes "\<forall>k \<in> set (reads l xs). load m' k = load m k" "\<forall>x \<in> set xs. get_prev m' x = get_prev m x"
  shows "seg d m' l xs \<longleftrightarrow> seg d m l xs"
  using assms by (induction xs arbitrary: l) auto

lemma seg_frameI:
  assumes "seg d m l xs" "\<forall>k \<in> set (reads l xs). load m' k = load m k" "\<forall>x \<in> set xs. get_prev m' x = get_prev m x"
  shows "seg d m' l xs"
  using seg_frame [OF assms(2,3)] assms(1) by simp

lemma seg_endl_load:
  "seg d m l xs \<Longrightarrow> load m l \<noteq> None \<Longrightarrow> load m (endl l xs) \<noteq> None"
  by (induction xs arbitrary: l) (auto dest: node_next)

text \<open>What an operation leaves alone.\<close>

definition unchanged :: "'a qmem \<Rightarrow> 'a qmem \<Rightarrow> ptr set \<Rightarrow> ptr set \<Rightarrow> bool" where
  "unchanged m m' X H \<longleftrightarrow>
     (\<forall>x. x \<notin> X \<longrightarrow> load m' (NextLink x) = load m (NextLink x) \<and> get_prev m' x = get_prev m x) \<and>
     (\<forall>h. h \<notin> H \<longrightarrow> load m' (HeadLink h) = load m (HeadLink h) \<and> get_last m' h = get_last m h) \<and>
     (\<forall>x. data_at m' x = data_at m x)"

lemma data_live: "data_at m x = None \<longleftrightarrow> get_prev m x = None"
  by (simp add: data_at_def get_prev_def)

lemma unchanged_live: "unchanged m m' X H \<Longrightarrow> get_prev m' x = None \<longleftrightarrow> get_prev m x = None"
  by (simp add: unchanged_def data_live [symmetric])

section \<open>Linked lists with a head\<close>

definition linked :: "bool \<Rightarrow> 'a qmem \<Rightarrow> ptr \<Rightarrow> ptr list \<Rightarrow> bool" where
  "linked d m h xs \<longleftrightarrow> distinct xs \<and> seg d m (HeadLink h) xs \<and> load m (endl (HeadLink h) xs) = Some 0"

lemma reads_apart:
  assumes "distinct xs" "e \<notin> set xs"
  shows "\<forall>k \<in> set (reads (HeadLink h) xs). k \<noteq> endl (HeadLink h) xs \<and> k \<noteq> NextLink e"
  using endl_notin_reads [of xs "HeadLink h"] assms by (auto dest: in_reads)

lemma reads_apart_next:
  "\<forall>x \<in> set (b # bs). k \<noteq> NextLink x \<Longrightarrow> \<forall>k' \<in> set (reads (NextLink b) bs). k' \<noteq> k"
  by (auto dest!: in_reads)

lemma endl_apart: "\<forall>x \<in> set (b # bs). k \<noteq> NextLink x \<Longrightarrow> endl (NextLink b) bs \<noteq> k"
  using endl_cases [of "NextLink b" bs] by auto

text \<open>The link \<open>k\<close> between two parts of a list.\<close>

lemma linked_parts:
  assumes "linked d m h (as @ bs)" "k = endl (HeadLink h) as"
  shows "load m k = Some (if bs = [] then 0 else hd bs)"
    "k = HeadLink h \<or> (\<exists>x \<in> set as. k = NextLink x)"
    "bs \<noteq> [] \<Longrightarrow> hd bs \<noteq> 0 \<and> get_prev m (hd bs) \<noteq> None"
    "d \<Longrightarrow> bs \<noteq> [] \<Longrightarrow> get_prev m (hd bs) = Some k"
  using assms endl_cases [of "HeadLink h" as] by (cases bs; auto simp: linked_def)+

text \<open>Putting a node between two parts: it hangs on the link \<open>k\<close> and holds what that link held.\<close>

lemma linked_insert:
  assumes t: "linked d m h (as @ bs)" and k: "k = endl (HeadLink h) as"
    and e: "elm \<noteq> 0" "elm \<notin> set (as @ bs)"
    and m': "load m' k = Some elm" "load m' (NextLink elm) = load m k"
      "get_prev m' elm \<noteq> None" "d \<Longrightarrow> get_prev m' elm = Some k"
      "\<forall>k'. k' \<noteq> k \<longrightarrow> k' \<noteq> NextLink elm \<longrightarrow> load m' k' = load m k'"
      "\<forall>x. x \<noteq> elm \<longrightarrow> (\<not> d \<or> bs = [] \<or> x \<noteq> hd bs) \<longrightarrow> get_prev m' x = get_prev m x"
      "d \<Longrightarrow> bs \<noteq> [] \<Longrightarrow> get_prev m' (hd bs) = Some (NextLink elm)"
  shows "linked d m' h (as @ elm # bs)"
proof -
  have q: "distinct as" "distinct bs" "set as \<inter> set bs = {}" "seg d m (HeadLink h) as" "seg d m k bs"
    "load m (endl k bs) = Some 0"
    using t by (simp_all add: linked_def k)
  note kc = linked_parts(2) [OF t k]
  have "\<forall>k' \<in> set (reads (HeadLink h) as). k' \<noteq> k \<and> k' \<noteq> NextLink elm"
    unfolding k using e(2) by (intro reads_apart [OF q(1)]) simp
  moreover have "\<forall>x \<in> set as. x \<noteq> elm \<and> (bs = [] \<or> x \<noteq> hd bs)"
    using e(2) q(3) hd_in_set by fastforce
  ultimately have s1: "seg d m' (HeadLink h) as"
    by (intro seg_frameI [OF q(4)]) (use m'(5,6) in blast)+
  show ?thesis
  proof (cases bs)
    case Nil
    then show ?thesis using q(1,6) e m'(1-4) s1 by (auto simp: linked_def k [symmetric])
  next
    case (Cons b bs')
    have b: "b \<noteq> 0" "load m k = Some b" "get_prev m b \<noteq> None" "seg d m (NextLink b) bs'" "b \<notin> set bs'" "distinct bs'" "b \<noteq> elm"
      using q(2,5) e(2) Cons by auto
    have ka: "\<forall>x \<in> set (b # bs'). k \<noteq> NextLink x" using kc q(3) Cons by auto
    have ea: "\<forall>x \<in> set (b # bs'). NextLink elm \<noteq> NextLink x" using e(2) Cons by auto
    have "\<forall>x \<in> set bs'. x \<noteq> elm \<and> x \<noteq> b" using e(2) b(5) Cons by auto
    then have s2: "seg d m' (NextLink b) bs'"
      using reads_apart_next [OF ka] reads_apart_next [OF ea] m'(5,6) Cons
      by (intro seg_frameI [OF b(4)]) simp_all
    have "load m' (endl (NextLink b) bs') = Some 0"
      using m'(5) endl_apart [OF ka] endl_apart [OF ea] q(6) Cons by simp
    moreover have "get_prev m' b \<noteq> None" "d \<Longrightarrow> get_prev m' b = Some (NextLink elm)"
      using b(3,7) m'(6,7) Cons by (cases d; simp)+
    ultimately show ?thesis
      using q(1,3) e m'(1-4) b s1 s2 Cons by (simp add: linked_def k [symmetric])
  qed
qed

text \<open>Taking a node out: the link in front of it gets what the node held.\<close>

lemma linked_remove:
  assumes t: "linked d m h (as @ e # bs)" and k: "k = endl (HeadLink h) as"
    and m': "load m' k = load m (NextLink e)"
      "\<forall>k'. k' \<noteq> k \<longrightarrow> k' \<noteq> NextLink e \<longrightarrow> load m' k' = load m k'"
      "\<forall>x. x \<noteq> e \<longrightarrow> (\<not> d \<or> bs = [] \<or> x \<noteq> hd bs) \<longrightarrow> get_prev m' x = get_prev m x"
      "d \<Longrightarrow> bs \<noteq> [] \<Longrightarrow> get_prev m' (hd bs) = Some k"
  shows "linked d m' h (as @ bs)"
proof -
  have q: "distinct as" "distinct bs" "e \<notin> set as" "e \<notin> set bs" "set as \<inter> set bs = {}" "seg d m (HeadLink h) as"
    "seg d m (NextLink e) bs" "load m (endl (NextLink e) bs) = Some 0"
    using t by (simp_all add: linked_def)
  note kc = linked_parts(2) [OF t k]
  have "\<forall>k' \<in> set (reads (HeadLink h) as). k' \<noteq> k \<and> k' \<noteq> NextLink e"
    unfolding k by (rule reads_apart [OF q(1,3)])
  moreover have "\<forall>x \<in> set as. x \<noteq> e \<and> (bs = [] \<or> x \<noteq> hd bs)"
    using q(3,5) hd_in_set by fastforce
  ultimately have s1: "seg d m' (HeadLink h) as"
    by (intro seg_frameI [OF q(6)]) (use m'(2,3) in blast)+
  show ?thesis
  proof (cases bs)
    case Nil
    then show ?thesis using q(1,8) m'(1) s1 by (simp add: linked_def k [symmetric])
  next
    case (Cons b bs')
    have b: "b \<noteq> 0" "load m (NextLink e) = Some b" "get_prev m b \<noteq> None" "seg d m (NextLink b) bs'" "b \<notin> set bs'" "b \<noteq> e"
      using q(2,4,7) Cons by auto
    have ka: "\<forall>x \<in> set (b # bs'). k \<noteq> NextLink x" using kc q(5) Cons by auto
    have ea: "\<forall>x \<in> set (b # bs'). NextLink e \<noteq> NextLink x" using q(4) Cons by auto
    have "\<forall>x \<in> set bs'. x \<noteq> e \<and> x \<noteq> b" using q(4) b(5) Cons by auto
    then have s2: "seg d m' (NextLink b) bs'"
      using reads_apart_next [OF ka] reads_apart_next [OF ea] m'(2,3) Cons
      by (intro seg_frameI [OF b(4)]) simp_all
    have "load m' (endl (NextLink b) bs') = Some 0"
      using m'(2) endl_apart [OF ka] endl_apart [OF ea] q(8) Cons by simp
    moreover have "get_prev m' b \<noteq> None" "d \<Longrightarrow> get_prev m' b = Some k"
      using b(3,6) m'(3,4) Cons by (cases d; simp)+
    ultimately show ?thesis
      using q(1,2,5) m'(1) b(1,2) s1 s2 Cons by (simp add: linked_def k [symmetric])
  qed
qed

text \<open>The same nodes behind another head.\<close>

lemma linked_moved:
  assumes "linked d m h ys" "load m' (HeadLink h') = Some (if ys = [] then 0 else hd ys)"
    and "d \<Longrightarrow> ys \<noteq> [] \<Longrightarrow> get_prev m' (hd ys) = Some (HeadLink h')"
    and "\<forall>x \<in> set ys. load m' (NextLink x) = load m (NextLink x)"
    and "\<forall>x \<in> set ys. \<not> d \<or> x \<noteq> hd ys \<longrightarrow> get_prev m' x = get_prev m x"
  shows "linked d m' h' ys"
proof (cases ys)
  case Nil
  then show ?thesis using assms by (simp add: linked_def)
next
  case (Cons y ys')
  have q: "distinct (y # ys')" "y \<noteq> 0" "get_prev m y \<noteq> None" "seg d m (NextLink y) ys'" "load m (endl (NextLink y) ys') = Some 0"
    using assms(1) Cons by (simp_all add: linked_def)
  have "\<forall>x \<in> set ys'. x \<noteq> y" using q(1) by auto
  then have "seg d m' (NextLink y) ys'"
    using assms(4,5) Cons by (intro seg_frameI [OF q(4)]) (auto dest!: in_reads)
  moreover have "load m' (endl (NextLink y) ys') = Some 0"
    using endl_cases [of "NextLink y" ys'] q(5) assms(4) Cons by auto
  moreover have "get_prev m' y \<noteq> None" "d \<Longrightarrow> get_prev m' y = Some (HeadLink h')"
    using q(3) assms(3,5) Cons by (cases d; simp)+
  ultimately show ?thesis using q(1,2) assms(2) Cons by (simp add: linked_def)
qed

text \<open>Joining two lists: the last link of the first one gets the first node of the second.\<close>

lemma linked_concat:
  assumes t1: "linked d m h1 xs" and t2: "linked d m h2 (y # ys)" and dis: "set xs \<inter> set (y # ys) = {}"
    and k: "k = endl (HeadLink h1) xs"
    and m': "load m' k = Some y" "\<forall>k'. k' \<noteq> k \<longrightarrow> k' \<noteq> HeadLink h2 \<longrightarrow> load m' k' = load m k'"
      "\<forall>x. \<not> d \<or> x \<noteq> y \<longrightarrow> get_prev m' x = get_prev m x" "d \<Longrightarrow> get_prev m' y = Some k" "h1 \<noteq> h2"
  shows "linked d m' h1 (xs @ y # ys)"
proof -
  have q1: "distinct xs" "seg d m (HeadLink h1) xs" using t1 by (simp_all add: linked_def)
  have q2: "distinct (y # ys)" "y \<noteq> 0" "get_prev m y \<noteq> None" "seg d m (NextLink y) ys" "load m (endl (NextLink y) ys) = Some 0"
    using t2 by (simp_all add: linked_def)
  have kc: "k = HeadLink h1 \<or> (\<exists>x \<in> set xs. k = NextLink x)" unfolding k by (rule endl_cases)
  have "\<forall>k' \<in> set (reads (HeadLink h1) xs). k' \<noteq> k \<and> k' \<noteq> HeadLink h2"
    unfolding k using reads_apart [OF q1(1), of y h1] dis m'(5) by (auto dest: in_reads)
  moreover have "\<forall>x \<in> set xs. x \<noteq> y" using dis by auto
  ultimately have s1: "seg d m' (HeadLink h1) xs"
    by (intro seg_frameI [OF q1(2)]) (use m'(2,3) in blast)+
  have ka: "\<forall>x \<in> set (y # ys). k \<noteq> NextLink x" using kc dis by auto
  have hl: "\<forall>x \<in> set (y # ys). HeadLink h2 \<noteq> NextLink x" by simp
  have "\<forall>x \<in> set ys. x \<noteq> y" using q2(1) by auto
  then have s2: "seg d m' (NextLink y) ys"
    using reads_apart_next [OF ka] reads_apart_next [OF hl] m'(2,3) by (intro seg_frameI [OF q2(4)]) blast+
  have "load m' (endl (NextLink y) ys) = Some 0"
    using q2(5) endl_apart [OF ka] endl_apart [OF hl] m'(2) by simp
  moreover have "get_prev m' y \<noteq> None"
    using q2(3) m'(3,4) by (cases d) auto
  ultimately show ?thesis
    using s1 s2 q1(1) q2(1,2) m'(1,4) dis by (simp add: linked_def k [symmetric])
qed

section \<open>Walks\<close>

text \<open>The successor function \<open>nx\<close> leads from \<open>p\<close> through \<open>xs\<close> to NULL.\<close>

fun steps :: "(ptr \<Rightarrow> ptr option) \<Rightarrow> ptr \<Rightarrow> ptr list \<Rightarrow> bool" where
  "steps nx p [] \<longleftrightarrow> p = 0"
| "steps nx p (x # xs) \<longleftrightarrow> p = x \<and> x \<noteq> 0 \<and> (\<exists>q. nx x = Some q \<and> steps nx q xs)"

lemma walk_steps:
  assumes "steps nx p xs" "I s" "\<And>s x. x \<in> set xs \<Longrightarrow> I s \<Longrightarrow> I (f x s)" "\<And>s. I s \<Longrightarrow> nxt s = nx"
  shows "walk nxt (\<lambda>x s. Some (f x s, False)) p s = Some (0, fold f xs s)"
  using assms(1-3)
proof (induction xs arbitrary: p s)
  case Nil
  then show ?case by (subst walk.simps) simp
next
  case (Cons x xs)
  then show ?case by (subst walk.simps) (auto simp: assms(4))
qed

lemma walk_safe_steps:
  assumes "steps nx p xs" "I s" "\<And>s x. x \<in> set xs \<Longrightarrow> I s \<Longrightarrow> I (f x s)" "\<And>s. I s \<Longrightarrow> nxt s = nx"
  shows "walk_safe nxt (\<lambda>x s. Some (f x s, False)) p s = Some (0, fold f xs s)"
  using assms(1-3)
proof (induction xs arbitrary: p s)
  case Nil
  then show ?case by (subst walk_safe.simps) simp
next
  case (Cons x xs)
  then show ?case by (subst walk_safe.simps) (auto simp: assms(4))
qed

lemma seg_steps:
  "seg d m l xs \<Longrightarrow> load m (endl l xs) = Some 0 \<Longrightarrow> load m l = Some p \<Longrightarrow> steps (\<lambda>x. load m (NextLink x)) p xs"
proof (induction xs arbitrary: l p)
  case (Cons x xs)
  then obtain q where "load m (NextLink x) = Some q" by (auto dest: node_next)
  with Cons show ?case by auto
qed simp

text \<open>A loop body that collects the nodes it meets.\<close>

definition collect :: "ptr \<Rightarrow> 'm \<times> ptr list \<Rightarrow> (('m \<times> ptr list) \<times> bool) option" where
  "collect x s = Some ((fst s, snd s @ [x]), False)"

lemma collect_eq: "collect = (\<lambda>x s. Some ((\<lambda>x s. (fst s, snd s @ [x])) x s, False))"
  by (simp add: fun_eq_iff collect_def)

lemma fold_collect: "fold (\<lambda>x s. (fst s, snd s @ [x])) xs (m, acc) = (m, acc @ xs)"
  by (induction xs arbitrary: acc) auto

section \<open>Any sequence of operations\<close>

definition live :: "'a qmem \<Rightarrow> ptr \<Rightarrow> bool" where
  "live m x \<longleftrightarrow> x \<noteq> 0 \<and> data_at m x \<noteq> None"

lemma live_prev: "live m x \<Longrightarrow> x \<noteq> 0 \<and> get_prev m x \<noteq> None"
  by (simp add: live_def data_live)

lemma unchanged_same_live: "unchanged m m' X H \<Longrightarrow> live m' x \<longleftrightarrow> live m x"
  by (simp add: unchanged_def live_def)

datatype list_op = InsertHead ptr | InsertTail ptr | InsertAfter ptr ptr | InsertBefore ptr ptr | Remove ptr

text \<open>The same on lists; an operation that names a node in the wrong way has no result.\<close>

fun insert_at :: "bool \<Rightarrow> ptr \<Rightarrow> ptr \<Rightarrow> ptr list \<Rightarrow> ptr list" where
  "insert_at after p e [] = []"
| "insert_at after p e (x # xs) =
     (if x = p then (if after then x # e # xs else e # x # xs) else x # insert_at after p e xs)"

fun list_step :: "list_op \<Rightarrow> ptr list \<Rightarrow> ptr list option" where
  "list_step (InsertHead e) xs = (if e \<in> set xs then None else Some (e # xs))"
| "list_step (InsertTail e) xs = (if e \<in> set xs then None else Some (xs @ [e]))"
| "list_step (InsertAfter p e) xs = (if e \<in> set xs \<or> p \<notin> set xs then None else Some (insert_at True p e xs))"
| "list_step (InsertBefore p e) xs = (if e \<in> set xs \<or> p \<notin> set xs then None else Some (insert_at False p e xs))"
| "list_step (Remove e) xs = (if e \<in> set xs then Some (remove1 e xs) else None)"

fun node_of :: "list_op \<Rightarrow> ptr" where
  "node_of (InsertHead e) = e"
| "node_of (InsertTail e) = e"
| "node_of (InsertAfter p e) = e"
| "node_of (InsertBefore p e) = e"
| "node_of (Remove e) = e"

lemma insert_at_split:
  "p \<notin> set as \<Longrightarrow> insert_at after p e (as @ p # bs) = as @ (if after then p # e # bs else e # p # bs)"
  by (induction as) auto

text \<open>A family of macros that behaves as the list operations it supports, one by one, does so on every
  sequence of them. The program state \<open>'s\<close> contains the queue memory \<open>mem\<close>.\<close>

locale list_operations =
  fixes mem :: "'s \<Rightarrow> 'a qmem"
    and inv :: "'s \<Rightarrow> ptr list \<Rightarrow> bool"
    and supported :: "list_op \<Rightarrow> bool"
    and step :: "list_op \<Rightarrow> 's \<Rightarrow> 's option"
  assumes step_refines: "inv s xs \<Longrightarrow> supported op \<Longrightarrow> list_step op xs = Some ys \<Longrightarrow> live (mem s) (node_of op) \<Longrightarrow>
    \<exists>s'. step op s = Some s' \<and> inv s' ys \<and> (\<forall>x. data_at (mem s') x = data_at (mem s) x)"
begin

lemma run_refines:
  "inv s xs \<Longrightarrow> fold_opt list_step ops xs = Some ys \<Longrightarrow> \<forall>op \<in> set ops. supported op \<and> live (mem s) (node_of op) \<Longrightarrow>
   \<exists>s'. fold_opt step ops s = Some s' \<and> inv s' ys \<and> (\<forall>x. data_at (mem s') x = data_at (mem s) x)"
proof (induction ops arbitrary: s xs)
  case (Cons op ops)
  obtain zs where zs: "list_step op xs = Some zs" "fold_opt list_step ops zs = Some ys"
    using Cons.prems(2) by (auto simp: bind_Some_iff)
  obtain s1 where s1: "step op s = Some s1" "inv s1 zs" "\<forall>x. data_at (mem s1) x = data_at (mem s) x"
    using step_refines [OF Cons.prems(1) _ zs(1)] Cons.prems(3) by auto
  then show ?case using Cons.IH [OF s1(2) zs(2)] Cons.prems(3) by (auto simp: live_def)
qed simp

end

section \<open>First in, first out\<close>

text \<open>Taking \<open>n\<close> nodes from the front, one after another.\<close>

fun drain :: "('m \<Rightarrow> ptr option) \<Rightarrow> ('m \<Rightarrow> 'm option) \<Rightarrow> nat \<Rightarrow> 'm \<Rightarrow> (ptr list \<times> 'm) option" where
  "drain front remove_front 0 m = Some ([], m)"
| "drain front remove_front (Suc n) m =
     do { x \<leftarrow> front m; m \<leftarrow> remove_front m; (xs, m) \<leftarrow> drain front remove_front n m; Some (x # xs, m) }"

text \<open>What both tail queues promise a client that uses them as a queue.\<close>

locale linked_queue =
  fixes inv :: "'m \<Rightarrow> ptr list \<Rightarrow> bool"
    and live :: "'m \<Rightarrow> ptr \<Rightarrow> bool"
    and front :: "'m \<Rightarrow> ptr option"
    and insert_back :: "'m \<Rightarrow> ptr \<Rightarrow> 'm option"
    and remove_front :: "'m \<Rightarrow> 'm option"
  assumes front_first: "inv m (x # xs) \<Longrightarrow> front m = Some x"
    and insert_appends: "inv m xs \<Longrightarrow> live m e \<Longrightarrow> e \<notin> set xs \<Longrightarrow>
      \<exists>m'. insert_back m e = Some m' \<and> inv m' (xs @ [e]) \<and> (\<forall>x. live m' x = live m x)"
    and remove_drops: "inv m (x # xs) \<Longrightarrow>
      \<exists>m'. remove_front m = Some m' \<and> inv m' xs \<and> (\<forall>y. live m' y = live m y)"
begin

lemma insert_all:
  "inv m xs \<Longrightarrow> distinct (xs @ es) \<Longrightarrow> \<forall>e \<in> set es. live m e \<Longrightarrow>
   \<exists>m'. fold_opt (\<lambda>e m. insert_back m e) es m = Some m' \<and> inv m' (xs @ es)"
proof (induction es arbitrary: m xs)
  case (Cons e es)
  then obtain m1 where m1: "insert_back m e = Some m1" "inv m1 (xs @ [e])" "\<forall>x. live m1 x = live m x"
    using insert_appends [of m xs e] by auto
  then obtain m' where "fold_opt (\<lambda>e m. insert_back m e) es m1 = Some m'" "inv m' ((xs @ [e]) @ es)"
    using Cons.IH [of m1 "xs @ [e]"] Cons.prems by auto
  then show ?case using m1(1) by simp
qed simp

lemma drain_all:
  "inv m xs \<Longrightarrow> \<exists>m'. drain front remove_front (length xs) m = Some (xs, m') \<and> inv m' []"
proof (induction xs arbitrary: m)
  case (Cons x xs)
  obtain m1 where "remove_front m = Some m1" "inv m1 xs" using remove_drops [OF Cons.prems] by blast
  moreover from this obtain m' where "drain front remove_front (length xs) m1 = Some (xs, m')" "inv m' []"
    using Cons.IH by blast
  ultimately show ?case using front_first [OF Cons.prems] by simp
qed simp

lemma first_in_first_out:
  assumes "inv m []" "distinct es" "\<forall>e \<in> set es. live m e"
  shows "\<exists>m1 m2. fold_opt (\<lambda>e m. insert_back m e) es m = Some m1 \<and>
    drain front remove_front (length es) m1 = Some (es, m2) \<and> inv m2 []"
  using insert_all [of m "[]" es] assms drain_all [of _ es] by fastforce

end

end
