(* ===== verification/Tail_Queue.thy ===== *)
theory Tail_Queue
  imports Queue_Links
begin

text \<open>
  The TAILQ family of \<^verbatim>\<open>server/queue.h\<close>: doubly-linked tail queues. Every macro is a function on queue
  memory; \<open>None\<close> is undefined behaviour. The tracing and checking macros inside expand to nothing in the
  configuration the repository builds. \<open>tailq m h xs\<close> says that the head at \<open>h\<close> holds the nodes \<open>xs\<close>.
\<close>

section \<open>The macros\<close>

definition TAILQ_FIRST :: "'a qmem \<Rightarrow> ptr \<Rightarrow> ptr option" where
  "TAILQ_FIRST m h = load m (HeadLink h)"

definition TAILQ_NEXT :: "'a qmem \<Rightarrow> ptr \<Rightarrow> ptr option" where
  "TAILQ_NEXT m elm = load m (NextLink elm)"

definition TAILQ_EMPTY :: "'a qmem \<Rightarrow> ptr \<Rightarrow> bool option" where
  "TAILQ_EMPTY m h = map_option (\<lambda>p. p = 0) (TAILQ_FIRST m h)"

definition TAILQ_INIT :: "'a qmem \<Rightarrow> ptr \<Rightarrow> 'a qmem option" where
  "TAILQ_INIT m h = do { m \<leftarrow> store m (HeadLink h) 0; put_last m h (HeadLink h) }"

definition TAILQ_LAST :: "'a qmem \<Rightarrow> ptr \<Rightarrow> ptr option" where
  "TAILQ_LAST m h = do { l \<leftarrow> get_last m h; k \<leftarrow> partner m l; load m k }"

definition TAILQ_PREV :: "'a qmem \<Rightarrow> ptr \<Rightarrow> ptr option" where
  "TAILQ_PREV m elm = do { l \<leftarrow> get_prev m elm; k \<leftarrow> partner m l; load m k }"

definition TAILQ_INSERT_HEAD :: "'a qmem \<Rightarrow> ptr \<Rightarrow> ptr \<Rightarrow> 'a qmem option" where
  "TAILQ_INSERT_HEAD m h elm =
     do {
       first \<leftarrow> TAILQ_FIRST m h;
       m \<leftarrow> store m (NextLink elm) first;
       m \<leftarrow> (if first \<noteq> 0
             then do { first \<leftarrow> TAILQ_FIRST m h; put_prev m first (NextLink elm) }
             else put_last m h (NextLink elm));
       m \<leftarrow> store m (HeadLink h) elm;
       put_prev m elm (HeadLink h)
     }"

definition TAILQ_INSERT_TAIL :: "'a qmem \<Rightarrow> ptr \<Rightarrow> ptr \<Rightarrow> 'a qmem option" where
  "TAILQ_INSERT_TAIL m h elm =
     do {
       m \<leftarrow> store m (NextLink elm) 0;
       l \<leftarrow> get_last m h;
       m \<leftarrow> put_prev m elm l;
       l \<leftarrow> get_last m h;
       m \<leftarrow> store m l elm;
       put_last m h (NextLink elm)
     }"

definition TAILQ_INSERT_AFTER :: "'a qmem \<Rightarrow> ptr \<Rightarrow> ptr \<Rightarrow> ptr \<Rightarrow> 'a qmem option" where
  "TAILQ_INSERT_AFTER m h listelm elm =
     do {
       q \<leftarrow> TAILQ_NEXT m listelm;
       m \<leftarrow> store m (NextLink elm) q;
       m \<leftarrow> (if q \<noteq> 0
             then do { q \<leftarrow> TAILQ_NEXT m elm; put_prev m q (NextLink elm) }
             else put_last m h (NextLink elm));
       m \<leftarrow> store m (NextLink listelm) elm;
       put_prev m elm (NextLink listelm)
     }"

definition TAILQ_INSERT_BEFORE :: "'a qmem \<Rightarrow> ptr \<Rightarrow> ptr \<Rightarrow> 'a qmem option" where
  "TAILQ_INSERT_BEFORE m listelm elm =
     do {
       l \<leftarrow> get_prev m listelm;
       m \<leftarrow> put_prev m elm l;
       m \<leftarrow> store m (NextLink elm) listelm;
       l \<leftarrow> get_prev m listelm;
       m \<leftarrow> store m l elm;
       put_prev m listelm (NextLink elm)
     }"

definition TAILQ_REMOVE :: "'a qmem \<Rightarrow> ptr \<Rightarrow> ptr \<Rightarrow> 'a qmem option" where
  "TAILQ_REMOVE m h elm =
     do {
       q \<leftarrow> TAILQ_NEXT m elm;
       m \<leftarrow> (if q \<noteq> 0
             then do { l \<leftarrow> get_prev m elm; put_prev m q l }
             else do { l \<leftarrow> get_prev m elm; put_last m h l });
       l \<leftarrow> get_prev m elm;
       q \<leftarrow> TAILQ_NEXT m elm;
       store m l q
     }"

definition TAILQ_CONCAT :: "'a qmem \<Rightarrow> ptr \<Rightarrow> ptr \<Rightarrow> 'a qmem option" where
  "TAILQ_CONCAT m head1 head2 =
     do {
       empty \<leftarrow> TAILQ_EMPTY m head2;
       if empty then Some m
       else do {
         l1 \<leftarrow> get_last m head1;
         f2 \<leftarrow> TAILQ_FIRST m head2;
         m \<leftarrow> store m l1 f2;
         f2 \<leftarrow> TAILQ_FIRST m head2;
         l1 \<leftarrow> get_last m head1;
         m \<leftarrow> put_prev m f2 l1;
         l2 \<leftarrow> get_last m head2;
         m \<leftarrow> put_last m head1 l2;
         TAILQ_INIT m head2
       }
     }"

text \<open>The second half of \<open>TAILQ_SWAP\<close>, once per head.\<close>

definition fix_first :: "'a qmem \<Rightarrow> ptr \<Rightarrow> 'a qmem option" where
  "fix_first m h =
     do {
       swap_first \<leftarrow> TAILQ_FIRST m h;
       if swap_first \<noteq> 0 then put_prev m swap_first (HeadLink h) else put_last m h (HeadLink h)
     }"

definition TAILQ_SWAP :: "'a qmem \<Rightarrow> ptr \<Rightarrow> ptr \<Rightarrow> 'a qmem option" where
  "TAILQ_SWAP m head1 head2 =
     do {
       swap_first \<leftarrow> TAILQ_FIRST m head1;
       swap_last \<leftarrow> get_last m head1;
       f2 \<leftarrow> TAILQ_FIRST m head2;
       m \<leftarrow> store m (HeadLink head1) f2;
       l2 \<leftarrow> get_last m head2;
       m \<leftarrow> put_last m head1 l2;
       m \<leftarrow> store m (HeadLink head2) swap_first;
       m \<leftarrow> put_last m head2 swap_last;
       m \<leftarrow> fix_first m head1;
       fix_first m head2
     }"

text \<open>The eight iteration macros over a program state that contains the queue memory.\<close>

definition TAILQ_FOREACH where
  "TAILQ_FOREACH mem h body s = do { var \<leftarrow> TAILQ_FIRST (mem s) h; walk (\<lambda>s. TAILQ_NEXT (mem s)) body var s }"

definition TAILQ_FOREACH_FROM where
  "TAILQ_FOREACH_FROM mem h body var s =
     do { var \<leftarrow> (if var \<noteq> 0 then Some var else TAILQ_FIRST (mem s) h); walk (\<lambda>s. TAILQ_NEXT (mem s)) body var s }"

definition TAILQ_FOREACH_SAFE where
  "TAILQ_FOREACH_SAFE mem h body s = do { var \<leftarrow> TAILQ_FIRST (mem s) h; walk_safe (\<lambda>s. TAILQ_NEXT (mem s)) body var s }"

definition TAILQ_FOREACH_FROM_SAFE where
  "TAILQ_FOREACH_FROM_SAFE mem h body var s =
     do { var \<leftarrow> (if var \<noteq> 0 then Some var else TAILQ_FIRST (mem s) h); walk_safe (\<lambda>s. TAILQ_NEXT (mem s)) body var s }"

definition TAILQ_FOREACH_REVERSE where
  "TAILQ_FOREACH_REVERSE mem h body s = do { var \<leftarrow> TAILQ_LAST (mem s) h; walk (\<lambda>s. TAILQ_PREV (mem s)) body var s }"

definition TAILQ_FOREACH_REVERSE_FROM where
  "TAILQ_FOREACH_REVERSE_FROM mem h body var s =
     do { var \<leftarrow> (if var \<noteq> 0 then Some var else TAILQ_LAST (mem s) h); walk (\<lambda>s. TAILQ_PREV (mem s)) body var s }"

definition TAILQ_FOREACH_REVERSE_SAFE where
  "TAILQ_FOREACH_REVERSE_SAFE mem h body s =
     do { var \<leftarrow> TAILQ_LAST (mem s) h; walk_safe (\<lambda>s. TAILQ_PREV (mem s)) body var s }"

definition TAILQ_FOREACH_REVERSE_FROM_SAFE where
  "TAILQ_FOREACH_REVERSE_FROM_SAFE mem h body var s =
     do { var \<leftarrow> (if var \<noteq> 0 then Some var else TAILQ_LAST (mem s) h); walk_safe (\<lambda>s. TAILQ_PREV (mem s)) body var s }"

section \<open>Memory and queue\<close>

definition tailq :: "'a qmem \<Rightarrow> ptr \<Rightarrow> ptr list \<Rightarrow> bool" where
  "tailq m h xs \<longleftrightarrow> linked True m h xs \<and> get_last m h = Some (endl (HeadLink h) xs)"

lemmas tailq_defs = tailq_def linked_def

lemma tailq_parts:
  assumes "tailq m h (as @ bs)" "k = endl (HeadLink h) as"
  shows "load m k = Some (if bs = [] then 0 else hd bs)" "get_last m h = Some (endl k bs)"
    "k = HeadLink h \<or> (\<exists>x \<in> set as. k = NextLink x)"
    "bs \<noteq> [] \<Longrightarrow> hd bs \<noteq> 0 \<and> get_prev m (hd bs) = Some k"
  using assms linked_parts [of True m h as bs k] by (simp_all add: tailq_def)

lemma tailq_init:
  assumes "get_last m h \<noteq> None"
  shows "\<exists>m'. TAILQ_INIT m h = Some m' \<and> tailq m' h [] \<and> unchanged m m' {} {h}"
proof -
  obtain l p where "get_last m h = Some l" "load m (HeadLink h) = Some p"
    using assms head_first [of m h] by blast
  then show ?thesis by (simp add: TAILQ_INIT_def tailq_defs unchanged_def qexec)
qed

text \<open>All insertions end in the same memory, whatever macro they are made with.\<close>

lemma tailq_insert_between:
  assumes t: "tailq m h (as @ bs)" and k: "k = endl (HeadLink h) as"
    and e: "elm \<noteq> 0" "elm \<notin> set (as @ bs)"
    and m': "load m' k = Some elm" "load m' (NextLink elm) = load m k" "get_prev m' elm = Some k"
      "\<forall>k'. k' \<noteq> k \<longrightarrow> k' \<noteq> NextLink elm \<longrightarrow> load m' k' = load m k'"
      "\<forall>x. x \<noteq> elm \<longrightarrow> (bs = [] \<or> x \<noteq> hd bs) \<longrightarrow> get_prev m' x = get_prev m x"
      "bs \<noteq> [] \<Longrightarrow> get_prev m' (hd bs) = Some (NextLink elm)"
      "get_last m' h = (if bs = [] then Some (NextLink elm) else get_last m h)"
  shows "tailq m' h (as @ elm # bs)"
proof -
  have "linked True m' h (as @ elm # bs)"
    by (rule linked_insert [of True m h as bs k]) (use t k e m' in \<open>simp_all add: tailq_def\<close>)
  moreover have "get_last m' h = Some (endl (HeadLink h) (as @ elm # bs))"
    using m'(7) tailq_parts(2) [OF t k] by (cases bs) (simp_all add: k)
  ultimately show ?thesis by (simp add: tailq_def)
qed

lemma tailq_insert_tail:
  assumes "tailq m h xs" "elm \<noteq> 0" "get_prev m elm \<noteq> None" "elm \<notin> set xs"
  shows "\<exists>m'. TAILQ_INSERT_TAIL m h elm = Some m' \<and> tailq m' h (xs @ [elm]) \<and>
    unchanged m m' (insert elm (set xs)) {h}"
proof -
  obtain k where k: "k = endl (HeadLink h) xs" by simp
  obtain u v where uv: "get_prev m elm = Some u" "load m (NextLink elm) = Some v"
    using assms(3) node_next [of m elm] by blast
  have parts: "load m k = Some 0" "get_last m h = Some k" "k = HeadLink h \<or> (\<exists>x \<in> set xs. k = NextLink x)"
    using tailq_parts(1-3) [of m h xs "[]" k] assms(1) k by simp_all
  have ke: "k \<noteq> NextLink elm" using parts(3) assms(4) k by auto
  let ?m = "upd_last (upd_link (upd_prev (upd_link m (NextLink elm) 0) elm k) k elm) h (NextLink elm)"
  have "TAILQ_INSERT_TAIL m h elm = Some ?m"
    using uv parts(1,2) ke by (simp add: TAILQ_INSERT_TAIL_def qexec)
  moreover have "tailq ?m h (xs @ elm # [])"
    using uv parts(1,2) ke assms(1,2,4) by (intro tailq_insert_between [of m h xs "[]" k]) (simp_all add: qexec k [symmetric])
  moreover have "unchanged m ?m (insert elm (set xs)) {h}"
    using parts(3) k by (auto simp: unchanged_def qexec)
  ultimately show ?thesis by blast
qed

lemma tailq_insert_head:
  assumes "tailq m h xs" "elm \<noteq> 0" "get_prev m elm \<noteq> None" "elm \<notin> set xs"
  shows "\<exists>m'. TAILQ_INSERT_HEAD m h elm = Some m' \<and> tailq m' h (elm # xs) \<and>
    unchanged m m' (insert elm (set xs)) {h}"
proof -
  obtain u v where uv: "get_prev m elm = Some u" "load m (NextLink elm) = Some v"
    using assms(3) node_next [of m elm] by blast
  note parts = tailq_parts(1,2,4) [of m h "[]" xs "HeadLink h", simplified, OF assms(1)]
  let ?m1 = "upd_link m (NextLink elm) (if xs = [] then 0 else hd xs)"
  let ?m2 = "if xs = [] then upd_last ?m1 h (NextLink elm) else upd_prev ?m1 (hd xs) (NextLink elm)"
  let ?m = "upd_prev (upd_link ?m2 (HeadLink h) elm) elm (HeadLink h)"
  have ne: "xs \<noteq> [] \<Longrightarrow> elm \<noteq> hd xs" using assms(4) by auto
  have "TAILQ_INSERT_HEAD m h elm = Some ?m"
    using uv parts ne by (simp add: TAILQ_INSERT_HEAD_def TAILQ_FIRST_def qexec)
  moreover have "tailq ?m h ([] @ elm # xs)"
    using uv parts ne assms(2,4)
    by (intro tailq_insert_between [of m h "[]" xs "HeadLink h"]) (simp_all add: qexec assms(1))
  moreover have "unchanged m ?m (insert elm (set xs)) {h}"
    by (auto simp: unchanged_def qexec)
  ultimately show ?thesis by auto
qed

lemma tailq_insert_after:
  assumes "tailq m h (as @ p # bs)" "elm \<noteq> 0" "get_prev m elm \<noteq> None" "elm \<notin> set (as @ p # bs)"
  shows "\<exists>m'. TAILQ_INSERT_AFTER m h p elm = Some m' \<and> tailq m' h (as @ p # elm # bs) \<and>
    unchanged m m' (insert elm (set (p # bs))) {h}"
proof -
  obtain u v where uv: "get_prev m elm = Some u" "load m (NextLink elm) = Some v"
    using assms(3) node_next [of m elm] by blast
  note parts = tailq_parts(1,2,4) [of m h "as @ [p]" bs "NextLink p", simplified, OF assms(1)]
  let ?m1 = "upd_link m (NextLink elm) (if bs = [] then 0 else hd bs)"
  let ?m2 = "if bs = [] then upd_last ?m1 h (NextLink elm) else upd_prev ?m1 (hd bs) (NextLink elm)"
  let ?m = "upd_prev (upd_link ?m2 (NextLink p) elm) elm (NextLink p)"
  have ne: "bs \<noteq> [] \<Longrightarrow> elm \<noteq> hd bs" "elm \<noteq> p" using assms(4) by auto
  have "TAILQ_INSERT_AFTER m h p elm = Some ?m"
    using uv parts ne by (simp add: TAILQ_INSERT_AFTER_def TAILQ_NEXT_def qexec)
  moreover have "tailq ?m h ((as @ [p]) @ elm # bs)"
    using uv parts ne assms(1,2,4)
    by (intro tailq_insert_between [of m h "as @ [p]" bs "NextLink p"]) (simp_all add: qexec)
  moreover have "unchanged m ?m (insert elm (set (p # bs))) {h}"
    by (auto simp: unchanged_def qexec)
  ultimately show ?thesis by auto
qed

lemma tailq_insert_before:
  assumes "tailq m h (as @ p # bs)" "elm \<noteq> 0" "get_prev m elm \<noteq> None" "elm \<notin> set (as @ p # bs)"
  shows "\<exists>m'. TAILQ_INSERT_BEFORE m p elm = Some m' \<and> tailq m' h (as @ elm # p # bs) \<and>
    unchanged m m' (insert elm (set (as @ [p]))) {h}"
proof -
  obtain u v where uv: "get_prev m elm = Some u" "load m (NextLink elm) = Some v"
    using assms(3) node_next [of m elm] by blast
  obtain k where k: "k = endl (HeadLink h) as" by simp
  note parts = tailq_parts [OF assms(1) k, simplified]
  let ?m = "upd_prev (upd_link (upd_link (upd_prev m elm k) (NextLink elm) p) k elm) p (NextLink elm)"
  have ne: "elm \<noteq> p" "k \<noteq> NextLink elm" using assms(4) parts(3) by auto
  have "TAILQ_INSERT_BEFORE m p elm = Some ?m"
    using uv parts ne by (simp add: TAILQ_INSERT_BEFORE_def qexec)
  moreover have "tailq ?m h (as @ elm # p # bs)"
    using uv parts ne assms(2,4)
    by (intro tailq_insert_between [OF assms(1) k]) (simp_all add: qexec)
  moreover have "unchanged m ?m (insert elm (set (as @ [p]))) {h}"
    using parts(3) by (auto simp: unchanged_def qexec)
  ultimately show ?thesis by blast
qed

lemma tailq_remove:
  assumes t: "tailq m h (as @ e # bs)"
  shows "\<exists>m'. TAILQ_REMOVE m h e = Some m' \<and> tailq m' h (as @ bs) \<and> unchanged m m' (set (as @ bs)) {h}"
proof -
  obtain k where k: "k = endl (HeadLink h) as" by simp
  note p1 = tailq_parts(1,3,4) [OF t k, simplified]
  note p2 = tailq_parts(1,2,4) [of m h "as @ [e]" bs "NextLink e", simplified, OF t]
  have l: "linked True m h (as @ e # bs)" using t by (simp add: tailq_def)
  have ke: "k \<noteq> NextLink e" "e \<notin> set bs" using p1(2) t by (auto simp: tailq_defs)
  let ?m1 = "if bs = [] then upd_last m h k else upd_prev m (hd bs) k"
  let ?m = "upd_link ?m1 k (if bs = [] then 0 else hd bs)"
  have he: "bs = [] \<or> hd bs \<noteq> e" using ke(2) by (cases bs) auto
  have "TAILQ_REMOVE m h e = Some ?m"
    using p1 p2 ke he by (simp add: TAILQ_REMOVE_def TAILQ_NEXT_def qexec)
  moreover have "linked True ?m h (as @ bs)"
    by (rule linked_remove [OF l k]) (use p1 p2 ke he in \<open>auto simp: qexec\<close>)
  then have "tailq ?m h (as @ bs)"
    using p2(2) by (cases bs) (simp_all add: tailq_def qexec k)
  moreover have "unchanged m ?m (set (as @ bs)) {h}"
    using p1(2) by (auto simp: unchanged_def qexec)
  ultimately show ?thesis by blast
qed

text \<open>Queues that change their head.\<close>

lemma tailq_moved:
  assumes "tailq m h ys" "load m' (HeadLink h') = Some (if ys = [] then 0 else hd ys)"
    and "ys \<noteq> [] \<Longrightarrow> get_prev m' (hd ys) = Some (HeadLink h')"
    and "\<forall>x \<in> set ys. load m' (NextLink x) = load m (NextLink x)"
    and "\<forall>x \<in> set ys. x \<noteq> hd ys \<longrightarrow> get_prev m' x = get_prev m x"
    and "get_last m' h' = Some (if ys = [] then HeadLink h' else endl (HeadLink h) ys)"
  shows "tailq m' h' ys"
proof -
  have "linked True m' h' ys"
    by (rule linked_moved [of True m h]) (use assms in \<open>auto simp: tailq_def\<close>)
  then show ?thesis using assms(6) by (cases ys) (simp_all add: tailq_def)
qed

lemma tailq_swap:
  assumes "tailq m h1 xs" "tailq m h2 ys" "h1 \<noteq> h2" "set xs \<inter> set ys = {}"
  shows "\<exists>m'. TAILQ_SWAP m h1 h2 = Some m' \<and> tailq m' h1 ys \<and> tailq m' h2 xs"
proof -
  note p1 = tailq_parts(1,2,4) [of m h1 "[]" xs "HeadLink h1", simplified, OF assms(1)]
  note p2 = tailq_parts(1,2,4) [of m h2 "[]" ys "HeadLink h2", simplified, OF assms(2)]
  let ?f1 = "if xs = [] then 0 else hd xs" and ?f2 = "if ys = [] then 0 else hd ys"
  let ?m1 = "upd_last (upd_link (upd_last (upd_link m (HeadLink h1) ?f2) h1 (endl (HeadLink h2) ys)) (HeadLink h2) ?f1)
    h2 (endl (HeadLink h1) xs)"
  let ?m2 = "if ys = [] then upd_last ?m1 h1 (HeadLink h1) else upd_prev ?m1 (hd ys) (HeadLink h1)"
  let ?m = "if xs = [] then upd_last ?m2 h2 (HeadLink h2) else upd_prev ?m2 (hd xs) (HeadLink h2)"
  have ne: "xs = [] \<or> ys = [] \<or> hd xs \<noteq> hd ys" using assms(4) hd_in_set by fastforce
  have hx: "\<And>x. x \<in> set xs \<Longrightarrow> (ys \<noteq> [] \<longrightarrow> x \<noteq> hd ys)"
    using assms(1,4) by (cases xs; cases ys) (auto simp: tailq_def)
  have hy: "\<And>x. x \<in> set ys \<Longrightarrow> (xs \<noteq> [] \<longrightarrow> x \<noteq> hd xs)"
    using assms(2,4) by (cases xs; cases ys) (auto simp: tailq_def)
  have "TAILQ_SWAP m h1 h2 = Some ?m"
    using p1 p2 assms(3) ne by (simp add: TAILQ_SWAP_def fix_first_def TAILQ_FIRST_def qexec)
  moreover have "tailq ?m h1 ys"
    by (rule tailq_moved [OF assms(2)]) (use p1 p2 assms(3) ne hy in \<open>auto simp: qexec\<close>)
  moreover have "tailq ?m h2 xs"
    by (rule tailq_moved [OF assms(1)]) (use p1 p2 assms(3) ne hx in \<open>auto simp: qexec\<close>)
  ultimately show ?thesis by blast
qed

lemma tailq_concat:
  assumes "tailq m h1 xs" "tailq m h2 ys" "h1 \<noteq> h2" "set xs \<inter> set ys = {}"
  shows "\<exists>m'. TAILQ_CONCAT m h1 h2 = Some m' \<and> tailq m' h1 (xs @ ys) \<and> tailq m' h2 []"
proof (cases ys)
  case Nil
  then show ?thesis using assms by (auto simp: TAILQ_CONCAT_def TAILQ_EMPTY_def TAILQ_FIRST_def tailq_defs)
next
  case (Cons y ys')
  obtain k where k: "k = endl (HeadLink h1) xs" by simp
  note p1 = tailq_parts(1,2,3) [of m h1 xs "[]", simplified, OF assms(1) k]
  note p2 = tailq_parts(1,2,4) [of m h2 "[]" ys "HeadLink h2", simplified, OF assms(2)]
  let ?m = "upd_last (upd_link (upd_last (upd_prev (upd_link m k y) y k) h1 (endl (HeadLink h2) ys)) (HeadLink h2) 0)
    h2 (HeadLink h2)"
  have ke: "k \<noteq> HeadLink h2" using p1(3) assms(3) by auto
  have "TAILQ_CONCAT m h1 h2 = Some ?m"
    using p1(1,2) p2 assms(3) ke Cons
    by (simp add: TAILQ_CONCAT_def TAILQ_EMPTY_def TAILQ_FIRST_def TAILQ_INIT_def qexec)
  moreover have "tailq ?m h2 []"
    using p2 ke assms(3) by (simp add: tailq_defs qexec)
  moreover have "linked True ?m h1 (xs @ y # ys')"
    by (rule linked_concat [of True m h1 xs h2 y ys' k])
      (use assms Cons k ke p1 p2 in \<open>simp_all add: tailq_def qexec\<close>)
  then have "tailq ?m h1 (xs @ ys)"
    using assms(3) p1(2) Cons by (simp add: tailq_def qexec)
  ultimately show ?thesis by blast
qed

section \<open>Reading a queue in both directions\<close>

lemma tailq_first: "tailq m h xs \<Longrightarrow> TAILQ_FIRST m h = Some (if xs = [] then 0 else hd xs)"
  using tailq_parts(1) [of m h "[]" xs "HeadLink h"] by (simp add: TAILQ_FIRST_def)

lemma tailq_last: "tailq m h xs \<Longrightarrow> TAILQ_LAST m h = Some (if xs = [] then 0 else last xs)"
  by (cases xs rule: rev_cases) (auto simp: TAILQ_LAST_def tailq_defs)

lemma tailq_prev:
  assumes "tailq m h (as @ p # bs)"
  shows "TAILQ_PREV m p = Some (if as = [] then 0 else last as)"
  using assms by (cases as rule: rev_cases) (auto simp: TAILQ_PREV_def tailq_defs)

lemma tailq_prev_steps:
  "tailq m h (as @ bs) \<Longrightarrow> steps (TAILQ_PREV m) (if as = [] then 0 else last as) (rev as)"
proof (induction as arbitrary: bs rule: rev_induct)
  case (snoc a as)
  have "TAILQ_PREV m a = Some (if as = [] then 0 else last as)" using snoc.prems by (intro tailq_prev) simp
  moreover have "a \<noteq> 0" using snoc.prems by (auto simp: tailq_defs)
  moreover have "steps (TAILQ_PREV m) (if as = [] then 0 else last as) (rev as)" using snoc by simp
  ultimately show ?case by simp
qed simp

lemma tailq_foreach:
  assumes "tailq (mem s) h xs" "\<And>x s. mem (f x s) = mem s"
  shows "TAILQ_FOREACH mem h (\<lambda>x s. Some (f x s, False)) s = Some (0, fold f xs s)"
proof -
  have "steps (TAILQ_NEXT (mem s)) (if xs = [] then 0 else hd xs) xs"
    using assms(1) tailq_first [OF assms(1)] seg_steps [of True "mem s" "HeadLink h" xs]
    by (simp add: tailq_defs TAILQ_NEXT_def [abs_def] TAILQ_FIRST_def)
  then show ?thesis
    unfolding TAILQ_FOREACH_def tailq_first [OF assms(1)] Option.bind.simps(2)
    by (rule walk_steps [of _ _ _ "\<lambda>t. mem t = mem s"]) (simp_all add: assms(2))
qed

lemma tailq_foreach_reverse:
  assumes "tailq (mem s) h xs" "\<And>x s. mem (f x s) = mem s"
  shows "TAILQ_FOREACH_REVERSE mem h (\<lambda>x s. Some (f x s, False)) s = Some (0, fold f (rev xs) s)"
  unfolding TAILQ_FOREACH_REVERSE_def tailq_last [OF assms(1)] Option.bind.simps(2)
  by (rule walk_steps [OF tailq_prev_steps [of "mem s" h xs "[]"], of "\<lambda>t. mem t = mem s"])
    (simp_all add: assms)

lemma tailq_collect:
  assumes "tailq m h xs"
  shows "TAILQ_FOREACH fst h collect (m, []) = Some (0, m, xs)"
    "TAILQ_FOREACH_REVERSE fst h collect (m, []) = Some (0, m, rev xs)"
  using tailq_foreach [of fst "(m, [])" h xs "\<lambda>x s. (fst s, snd s @ [x])"] tailq_foreach_reverse [of fst "(m, [])" h xs "\<lambda>x s. (fst s, snd s @ [x])"] assms
  by (simp_all add: collect_eq fold_collect)

section \<open>Removing while walking\<close>

text \<open>A loop body that unlinks the nodes chosen by \<open>P\<close>.\<close>

definition unlink_if :: "(ptr \<Rightarrow> bool) \<Rightarrow> ptr \<Rightarrow> ptr \<Rightarrow> 'a qmem \<Rightarrow> ('a qmem \<times> bool) option" where
  "unlink_if P h x m = (if P x then do { m \<leftarrow> TAILQ_REMOVE m h x; Some (m, False) } else Some (m, False))"

lemma walk_safe_unlink:
  "tailq m h (as @ bs) \<Longrightarrow>
   \<exists>m'. walk_safe (\<lambda>m. TAILQ_NEXT m) (unlink_if P h) (if bs = [] then 0 else hd bs) m = Some (0, m') \<and>
     tailq m' h (as @ filter (\<lambda>x. \<not> P x) bs) \<and> (\<forall>x. data_at m' x = data_at m x)"
proof (induction bs arbitrary: as m)
  case Nil
  then show ?case by (subst walk_safe.simps) simp
next
  case (Cons b bs)
  have b: "b \<noteq> 0" "TAILQ_NEXT m b = Some (if bs = [] then 0 else hd bs)"
    using Cons.prems tailq_parts(1) [of m h "as @ [b]" bs "NextLink b"] by (simp_all add: TAILQ_NEXT_def)
      (simp add: tailq_defs)
  show ?case
  proof (cases "P b")
    case True
    obtain m1 where m1: "TAILQ_REMOVE m h b = Some m1" "tailq m1 h (as @ bs)" "unchanged m m1 (set (as @ bs)) {h}"
      using tailq_remove [OF Cons.prems] by blast
    obtain m' where "walk_safe (\<lambda>m. TAILQ_NEXT m) (unlink_if P h) (if bs = [] then 0 else hd bs) m1 = Some (0, m')"
      "tailq m' h (as @ filter (\<lambda>x. \<not> P x) bs)" "\<forall>x. data_at m' x = data_at m1 x"
      using Cons.IH [OF m1(2)] by blast
    moreover have step: "unlink_if P h b m = Some (m1, False)" using m1(1) True by (simp add: unlink_if_def)
    ultimately show ?thesis using b m1(1,3) True
      by (subst walk_safe.simps) (simp add: step unchanged_def)
  next
    case False
    have "unlink_if P h b m = Some (m, False)" using False by (simp add: unlink_if_def)
    then show ?thesis using Cons.IH [of m "as @ [b]"] Cons.prems b False
      by (subst walk_safe.simps) simp
  qed
qed

section \<open>Queues as queues\<close>

definition take_first :: "ptr \<Rightarrow> 'a qmem \<Rightarrow> 'a qmem option" where
  "take_first h m = do { x \<leftarrow> TAILQ_FIRST m h; TAILQ_REMOVE m h x }"

interpretation tq: linked_queue "\<lambda>m. tailq m h" live "\<lambda>m. TAILQ_FIRST m h" "\<lambda>m. TAILQ_INSERT_TAIL m h" "take_first h"
  for h
proof
  show "\<And>m x xs. tailq m h (x # xs) \<Longrightarrow> TAILQ_FIRST m h = Some x" by (simp add: tailq_first)
  fix m xs e
  assume "tailq m h xs" "live m e" "e \<notin> set xs"
  then obtain m' where "TAILQ_INSERT_TAIL m h e = Some m'" "tailq m' h (xs @ [e])" "unchanged m m' (insert e (set xs)) {h}"
    using tailq_insert_tail [of m h xs e] live_prev [of m e] by blast
  then show "\<exists>m'. TAILQ_INSERT_TAIL m h e = Some m' \<and> tailq m' h (xs @ [e]) \<and> (\<forall>x. live m' x = live m x)"
    using unchanged_same_live by blast
next
  show "\<And>m x xs. tailq m h (x # xs) \<Longrightarrow>
    \<exists>m'. take_first h m = Some m' \<and> tailq m' h xs \<and> (\<forall>y. live m' y = live m y)"
    using tailq_remove [of _ h "[]"] unchanged_same_live by (fastforce simp: take_first_def tailq_first)
qed

section \<open>Any sequence of operations\<close>

fun tq_step :: "ptr \<Rightarrow> list_op \<Rightarrow> 'a qmem \<Rightarrow> 'a qmem option" where
  "tq_step h (InsertHead e) m = TAILQ_INSERT_HEAD m h e"
| "tq_step h (InsertTail e) m = TAILQ_INSERT_TAIL m h e"
| "tq_step h (InsertAfter p e) m = TAILQ_INSERT_AFTER m h p e"
| "tq_step h (InsertBefore p e) m = TAILQ_INSERT_BEFORE m p e"
| "tq_step h (Remove e) m = TAILQ_REMOVE m h e"

lemma tq_step_refines:
  assumes "tailq m h xs" "list_step op xs = Some ys" "live m (node_of op)"
  shows "\<exists>m'. tq_step h op m = Some m' \<and> tailq m' h ys \<and> (\<forall>x. data_at m' x = data_at m x)"
proof (cases op)
  case (InsertHead e)
  then show ?thesis using assms tailq_insert_head [of m h xs e] live_prev [of m e]
    by (auto simp: unchanged_def split: if_splits)
next
  case (InsertTail e)
  then show ?thesis using assms tailq_insert_tail [of m h xs e] live_prev [of m e]
    by (auto simp: unchanged_def split: if_splits)
next
  case (InsertAfter p e)
  then obtain as bs where xs: "xs = as @ p # bs" "p \<notin> set as"
    using assms(2) by (auto split: if_splits dest: split_list_first)
  show ?thesis
    using assms InsertAfter xs tailq_insert_after [of m h as p bs e] live_prev [of m e]
    by (auto simp: unchanged_def insert_at_split split: if_splits)
next
  case (InsertBefore p e)
  then obtain as bs where xs: "xs = as @ p # bs" "p \<notin> set as"
    using assms(2) by (auto split: if_splits dest: split_list_first)
  show ?thesis
    using assms InsertBefore xs tailq_insert_before [of m h as p bs e] live_prev [of m e]
    by (auto simp: unchanged_def insert_at_split split: if_splits)
next
  case (Remove e)
  then obtain as bs where xs: "xs = as @ e # bs" "e \<notin> set as"
    using assms(2) by (auto split: if_splits dest: split_list_first)
  show ?thesis
    using assms Remove xs tailq_remove [of m h as e bs]
    by (auto simp: unchanged_def remove1_append split: if_splits)
qed

interpretation tq_ops: list_operations "\<lambda>m. m" "\<lambda>m. tailq m h" "\<lambda>op. True" "tq_step h" for h
  by standard (rule tq_step_refines)

section \<open>Properties\<close>

text \<open>C23. A tail queue behaves as a list under every sequence of insertions at its ends and next to
  nodes, and removals: the macros never leave the memory, the forward walk finds exactly the nodes of the
  list in order, the backward walk finds them in the opposite order, and no node's data changes.\<close>

theorem tailq_refines_list:
  assumes "get_last m h \<noteq> None" "fold_opt list_step ops [] = Some ys" "\<forall>op \<in> set ops. live m (node_of op)"
  shows "\<exists>m0 m'. TAILQ_INIT m h = Some m0 \<and> fold_opt (tq_step h) ops m0 = Some m' \<and>
    TAILQ_FOREACH fst h collect (m', []) = Some (0, m', ys) \<and>
    TAILQ_FOREACH_REVERSE fst h collect (m', []) = Some (0, m', rev ys) \<and>
    (\<forall>x. data_at m' x = data_at m x)"
proof -
  obtain m0 where m0: "TAILQ_INIT m h = Some m0" "tailq m0 h []" "unchanged m m0 {} {h}"
    using tailq_init [OF assms(1)] by blast
  then have "\<forall>op \<in> set ops. live m0 (node_of op)" using assms(3) by (auto dest: unchanged_same_live)
  then obtain m' where m': "fold_opt (tq_step h) ops m0 = Some m'" "tailq m' h ys" "\<forall>x. data_at m' x = data_at m0 x"
    using tq_ops.run_refines [OF m0(2) assms(2)] by auto
  then show ?thesis
    using m0(1,3) tailq_collect [OF m'(2)] by (auto simp: unchanged_def)
qed

text \<open>Three nodes and a head that nobody has set up.\<close>

definition raw_queue :: "nat qmem" where
  "raw_queue = \<lparr>qnodes = [10 \<mapsto> \<lparr>q_data = 1, q_next = 99, q_prev = HeadLink 98\<rparr>,
       20 \<mapsto> \<lparr>q_data = 2, q_next = 99, q_prev = HeadLink 98\<rparr>, 30 \<mapsto> \<lparr>q_data = 3, q_next = 99, q_prev = HeadLink 98\<rparr>],
     qheads = [5 \<mapsto> \<lparr>q_first = 97, q_last = NextLink 96\<rparr>]\<rparr>"

theorem tailq_refines_list_witness:
  "\<exists>m0 m'. TAILQ_INIT raw_queue 5 = Some m0 \<and>
    fold_opt (tq_step 5) [InsertTail 10, InsertHead 20, InsertBefore 10 30, Remove 20] m0 = Some m' \<and>
    TAILQ_FOREACH_REVERSE fst 5 collect (m', []) = Some (0, m', [10, 30])"
proof -
  have "get_last raw_queue 5 \<noteq> None" "\<forall>op \<in> {InsertTail 10, InsertHead 20, InsertBefore 10 30, Remove 20}. live raw_queue (node_of op)"
    by (simp_all add: raw_queue_def get_last_def live_def data_at_def)
  with tailq_refines_list [of raw_queue 5 "[InsertTail 10, InsertHead 20, InsertBefore 10 30, Remove 20]" "[30, 10]"]
  show ?thesis by auto
qed

text \<open>A walk with \<open>TAILQ_FOREACH_SAFE\<close> may unlink the node it stands on: whatever nodes the body
  chooses, the loop ends, exactly those nodes leave the queue, and the others keep their order.\<close>

theorem tailq_foreach_safe_unlinks:
  assumes "tailq m h xs"
  shows "\<exists>m'. TAILQ_FOREACH_SAFE (\<lambda>m. m) h (unlink_if P h) m = Some (0, m') \<and>
    tailq m' h (filter (\<lambda>x. \<not> P x) xs)"
  using walk_safe_unlink [of m h "[]" xs P] assms unfolding TAILQ_FOREACH_SAFE_def tailq_first [OF assms] by auto

definition pair_queue :: "nat qmem" where
  "pair_queue = \<lparr>qnodes = [10 \<mapsto> \<lparr>q_data = 1, q_next = 20, q_prev = HeadLink 5\<rparr>,
       20 \<mapsto> \<lparr>q_data = 2, q_next = 0, q_prev = NextLink 10\<rparr>],
     qheads = [5 \<mapsto> \<lparr>q_first = 10, q_last = NextLink 20\<rparr>]\<rparr>"

theorem tailq_foreach_safe_unlinks_witness:
  "\<exists>m'. TAILQ_FOREACH_SAFE (\<lambda>m. m) 5 (unlink_if (\<lambda>x. x = 10) 5) pair_queue = Some (0, m') \<and> tailq m' 5 [20]"
proof -
  have "tailq pair_queue 5 [10, 20]"
    by (simp add: tailq_defs pair_queue_def load.simps get_prev_def get_last_def)
  from tailq_foreach_safe_unlinks [OF this, of "\<lambda>x. x = 10"] show ?thesis by simp
qed

end
