(* ===== verification/Stail_Queue.thy ===== *)
theory Stail_Queue
  imports Queue_Links
begin

text \<open>
  The STAILQ family of \<^verbatim>\<open>server/queue.h\<close>: singly-linked tail queues. Nodes have a next pointer only (the
  previous link of the node record is not used), the head also knows the link behind the last node.
  \<open>stailq m h xs\<close> says that the head at \<open>h\<close> holds the nodes \<open>xs\<close>.
\<close>

section \<open>The macros\<close>

definition STAILQ_FIRST :: "'a qmem \<Rightarrow> ptr \<Rightarrow> ptr option" where
  "STAILQ_FIRST m h = load m (HeadLink h)"

definition STAILQ_NEXT :: "'a qmem \<Rightarrow> ptr \<Rightarrow> ptr option" where
  "STAILQ_NEXT m elm = load m (NextLink elm)"

definition STAILQ_EMPTY :: "'a qmem \<Rightarrow> ptr \<Rightarrow> bool option" where
  "STAILQ_EMPTY m h = map_option (\<lambda>p. p = 0) (STAILQ_FIRST m h)"

definition STAILQ_INIT :: "'a qmem \<Rightarrow> ptr \<Rightarrow> 'a qmem option" where
  "STAILQ_INIT m h = do { m \<leftarrow> store m (HeadLink h) 0; put_last m h (HeadLink h) }"

definition STAILQ_CONCAT :: "'a qmem \<Rightarrow> ptr \<Rightarrow> ptr \<Rightarrow> 'a qmem option" where
  "STAILQ_CONCAT m head1 head2 =
     do {
       empty \<leftarrow> STAILQ_EMPTY m head2;
       if empty then Some m
       else do {
         l1 \<leftarrow> get_last m head1;
         f2 \<leftarrow> STAILQ_FIRST m head2;
         m \<leftarrow> store m l1 f2;
         l2 \<leftarrow> get_last m head2;
         m \<leftarrow> put_last m head1 l2;
         STAILQ_INIT m head2
       }
     }"

definition STAILQ_INSERT_AFTER :: "'a qmem \<Rightarrow> ptr \<Rightarrow> ptr \<Rightarrow> ptr \<Rightarrow> 'a qmem option" where
  "STAILQ_INSERT_AFTER m h tqelm elm =
     do {
       q \<leftarrow> STAILQ_NEXT m tqelm;
       m \<leftarrow> store m (NextLink elm) q;
       m \<leftarrow> (if q = 0 then put_last m h (NextLink elm) else Some m);
       store m (NextLink tqelm) elm
     }"

definition STAILQ_INSERT_HEAD :: "'a qmem \<Rightarrow> ptr \<Rightarrow> ptr \<Rightarrow> 'a qmem option" where
  "STAILQ_INSERT_HEAD m h elm =
     do {
       first \<leftarrow> STAILQ_FIRST m h;
       m \<leftarrow> store m (NextLink elm) first;
       m \<leftarrow> (if first = 0 then put_last m h (NextLink elm) else Some m);
       store m (HeadLink h) elm
     }"

definition STAILQ_INSERT_TAIL :: "'a qmem \<Rightarrow> ptr \<Rightarrow> ptr \<Rightarrow> 'a qmem option" where
  "STAILQ_INSERT_TAIL m h elm =
     do {
       m \<leftarrow> store m (NextLink elm) 0;
       l \<leftarrow> get_last m h;
       m \<leftarrow> store m l elm;
       put_last m h (NextLink elm)
     }"

text \<open>The element whose next field is the last link; a last link that is the head of a non-empty queue
  does not belong to an element.\<close>

definition STAILQ_LAST :: "'a qmem \<Rightarrow> ptr \<Rightarrow> ptr option" where
  "STAILQ_LAST m h =
     do {
       empty \<leftarrow> STAILQ_EMPTY m h;
       if empty then Some 0
       else do { l \<leftarrow> get_last m h; (case l of NextLink x \<Rightarrow> Some x | HeadLink h' \<Rightarrow> None) }
     }"

definition STAILQ_REMOVE_AFTER :: "'a qmem \<Rightarrow> ptr \<Rightarrow> ptr \<Rightarrow> 'a qmem option" where
  "STAILQ_REMOVE_AFTER m h elm =
     do {
       q \<leftarrow> STAILQ_NEXT m elm;
       r \<leftarrow> STAILQ_NEXT m q;
       m \<leftarrow> store m (NextLink elm) r;
       if r = 0 then put_last m h (NextLink elm) else Some m
     }"

definition STAILQ_REMOVE_HEAD :: "'a qmem \<Rightarrow> ptr \<Rightarrow> 'a qmem option" where
  "STAILQ_REMOVE_HEAD m h =
     do {
       first \<leftarrow> STAILQ_FIRST m h;
       r \<leftarrow> STAILQ_NEXT m first;
       m \<leftarrow> store m (HeadLink h) r;
       if r = 0 then put_last m h (HeadLink h) else Some m
     }"

partial_function (option) stailq_search :: "'a qmem \<Rightarrow> ptr \<Rightarrow> ptr \<Rightarrow> ptr option" where
  "stailq_search m elm curelm =
     do { q \<leftarrow> STAILQ_NEXT m curelm; if q \<noteq> elm then stailq_search m elm q else Some curelm }"

definition STAILQ_REMOVE :: "'a qmem \<Rightarrow> ptr \<Rightarrow> ptr \<Rightarrow> 'a qmem option" where
  "STAILQ_REMOVE m h elm =
     do {
       first \<leftarrow> STAILQ_FIRST m h;
       if first = elm then STAILQ_REMOVE_HEAD m h
       else do { curelm \<leftarrow> stailq_search m elm first; STAILQ_REMOVE_AFTER m h curelm }
     }"

definition STAILQ_SWAP :: "'a qmem \<Rightarrow> ptr \<Rightarrow> ptr \<Rightarrow> 'a qmem option" where
  "STAILQ_SWAP m head1 head2 =
     do {
       swap_first \<leftarrow> STAILQ_FIRST m head1;
       swap_last \<leftarrow> get_last m head1;
       f2 \<leftarrow> STAILQ_FIRST m head2;
       m \<leftarrow> store m (HeadLink head1) f2;
       l2 \<leftarrow> get_last m head2;
       m \<leftarrow> put_last m head1 l2;
       m \<leftarrow> store m (HeadLink head2) swap_first;
       m \<leftarrow> put_last m head2 swap_last;
       empty1 \<leftarrow> STAILQ_EMPTY m head1;
       m \<leftarrow> (if empty1 then put_last m head1 (HeadLink head1) else Some m);
       empty2 \<leftarrow> STAILQ_EMPTY m head2;
       if empty2 then put_last m head2 (HeadLink head2) else Some m
     }"

definition STAILQ_FOREACH where
  "STAILQ_FOREACH mem h body s = do { var \<leftarrow> STAILQ_FIRST (mem s) h; walk (\<lambda>s. STAILQ_NEXT (mem s)) body var s }"

definition STAILQ_FOREACH_FROM where
  "STAILQ_FOREACH_FROM mem h body var s =
     do { var \<leftarrow> (if var \<noteq> 0 then Some var else STAILQ_FIRST (mem s) h); walk (\<lambda>s. STAILQ_NEXT (mem s)) body var s }"

definition STAILQ_FOREACH_SAFE where
  "STAILQ_FOREACH_SAFE mem h body s = do { var \<leftarrow> STAILQ_FIRST (mem s) h; walk_safe (\<lambda>s. STAILQ_NEXT (mem s)) body var s }"

definition STAILQ_FOREACH_FROM_SAFE where
  "STAILQ_FOREACH_FROM_SAFE mem h body var s =
     do { var \<leftarrow> (if var \<noteq> 0 then Some var else STAILQ_FIRST (mem s) h); walk_safe (\<lambda>s. STAILQ_NEXT (mem s)) body var s }"

section \<open>Memory and queue\<close>

definition stailq :: "'a qmem \<Rightarrow> ptr \<Rightarrow> ptr list \<Rightarrow> bool" where
  "stailq m h xs \<longleftrightarrow> linked False m h xs \<and> get_last m h = Some (endl (HeadLink h) xs)"

lemmas stailq_defs = stailq_def linked_def

lemma stailq_parts:
  assumes "stailq m h (as @ bs)" "k = endl (HeadLink h) as"
  shows "load m k = Some (if bs = [] then 0 else hd bs)" "get_last m h = Some (endl k bs)"
    "k = HeadLink h \<or> (\<exists>x \<in> set as. k = NextLink x)"
  using assms linked_parts [of False m h as bs k] by (simp_all add: stailq_def)

lemma stailq_init:
  assumes "get_last m h \<noteq> None"
  shows "\<exists>m'. STAILQ_INIT m h = Some m' \<and> stailq m' h [] \<and> unchanged m m' {} {h}"
proof -
  obtain l p where "get_last m h = Some l" "load m (HeadLink h) = Some p"
    using assms head_first [of m h] by blast
  then show ?thesis by (simp add: STAILQ_INIT_def stailq_defs unchanged_def qexec)
qed

lemma stailq_insert_between:
  assumes t: "stailq m h (as @ bs)" and k: "k = endl (HeadLink h) as"
    and e: "elm \<noteq> 0" "elm \<notin> set (as @ bs)" "get_prev m elm \<noteq> None"
    and m': "load m' k = Some elm" "load m' (NextLink elm) = load m k"
      "\<forall>k'. k' \<noteq> k \<longrightarrow> k' \<noteq> NextLink elm \<longrightarrow> load m' k' = load m k'" "\<forall>x. get_prev m' x = get_prev m x"
      "get_last m' h = (if bs = [] then Some (NextLink elm) else get_last m h)"
  shows "stailq m' h (as @ elm # bs)"
proof -
  have "linked False m' h (as @ elm # bs)"
    by (rule linked_insert [of False m h as bs k]) (use t k e m' in \<open>simp_all add: stailq_def\<close>)
  moreover have "get_last m' h = Some (endl (HeadLink h) (as @ elm # bs))"
    using m'(5) stailq_parts(2) [OF t k] by (cases bs) (simp_all add: k)
  ultimately show ?thesis by (simp add: stailq_def)
qed

lemma stailq_insert_head:
  assumes "stailq m h xs" "elm \<noteq> 0" "get_prev m elm \<noteq> None" "elm \<notin> set xs"
  shows "\<exists>m'. STAILQ_INSERT_HEAD m h elm = Some m' \<and> stailq m' h (elm # xs) \<and> unchanged m m' (insert elm (set xs)) {h}"
proof -
  obtain u v where uv: "get_prev m elm = Some u" "load m (NextLink elm) = Some v"
    using assms(3) node_next [of m elm] by blast
  note parts = stailq_parts(1,2) [of m h "[]" xs "HeadLink h", simplified, OF assms(1)]
  let ?m1 = "upd_link m (NextLink elm) (if xs = [] then 0 else hd xs)"
  let ?m = "upd_link (if xs = [] then upd_last ?m1 h (NextLink elm) else ?m1) (HeadLink h) elm"
  have nz: "xs \<noteq> [] \<Longrightarrow> hd xs \<noteq> 0" using assms(1) by (cases xs) (auto simp: stailq_defs)
  have "STAILQ_INSERT_HEAD m h elm = Some ?m"
    using uv parts nz by (simp add: STAILQ_INSERT_HEAD_def STAILQ_FIRST_def qexec)
  moreover have "stailq ?m h ([] @ elm # xs)"
    using uv parts assms(1,2,4)
    by (intro stailq_insert_between [of m h "[]" xs "HeadLink h"]) (simp_all add: qexec)
  moreover have "unchanged m ?m (insert elm (set xs)) {h}"
    by (auto simp: unchanged_def qexec)
  ultimately show ?thesis by auto
qed

lemma stailq_insert_tail:
  assumes "stailq m h xs" "elm \<noteq> 0" "get_prev m elm \<noteq> None" "elm \<notin> set xs"
  shows "\<exists>m'. STAILQ_INSERT_TAIL m h elm = Some m' \<and> stailq m' h (xs @ [elm]) \<and> unchanged m m' (insert elm (set xs)) {h}"
proof -
  obtain k where k: "k = endl (HeadLink h) xs" by simp
  obtain u v where uv: "get_prev m elm = Some u" "load m (NextLink elm) = Some v"
    using assms(3) node_next [of m elm] by blast
  have parts: "load m k = Some 0" "get_last m h = Some k" "k = HeadLink h \<or> (\<exists>x \<in> set xs. k = NextLink x)"
    using stailq_parts(1-3) [of m h xs "[]" k] assms(1) k by simp_all
  have ke: "k \<noteq> NextLink elm" using parts(3) assms(4) by auto
  let ?m = "upd_last (upd_link (upd_link m (NextLink elm) 0) k elm) h (NextLink elm)"
  have "STAILQ_INSERT_TAIL m h elm = Some ?m"
    using uv parts(1,2) ke by (simp add: STAILQ_INSERT_TAIL_def qexec)
  moreover have "stailq ?m h (xs @ elm # [])"
    using uv parts(1,2) ke assms(1,2,4) by (intro stailq_insert_between [of m h xs "[]" k]) (simp_all add: qexec k [symmetric])
  moreover have "unchanged m ?m (insert elm (set xs)) {h}"
    using parts(3) by (auto simp: unchanged_def qexec)
  ultimately show ?thesis by blast
qed

lemma stailq_insert_after:
  assumes "stailq m h (as @ p # bs)" "elm \<noteq> 0" "get_prev m elm \<noteq> None" "elm \<notin> set (as @ p # bs)"
  shows "\<exists>m'. STAILQ_INSERT_AFTER m h p elm = Some m' \<and> stailq m' h (as @ p # elm # bs) \<and>
    unchanged m m' (insert elm (set (p # bs))) {h}"
proof -
  obtain u v where uv: "get_prev m elm = Some u" "load m (NextLink elm) = Some v"
    using assms(3) node_next [of m elm] by blast
  note parts = stailq_parts(1,2) [of m h "as @ [p]" bs "NextLink p", simplified, OF assms(1)]
  let ?m1 = "upd_link m (NextLink elm) (if bs = [] then 0 else hd bs)"
  let ?m = "upd_link (if bs = [] then upd_last ?m1 h (NextLink elm) else ?m1) (NextLink p) elm"
  have ne: "elm \<noteq> p" "bs \<noteq> [] \<Longrightarrow> hd bs \<noteq> 0" using assms by (cases bs; auto simp: stailq_defs)+
  have "STAILQ_INSERT_AFTER m h p elm = Some ?m"
    using uv parts ne by (simp add: STAILQ_INSERT_AFTER_def STAILQ_NEXT_def qexec)
  moreover have "stailq ?m h ((as @ [p]) @ elm # bs)"
    using uv parts ne assms(1,2,4)
    by (intro stailq_insert_between [of m h "as @ [p]" bs "NextLink p"]) (simp_all add: qexec)
  moreover have "unchanged m ?m (insert elm (set (p # bs))) {h}"
    by (auto simp: unchanged_def qexec)
  ultimately show ?thesis by auto
qed

text \<open>Both ways of removing end in the same memory.\<close>

lemma stailq_remove_between:
  assumes t: "stailq m h (as @ e # bs)" and k: "k = endl (HeadLink h) as"
    and m': "m' = (let m1 = upd_link m k (if bs = [] then 0 else hd bs) in if bs = [] then upd_last m1 h k else m1)"
  shows "stailq m' h (as @ bs)" "unchanged m m' (set as) {h}"
proof -
  note p1 = stailq_parts(1,3) [OF t k]
  note p2 = stailq_parts(1,2) [of m h "as @ [e]" bs "NextLink e", simplified, OF t]
  have l: "linked False m h (as @ e # bs)" using t by (simp add: stailq_def)
  have ke: "k \<noteq> NextLink e" using p1(2) t by (auto simp: stailq_defs)
  have "linked False m' h (as @ bs)"
    by (rule linked_remove [OF l k]) (use p1(1) p2 ke in \<open>auto simp: m' qexec\<close>)
  then show "stailq m' h (as @ bs)"
    using p2(2) by (cases bs) (simp_all add: stailq_def qexec k m')
  show "unchanged m m' (set as) {h}"
    using p1(2) by (auto simp: unchanged_def qexec m')
qed

lemma stailq_remove_head:
  assumes t: "stailq m h (e # bs)"
  shows "\<exists>m'. STAILQ_REMOVE_HEAD m h = Some m' \<and> stailq m' h bs \<and> unchanged m m' {} {h}"
proof -
  note p1 = stailq_parts(1,2) [of m h "[]" "e # bs" "HeadLink h", simplified, OF t]
  note p2 = stailq_parts(1) [of m h "[e]" bs "NextLink e", simplified, OF t]
  have nz: "bs \<noteq> [] \<Longrightarrow> hd bs \<noteq> 0" using t by (cases bs) (auto simp: stailq_defs)
  let ?m1 = "upd_link m (HeadLink h) (if bs = [] then 0 else hd bs)"
  let ?m = "if bs = [] then upd_last ?m1 h (HeadLink h) else ?m1"
  have "STAILQ_REMOVE_HEAD m h = Some ?m"
    using p1 p2 nz by (simp add: STAILQ_REMOVE_HEAD_def STAILQ_FIRST_def STAILQ_NEXT_def qexec)
  then show ?thesis
    using stailq_remove_between [of m h "[]" e bs "HeadLink h" ?m] t by (auto simp: Let_def)
qed

lemma stailq_remove_after:
  assumes t: "stailq m h (as @ p # e # bs)"
  shows "\<exists>m'. STAILQ_REMOVE_AFTER m h p = Some m' \<and> stailq m' h (as @ p # bs) \<and> unchanged m m' (set (as @ [p])) {h}"
proof -
  note p1 = stailq_parts(1,2) [of m h "as @ [p]" "e # bs" "NextLink p", simplified, OF t]
  note p2 = stailq_parts(1) [of m h "as @ [p, e]" bs "NextLink e", simplified, OF t]
  have nz: "bs \<noteq> [] \<Longrightarrow> hd bs \<noteq> 0" using t by (cases bs) (auto simp: stailq_defs)
  let ?m1 = "upd_link m (NextLink p) (if bs = [] then 0 else hd bs)"
  let ?m = "if bs = [] then upd_last ?m1 h (NextLink p) else ?m1"
  have "STAILQ_REMOVE_AFTER m h p = Some ?m"
    using p1 p2 nz by (simp add: STAILQ_REMOVE_AFTER_def STAILQ_NEXT_def qexec)
  then show ?thesis
    using stailq_remove_between [of m h "as @ [p]" e bs "NextLink p" ?m] t by (auto simp: Let_def)
qed

lemma stailq_search_finds:
  "seg False m l (ys @ p # e # cs) \<Longrightarrow> e \<notin> set ys \<Longrightarrow> e \<noteq> p \<Longrightarrow> get_prev m p \<noteq> None \<Longrightarrow>
   stailq_search m e (hd (ys @ [p])) = Some p"
proof (induction ys arbitrary: l)
  case Nil
  then show ?case by (subst stailq_search.simps) (simp add: STAILQ_NEXT_def)
next
  case (Cons y ys)
  have "load m (NextLink y) = Some (hd (ys @ [p]))" "hd (ys @ [p]) \<noteq> e"
    using Cons.prems by (cases ys; auto)+
  then show ?case using Cons.IH [of "NextLink y"] Cons.prems
    by (subst stailq_search.simps) (simp add: STAILQ_NEXT_def)
qed

lemma stailq_remove:
  assumes t: "stailq m h (as @ e # bs)"
  shows "\<exists>m'. STAILQ_REMOVE m h e = Some m' \<and> stailq m' h (as @ bs) \<and> unchanged m m' (set as) {h}"
proof (cases as rule: rev_cases)
  case Nil
  then show ?thesis
    using t stailq_remove_head [of m h e bs] stailq_parts(1) [of m h "[]" "e # bs" "HeadLink h"]
    by (simp add: STAILQ_REMOVE_def STAILQ_FIRST_def)
next
  case (snoc ys p)
  have first: "STAILQ_FIRST m h = Some (hd (ys @ [p]))"
    using stailq_parts(1) [of m h "[]" "ys @ p # e # bs" "HeadLink h"] t snoc
    by (cases ys) (simp_all add: STAILQ_FIRST_def)
  have "e \<noteq> hd (ys @ [p])" using t snoc by (cases ys) (auto simp: stailq_defs)
  moreover have "stailq_search m e (hd (ys @ [p])) = Some p"
    using t snoc by (intro stailq_search_finds [of m "HeadLink h" ys p e bs]) (auto simp: stailq_defs)
  ultimately show ?thesis
    using stailq_remove_after [of m h ys p e bs] t snoc first by (auto simp: STAILQ_REMOVE_def)
qed

section \<open>Two queues\<close>

lemma stailq_concat:
  assumes "stailq m h1 xs" "stailq m h2 ys" "h1 \<noteq> h2" "set xs \<inter> set ys = {}"
  shows "\<exists>m'. STAILQ_CONCAT m h1 h2 = Some m' \<and> stailq m' h1 (xs @ ys) \<and> stailq m' h2 []"
proof (cases ys)
  case Nil
  then show ?thesis using assms by (auto simp: STAILQ_CONCAT_def STAILQ_EMPTY_def STAILQ_FIRST_def stailq_defs)
next
  case (Cons y ys')
  obtain k where k: "k = endl (HeadLink h1) xs" by simp
  note p1 = stailq_parts(1,2,3) [of m h1 xs "[]", simplified, OF assms(1) k]
  note p2 = stailq_parts(1,2) [of m h2 "[]" ys "HeadLink h2", simplified, OF assms(2)]
  have nz: "y \<noteq> 0" using assms(2) Cons by (auto simp: stailq_defs)
  let ?m = "upd_last (upd_link (upd_last (upd_link m k y) h1 (endl (HeadLink h2) ys)) (HeadLink h2) 0) h2 (HeadLink h2)"
  have ke: "k \<noteq> HeadLink h2" using p1(3) assms(3) by auto
  have "STAILQ_CONCAT m h1 h2 = Some ?m"
    using p1(1,2) p2 assms(3) ke Cons nz
    by (simp add: STAILQ_CONCAT_def STAILQ_EMPTY_def STAILQ_FIRST_def STAILQ_INIT_def qexec)
  moreover have "stailq ?m h2 []"
    using p2 ke assms(3) by (simp add: stailq_defs qexec)
  moreover have "linked False ?m h1 (xs @ y # ys')"
    by (rule linked_concat [of False m h1 xs h2 y ys' k])
      (use assms Cons k ke p1 p2 in \<open>simp_all add: stailq_def qexec\<close>)
  then have "stailq ?m h1 (xs @ ys)"
    using assms(3) p1(2) Cons by (simp add: stailq_def qexec)
  ultimately show ?thesis by blast
qed

lemma stailq_swap:
  assumes "stailq m h1 xs" "stailq m h2 ys" "h1 \<noteq> h2" "set xs \<inter> set ys = {}"
  shows "\<exists>m'. STAILQ_SWAP m h1 h2 = Some m' \<and> stailq m' h1 ys \<and> stailq m' h2 xs"
proof -
  note p1 = stailq_parts(1,2) [of m h1 "[]" xs "HeadLink h1", simplified, OF assms(1)]
  note p2 = stailq_parts(1,2) [of m h2 "[]" ys "HeadLink h2", simplified, OF assms(2)]
  let ?f1 = "if xs = [] then 0 else hd xs" and ?f2 = "if ys = [] then 0 else hd ys"
  let ?m1 = "upd_last (upd_link (upd_last (upd_link m (HeadLink h1) ?f2) h1 (endl (HeadLink h2) ys)) (HeadLink h2) ?f1)
    h2 (endl (HeadLink h1) xs)"
  let ?m2 = "if ys = [] then upd_last ?m1 h1 (HeadLink h1) else ?m1"
  let ?m = "if xs = [] then upd_last ?m2 h2 (HeadLink h2) else ?m2"
  have nz: "xs \<noteq> [] \<Longrightarrow> hd xs \<noteq> 0" "ys \<noteq> [] \<Longrightarrow> hd ys \<noteq> 0"
    using assms(1,2) by (cases xs; cases ys; auto simp: stailq_defs)+
  have "STAILQ_SWAP m h1 h2 = Some ?m"
    using p1 p2 assms(3) nz by (simp add: STAILQ_SWAP_def STAILQ_EMPTY_def STAILQ_FIRST_def qexec)
  moreover have "linked False ?m h1 ys"
    by (rule linked_moved [of False m h2]) (use assms p1 p2 in \<open>auto simp: stailq_def qexec\<close>)
  then have "stailq ?m h1 ys"
    using p1 p2 assms(3) by (cases ys) (simp_all add: stailq_def qexec)
  moreover have "linked False ?m h2 xs"
    by (rule linked_moved [of False m h1]) (use assms p1 p2 in \<open>auto simp: stailq_def qexec\<close>)
  then have "stailq ?m h2 xs"
    using p1 p2 assms(3) by (cases xs) (simp_all add: stailq_def qexec)
  ultimately show ?thesis by blast
qed

section \<open>Reading\<close>

lemma stailq_first: "stailq m h xs \<Longrightarrow> STAILQ_FIRST m h = Some (if xs = [] then 0 else hd xs)"
  using stailq_parts(1) [of m h "[]" xs "HeadLink h"] by (simp add: STAILQ_FIRST_def)

lemma stailq_last: "stailq m h xs \<Longrightarrow> STAILQ_LAST m h = Some (if xs = [] then 0 else last xs)"
  using stailq_first [of m h xs]
  by (cases xs rule: rev_cases) (auto simp: STAILQ_LAST_def STAILQ_EMPTY_def stailq_defs hd_append neq_Nil_conv)

lemma stailq_foreach:
  assumes "stailq (mem s) h xs" "\<And>x s. mem (f x s) = mem s"
  shows "STAILQ_FOREACH mem h (\<lambda>x s. Some (f x s, False)) s = Some (0, fold f xs s)"
proof -
  have "steps (STAILQ_NEXT (mem s)) (if xs = [] then 0 else hd xs) xs"
    using assms(1) stailq_first [OF assms(1)] seg_steps [of False "mem s" "HeadLink h" xs]
    by (simp add: stailq_defs STAILQ_NEXT_def [abs_def] STAILQ_FIRST_def)
  then show ?thesis
    unfolding STAILQ_FOREACH_def stailq_first [OF assms(1)] Option.bind.simps(2)
    by (rule walk_steps [of _ _ _ "\<lambda>t. mem t = mem s"]) (simp_all add: assms(2))
qed

lemma stailq_collect: "stailq m h xs \<Longrightarrow> STAILQ_FOREACH fst h collect (m, []) = Some (0, m, xs)"
  using stailq_foreach [of fst "(m, [])" h xs "\<lambda>x s. (fst s, snd s @ [x])"] by (simp add: collect_eq fold_collect)

section \<open>Interfaces\<close>

interpretation sq: linked_queue "\<lambda>m. stailq m h" live "\<lambda>m. STAILQ_FIRST m h" "\<lambda>m. STAILQ_INSERT_TAIL m h"
  "\<lambda>m. STAILQ_REMOVE_HEAD m h" for h
proof
  show "\<And>m x xs. stailq m h (x # xs) \<Longrightarrow> STAILQ_FIRST m h = Some x" by (simp add: stailq_first)
  fix m xs e
  assume "stailq m h xs" "live m e" "e \<notin> set xs"
  then obtain m' where "STAILQ_INSERT_TAIL m h e = Some m'" "stailq m' h (xs @ [e])" "unchanged m m' (insert e (set xs)) {h}"
    using stailq_insert_tail [of m h xs e] live_prev [of m e] by blast
  then show "\<exists>m'. STAILQ_INSERT_TAIL m h e = Some m' \<and> stailq m' h (xs @ [e]) \<and> (\<forall>x. live m' x = live m x)"
    using unchanged_same_live by blast
next
  show "\<And>m x xs. stailq m h (x # xs) \<Longrightarrow>
    \<exists>m'. STAILQ_REMOVE_HEAD m h = Some m' \<and> stailq m' h xs \<and> (\<forall>y. live m' y = live m y)"
    using stailq_remove_head unchanged_same_live by blast
qed

fun sq_step :: "ptr \<Rightarrow> list_op \<Rightarrow> 'a qmem \<Rightarrow> 'a qmem option" where
  "sq_step h (InsertHead e) m = STAILQ_INSERT_HEAD m h e"
| "sq_step h (InsertTail e) m = STAILQ_INSERT_TAIL m h e"
| "sq_step h (InsertAfter p e) m = STAILQ_INSERT_AFTER m h p e"
| "sq_step h (InsertBefore p e) m = None"
| "sq_step h (Remove e) m = STAILQ_REMOVE m h e"

fun sq_supported :: "list_op \<Rightarrow> bool" where
  "sq_supported (InsertBefore p e) = False"
| "sq_supported op = True"

lemma sq_step_refines:
  assumes "stailq m h xs" "sq_supported op" "list_step op xs = Some ys" "live m (node_of op)"
  shows "\<exists>m'. sq_step h op m = Some m' \<and> stailq m' h ys \<and> (\<forall>x. data_at m' x = data_at m x)"
proof (cases op)
  case (InsertHead e)
  then show ?thesis using assms stailq_insert_head [of m h xs e] live_prev [of m e]
    by (auto simp: unchanged_def split: if_splits)
next
  case (InsertTail e)
  then show ?thesis using assms stailq_insert_tail [of m h xs e] live_prev [of m e]
    by (auto simp: unchanged_def split: if_splits)
next
  case (InsertAfter p e)
  then obtain as bs where xs: "xs = as @ p # bs" "p \<notin> set as"
    using assms(3) by (auto split: if_splits dest: split_list_first)
  show ?thesis
    using assms InsertAfter xs stailq_insert_after [of m h as p bs e] live_prev [of m e]
    by (auto simp: unchanged_def insert_at_split split: if_splits)
next
  case (Remove e)
  then obtain as bs where xs: "xs = as @ e # bs" "e \<notin> set as"
    using assms(3) by (auto split: if_splits dest: split_list_first)
  show ?thesis
    using assms Remove xs stailq_remove [of m h as e bs]
    by (auto simp: unchanged_def remove1_append split: if_splits)
qed (use assms(2) in simp)

interpretation sq_ops: list_operations "\<lambda>m. m" "\<lambda>m. stailq m h" sq_supported "sq_step h" for h
  by standard (rule sq_step_refines)

section \<open>Properties\<close>

text \<open>A singly-linked tail queue is first in, first out: any nodes inserted at its tail, one after
  another, come out of its head in the same order, and then the queue is empty.\<close>

theorem stailq_first_in_first_out:
  assumes "get_last m h \<noteq> None" "distinct es" "\<forall>e \<in> set es. live m e"
  shows "\<exists>m0 m1 m2. STAILQ_INIT m h = Some m0 \<and> fold_opt (\<lambda>e m. STAILQ_INSERT_TAIL m h e) es m0 = Some m1 \<and>
    drain (\<lambda>m. STAILQ_FIRST m h) (\<lambda>m. STAILQ_REMOVE_HEAD m h) (length es) m1 = Some (es, m2) \<and>
    STAILQ_EMPTY m2 h = Some True"
proof -
  obtain m0 where m0: "STAILQ_INIT m h = Some m0" "stailq m0 h []" "unchanged m m0 {} {h}"
    using stailq_init [OF assms(1)] by blast
  then have "\<forall>e \<in> set es. live m0 e" using assms(3) by (auto dest: unchanged_same_live)
  from sq.first_in_first_out [OF m0(2) assms(2) this] show ?thesis
    using m0(1) stailq_first by (fastforce simp: STAILQ_EMPTY_def)
qed

definition fresh_nodes :: "nat qmem" where
  "fresh_nodes = \<lparr>qnodes = [10 \<mapsto> \<lparr>q_data = 1, q_next = 99, q_prev = HeadLink 98\<rparr>,
     20 \<mapsto> \<lparr>q_data = 2, q_next = 99, q_prev = HeadLink 98\<rparr>], qheads = [5 \<mapsto> \<lparr>q_first = 97, q_last = NextLink 96\<rparr>]\<rparr>"

theorem stailq_first_in_first_out_witness:
  "\<exists>m0 m1 m2. STAILQ_INIT fresh_nodes 5 = Some m0 \<and>
    fold_opt (\<lambda>e m. STAILQ_INSERT_TAIL m 5 e) [20, 10] m0 = Some m1 \<and>
    drain (\<lambda>m. STAILQ_FIRST m 5) (\<lambda>m. STAILQ_REMOVE_HEAD m 5) (length [20, 10 :: ptr]) m1 = Some ([20, 10], m2)"
proof -
  have "get_last fresh_nodes 5 \<noteq> None" "\<forall>e \<in> set [20, 10]. live fresh_nodes e"
    by (simp_all add: fresh_nodes_def get_last_def live_def data_at_def)
  moreover have "distinct [20, 10 :: ptr]" by simp
  ultimately show ?thesis using stailq_first_in_first_out [of fresh_nodes 5 "[20, 10]"] by blast
qed

end
