(* ===== verification/Linked_List.thy ===== *)
theory Linked_List
  imports Queue_Links
begin

text \<open>
  The LIST family of \<^verbatim>\<open>server/queue.h\<close>: doubly-linked lists whose head is a single pointer (the last
  link of the head record is not used). A node can be taken out, or have a node put in front of it, without
  the head. \<open>dlist m h xs\<close> says that the head at \<open>h\<close> holds the nodes \<open>xs\<close>.
\<close>

section \<open>The macros\<close>

definition LIST_FIRST :: "'a qmem \<Rightarrow> ptr \<Rightarrow> ptr option" where
  "LIST_FIRST m h = load m (HeadLink h)"

definition LIST_NEXT :: "'a qmem \<Rightarrow> ptr \<Rightarrow> ptr option" where
  "LIST_NEXT m elm = load m (NextLink elm)"

definition LIST_EMPTY :: "'a qmem \<Rightarrow> ptr \<Rightarrow> bool option" where
  "LIST_EMPTY m h = map_option (\<lambda>p. p = 0) (LIST_FIRST m h)"

definition LIST_INIT :: "'a qmem \<Rightarrow> ptr \<Rightarrow> 'a qmem option" where
  "LIST_INIT m h = store m (HeadLink h) 0"

partial_function (option) list_last_search :: "'a qmem \<Rightarrow> ptr \<Rightarrow> ptr option" where
  "list_last_search m curelm =
     do { q \<leftarrow> LIST_NEXT m curelm; if q \<noteq> 0 then list_last_search m q else Some curelm }"

text \<open>In the first branch the macro follows the second head after the first one took its value over.\<close>

definition LIST_CONCAT :: "'a qmem \<Rightarrow> ptr \<Rightarrow> ptr \<Rightarrow> 'a qmem option" where
  "LIST_CONCAT m head1 head2 =
     do {
       curelm \<leftarrow> LIST_FIRST m head1;
       f2 \<leftarrow> LIST_FIRST m head2;
       if curelm = 0 then do {
         m \<leftarrow> store m (HeadLink head1) f2;
         if f2 \<noteq> 0 then do {
           f2 \<leftarrow> LIST_FIRST m head2;
           m \<leftarrow> put_prev m f2 (HeadLink head1);
           LIST_INIT m head2
         } else Some m
       }
       else if f2 \<noteq> 0 then do {
         curelm \<leftarrow> list_last_search m curelm;
         m \<leftarrow> store m (NextLink curelm) f2;
         f2 \<leftarrow> LIST_FIRST m head2;
         m \<leftarrow> put_prev m f2 (NextLink curelm);
         LIST_INIT m head2
       } else Some m
     }"

definition LIST_INSERT_AFTER :: "'a qmem \<Rightarrow> ptr \<Rightarrow> ptr \<Rightarrow> 'a qmem option" where
  "LIST_INSERT_AFTER m listelm elm =
     do {
       q \<leftarrow> LIST_NEXT m listelm;
       m \<leftarrow> store m (NextLink elm) q;
       m \<leftarrow> (if q \<noteq> 0 then do { q \<leftarrow> LIST_NEXT m listelm; put_prev m q (NextLink elm) } else Some m);
       m \<leftarrow> store m (NextLink listelm) elm;
       put_prev m elm (NextLink listelm)
     }"

definition LIST_INSERT_BEFORE :: "'a qmem \<Rightarrow> ptr \<Rightarrow> ptr \<Rightarrow> 'a qmem option" where
  "LIST_INSERT_BEFORE m listelm elm =
     do {
       l \<leftarrow> get_prev m listelm;
       m \<leftarrow> put_prev m elm l;
       m \<leftarrow> store m (NextLink elm) listelm;
       l \<leftarrow> get_prev m listelm;
       m \<leftarrow> store m l elm;
       put_prev m listelm (NextLink elm)
     }"

definition LIST_INSERT_HEAD :: "'a qmem \<Rightarrow> ptr \<Rightarrow> ptr \<Rightarrow> 'a qmem option" where
  "LIST_INSERT_HEAD m h elm =
     do {
       first \<leftarrow> LIST_FIRST m h;
       m \<leftarrow> store m (NextLink elm) first;
       m \<leftarrow> (if first \<noteq> 0 then do { first \<leftarrow> LIST_FIRST m h; put_prev m first (NextLink elm) } else Some m);
       m \<leftarrow> store m (HeadLink h) elm;
       put_prev m elm (HeadLink h)
     }"

text \<open>The element whose next field is the previous link; a previous link in another head is not the next
  field of an element.\<close>

definition LIST_PREV :: "'a qmem \<Rightarrow> ptr \<Rightarrow> ptr \<Rightarrow> ptr option" where
  "LIST_PREV m elm h =
     do {
       l \<leftarrow> get_prev m elm;
       if l = HeadLink h then Some 0 else (case l of NextLink x \<Rightarrow> Some x | HeadLink h' \<Rightarrow> None)
     }"

definition LIST_REMOVE :: "'a qmem \<Rightarrow> ptr \<Rightarrow> 'a qmem option" where
  "LIST_REMOVE m elm =
     do {
       q \<leftarrow> LIST_NEXT m elm;
       m \<leftarrow> (if q \<noteq> 0 then do { l \<leftarrow> get_prev m elm; put_prev m q l } else Some m);
       l \<leftarrow> get_prev m elm;
       q \<leftarrow> LIST_NEXT m elm;
       store m l q
     }"

definition LIST_SWAP :: "'a qmem \<Rightarrow> ptr \<Rightarrow> ptr \<Rightarrow> 'a qmem option" where
  "LIST_SWAP m head1 head2 =
     do {
       swap_tmp \<leftarrow> LIST_FIRST m head1;
       f2 \<leftarrow> LIST_FIRST m head2;
       m \<leftarrow> store m (HeadLink head1) f2;
       m \<leftarrow> store m (HeadLink head2) swap_tmp;
       swap_tmp \<leftarrow> LIST_FIRST m head1;
       m \<leftarrow> (if swap_tmp \<noteq> 0 then put_prev m swap_tmp (HeadLink head1) else Some m);
       swap_tmp \<leftarrow> LIST_FIRST m head2;
       if swap_tmp \<noteq> 0 then put_prev m swap_tmp (HeadLink head2) else Some m
     }"

definition LIST_FOREACH where
  "LIST_FOREACH mem h body s = do { var \<leftarrow> LIST_FIRST (mem s) h; walk (\<lambda>s. LIST_NEXT (mem s)) body var s }"

definition LIST_FOREACH_FROM where
  "LIST_FOREACH_FROM mem h body var s =
     do { var \<leftarrow> (if var \<noteq> 0 then Some var else LIST_FIRST (mem s) h); walk (\<lambda>s. LIST_NEXT (mem s)) body var s }"

definition LIST_FOREACH_SAFE where
  "LIST_FOREACH_SAFE mem h body s = do { var \<leftarrow> LIST_FIRST (mem s) h; walk_safe (\<lambda>s. LIST_NEXT (mem s)) body var s }"

definition LIST_FOREACH_FROM_SAFE where
  "LIST_FOREACH_FROM_SAFE mem h body var s =
     do { var \<leftarrow> (if var \<noteq> 0 then Some var else LIST_FIRST (mem s) h); walk_safe (\<lambda>s. LIST_NEXT (mem s)) body var s }"

section \<open>Memory and list\<close>

definition dlist :: "'a qmem \<Rightarrow> ptr \<Rightarrow> ptr list \<Rightarrow> bool" where
  "dlist m h xs \<longleftrightarrow> linked True m h xs"

lemmas dlist_defs = dlist_def linked_def

lemma dlist_parts:
  assumes "dlist m h (as @ bs)" "k = endl (HeadLink h) as"
  shows "load m k = Some (if bs = [] then 0 else hd bs)" "k = HeadLink h \<or> (\<exists>x \<in> set as. k = NextLink x)"
    "bs \<noteq> [] \<Longrightarrow> hd bs \<noteq> 0 \<and> get_prev m (hd bs) = Some k"
  using assms linked_parts [of True m h as bs k] by (simp_all add: dlist_def)

lemma dlist_init:
  assumes "load m (HeadLink h) \<noteq> None"
  shows "\<exists>m'. LIST_INIT m h = Some m' \<and> dlist m' h [] \<and> unchanged m m' {} {h}"
  using assms by (auto simp: LIST_INIT_def dlist_defs unchanged_def qexec)

lemma dlist_insert_head:
  assumes "dlist m h xs" "elm \<noteq> 0" "get_prev m elm \<noteq> None" "elm \<notin> set xs"
  shows "\<exists>m'. LIST_INSERT_HEAD m h elm = Some m' \<and> dlist m' h (elm # xs) \<and> unchanged m m' (insert elm (set xs)) {h}"
proof -
  obtain u v where uv: "get_prev m elm = Some u" "load m (NextLink elm) = Some v"
    using assms(3) node_next [of m elm] by blast
  note parts = dlist_parts(1,3) [of m h "[]" xs "HeadLink h", simplified, OF assms(1)]
  let ?m1 = "upd_link m (NextLink elm) (if xs = [] then 0 else hd xs)"
  let ?m = "upd_prev (upd_link (if xs = [] then ?m1 else upd_prev ?m1 (hd xs) (NextLink elm)) (HeadLink h) elm) elm (HeadLink h)"
  have ne: "xs = [] \<or> elm \<noteq> hd xs" using assms(4) by (cases xs) auto
  have "LIST_INSERT_HEAD m h elm = Some ?m"
    using uv parts ne by (auto simp: LIST_INSERT_HEAD_def LIST_FIRST_def qexec)
  moreover have "linked True ?m h ([] @ elm # xs)"
    by (rule linked_insert [of True m h "[]" xs "HeadLink h"])
      (use uv parts ne assms(1,2,4) in \<open>auto simp: qexec dlist_def\<close>)
  moreover have "unchanged m ?m (insert elm (set xs)) {h}"
    by (auto simp: unchanged_def qexec)
  ultimately show ?thesis by (auto simp: dlist_def)
qed

lemma dlist_insert_after:
  assumes "dlist m h (as @ p # bs)" "elm \<noteq> 0" "get_prev m elm \<noteq> None" "elm \<notin> set (as @ p # bs)"
  shows "\<exists>m'. LIST_INSERT_AFTER m p elm = Some m' \<and> dlist m' h (as @ p # elm # bs) \<and>
    unchanged m m' (insert elm (set (p # bs))) {h}"
proof -
  obtain u v where uv: "get_prev m elm = Some u" "load m (NextLink elm) = Some v"
    using assms(3) node_next [of m elm] by blast
  note parts = dlist_parts(1,3) [of m h "as @ [p]" bs "NextLink p", simplified, OF assms(1)]
  let ?m1 = "upd_link m (NextLink elm) (if bs = [] then 0 else hd bs)"
  let ?m = "upd_prev (upd_link (if bs = [] then ?m1 else upd_prev ?m1 (hd bs) (NextLink elm)) (NextLink p) elm) elm (NextLink p)"
  have ne: "bs = [] \<or> elm \<noteq> hd bs" "elm \<noteq> p" using assms(4) by (cases bs; auto)+
  have "LIST_INSERT_AFTER m p elm = Some ?m"
    using uv parts ne by (auto simp: LIST_INSERT_AFTER_def LIST_NEXT_def qexec)
  moreover have "linked True ?m h ((as @ [p]) @ elm # bs)"
    by (rule linked_insert [of True m h "as @ [p]" bs "NextLink p"])
      (use uv parts ne assms(1,2,4) in \<open>auto simp: qexec dlist_def\<close>)
  moreover have "unchanged m ?m (insert elm (set (p # bs))) {h}"
    by (auto simp: unchanged_def qexec)
  ultimately show ?thesis by (auto simp: dlist_def)
qed

lemma dlist_insert_before:
  assumes "dlist m h (as @ p # bs)" "elm \<noteq> 0" "get_prev m elm \<noteq> None" "elm \<notin> set (as @ p # bs)"
  shows "\<exists>m'. LIST_INSERT_BEFORE m p elm = Some m' \<and> dlist m' h (as @ elm # p # bs) \<and>
    unchanged m m' (insert elm (set (as @ [p]))) {h}"
proof -
  obtain u v where uv: "get_prev m elm = Some u" "load m (NextLink elm) = Some v"
    using assms(3) node_next [of m elm] by blast
  obtain k where k: "k = endl (HeadLink h) as" by simp
  note parts = dlist_parts [OF assms(1) k, simplified]
  let ?m = "upd_prev (upd_link (upd_link (upd_prev m elm k) (NextLink elm) p) k elm) p (NextLink elm)"
  have ne: "elm \<noteq> p" "k \<noteq> NextLink elm" using assms(4) parts(2) by auto
  have "LIST_INSERT_BEFORE m p elm = Some ?m"
    using uv parts ne by (simp add: LIST_INSERT_BEFORE_def qexec)
  moreover have "linked True ?m h (as @ elm # p # bs)"
    by (rule linked_insert [of True m h as "p # bs" k])
      (use uv parts ne assms(1,2,4) k in \<open>auto simp: qexec dlist_def\<close>)
  moreover have "unchanged m ?m (insert elm (set (as @ [p]))) {h}"
    using parts(2) by (auto simp: unchanged_def qexec)
  ultimately show ?thesis by (auto simp: dlist_def)
qed

lemma dlist_remove:
  assumes t: "dlist m h (as @ e # bs)"
  shows "\<exists>m'. LIST_REMOVE m e = Some m' \<and> dlist m' h (as @ bs) \<and> unchanged m m' (set (as @ bs)) {h}"
proof -
  obtain k where k: "k = endl (HeadLink h) as" by simp
  note p1 = dlist_parts [OF t k, simplified]
  note p2 = dlist_parts(1,3) [of m h "as @ [e]" bs "NextLink e", simplified, OF t]
  have l: "linked True m h (as @ e # bs)" using t by (simp add: dlist_def)
  have ke: "k \<noteq> NextLink e" "bs = [] \<or> hd bs \<noteq> e" using p1(2) t by (cases bs; auto simp: dlist_defs)+
  let ?m = "upd_link (if bs = [] then m else upd_prev m (hd bs) k) k (if bs = [] then 0 else hd bs)"
  have "LIST_REMOVE m e = Some ?m"
    using p1 p2 ke by (auto simp: LIST_REMOVE_def LIST_NEXT_def qexec)
  moreover have "linked True ?m h (as @ bs)"
    by (rule linked_remove [OF l k]) (use p1 p2 ke in \<open>auto simp: qexec\<close>)
  moreover have "unchanged m ?m (set (as @ bs)) {h}"
    using p1(2) by (auto simp: unchanged_def qexec)
  ultimately show ?thesis by (auto simp: dlist_def)
qed

lemma dlist_prev:
  assumes "dlist m h (as @ p # bs)"
  shows "LIST_PREV m p h = Some (if as = [] then 0 else last as)"
  using assms by (cases as rule: rev_cases) (auto simp: LIST_PREV_def dlist_defs)

section \<open>Two lists\<close>

lemma list_last_search_finds:
  "seg True m l (xs @ [p]) \<Longrightarrow> load m (NextLink p) = Some 0 \<Longrightarrow> list_last_search m (hd (xs @ [p])) = Some p"
proof (induction xs arbitrary: l)
  case Nil
  then show ?case by (subst list_last_search.simps) (simp add: LIST_NEXT_def)
next
  case (Cons x xs)
  have "load m (NextLink x) = Some (hd (xs @ [p]))" "hd (xs @ [p]) \<noteq> 0"
    using Cons.prems(1) by (cases xs; auto)+
  then show ?case using Cons.IH [of "NextLink x"] Cons.prems
    by (subst list_last_search.simps) (simp add: LIST_NEXT_def)
qed

lemma dlist_concat:
  assumes "dlist m h1 xs" "dlist m h2 ys" "h1 \<noteq> h2" "set xs \<inter> set ys = {}"
  shows "\<exists>m'. LIST_CONCAT m h1 h2 = Some m' \<and> dlist m' h1 (xs @ ys) \<and> dlist m' h2 []"
proof (cases ys)
  case Nil
  then have "LIST_CONCAT m h1 h2 = Some (if xs = [] then upd_link m (HeadLink h1) 0 else m)"
    using assms dlist_parts(1,3) [of m h1 "[]" xs "HeadLink h1"] dlist_parts(1) [of m h2 "[]" ys "HeadLink h2"]
    by (simp add: LIST_CONCAT_def LIST_FIRST_def qexec)
  then show ?thesis using assms Nil by (auto simp: dlist_defs qexec)
next
  case (Cons y ys')
  obtain k where k: "k = endl (HeadLink h1) xs" by simp
  have p1: "load m k = Some 0" "k = HeadLink h1 \<or> (\<exists>x \<in> set xs. k = NextLink x)"
    using dlist_parts(1,2) [of m h1 xs "[]" k] assms(1) k by simp_all
  note f1 = dlist_parts(1,3) [of m h1 "[]" xs "HeadLink h1", simplified, OF assms(1)]
  note p2 = dlist_parts(1,3) [of m h2 "[]" ys "HeadLink h2", simplified, OF assms(2)]
  let ?m = "upd_link (upd_prev (upd_link m k y) y k) (HeadLink h2) 0"
  have ke: "k \<noteq> HeadLink h2" using p1(2) assms(3) by auto
  have "LIST_CONCAT m h1 h2 = Some ?m"
  proof (cases xs rule: rev_cases)
    case Nil
    then show ?thesis using k p2 f1 assms(3) Cons
      by (simp add: LIST_CONCAT_def LIST_FIRST_def LIST_INIT_def qexec)
  next
    case (snoc zs p)
    have "list_last_search m (hd xs) = Some p"
      using assms(1) snoc list_last_search_finds [of m "HeadLink h1" zs p] by (simp add: dlist_defs)
    then show ?thesis using k p1(1) p2 f1 assms(3) Cons snoc
      by (simp add: LIST_CONCAT_def LIST_FIRST_def LIST_INIT_def qexec)
  qed
  moreover have "dlist ?m h2 []"
    using p2 ke by (simp add: dlist_defs qexec)
  moreover have "linked True ?m h1 (xs @ y # ys')"
    by (rule linked_concat [of True m h1 xs h2 y ys' k])
      (use assms Cons k ke p1 p2 in \<open>simp_all add: dlist_def qexec\<close>)
  ultimately show ?thesis using Cons by (auto simp: dlist_def)
qed

lemma dlist_swap:
  assumes "dlist m h1 xs" "dlist m h2 ys" "h1 \<noteq> h2" "set xs \<inter> set ys = {}"
  shows "\<exists>m'. LIST_SWAP m h1 h2 = Some m' \<and> dlist m' h1 ys \<and> dlist m' h2 xs"
proof -
  note p1 = dlist_parts(1,3) [of m h1 "[]" xs "HeadLink h1", simplified, OF assms(1)]
  note p2 = dlist_parts(1,3) [of m h2 "[]" ys "HeadLink h2", simplified, OF assms(2)]
  let ?m1 = "upd_link (upd_link m (HeadLink h1) (if ys = [] then 0 else hd ys)) (HeadLink h2) (if xs = [] then 0 else hd xs)"
  let ?m2 = "if ys = [] then ?m1 else upd_prev ?m1 (hd ys) (HeadLink h1)"
  let ?m = "if xs = [] then ?m2 else upd_prev ?m2 (hd xs) (HeadLink h2)"
  have ne: "xs = [] \<or> ys = [] \<or> hd xs \<noteq> hd ys" using assms(4) hd_in_set by fastforce
  have hx: "\<And>x. x \<in> set xs \<Longrightarrow> (ys \<noteq> [] \<longrightarrow> x \<noteq> hd ys)" using assms(4) by (cases ys) auto
  have hy: "\<And>x. x \<in> set ys \<Longrightarrow> (xs \<noteq> [] \<longrightarrow> x \<noteq> hd xs)" using assms(4) by (cases xs) auto
  have "LIST_SWAP m h1 h2 = Some ?m"
    using p1 p2 assms(3) ne by (auto simp: LIST_SWAP_def LIST_FIRST_def qexec)
  moreover have "linked True ?m h1 ys"
    by (rule linked_moved [of True m h2]) (use assms p1 p2 ne hy in \<open>auto simp: dlist_def qexec\<close>)
  moreover have "linked True ?m h2 xs"
    by (rule linked_moved [of True m h1]) (use assms p1 p2 ne hx in \<open>auto simp: dlist_def qexec\<close>)
  ultimately show ?thesis by (auto simp: dlist_def)
qed

section \<open>Walks\<close>

lemma dlist_first: "dlist m h xs \<Longrightarrow> LIST_FIRST m h = Some (if xs = [] then 0 else hd xs)"
  using dlist_parts(1) [of m h "[]" xs "HeadLink h"] by (simp add: LIST_FIRST_def)

lemma dlist_foreach:
  assumes "dlist (mem s) h xs" "\<And>x s. mem (f x s) = mem s"
  shows "LIST_FOREACH mem h (\<lambda>x s. Some (f x s, False)) s = Some (0, fold f xs s)"
proof -
  have "steps (LIST_NEXT (mem s)) (if xs = [] then 0 else hd xs) xs"
    using assms(1) dlist_first [OF assms(1)] seg_steps [of True "mem s" "HeadLink h" xs]
    by (simp add: dlist_defs LIST_NEXT_def [abs_def] LIST_FIRST_def)
  then show ?thesis
    unfolding LIST_FOREACH_def dlist_first [OF assms(1)] Option.bind.simps(2)
    by (rule walk_steps [of _ _ _ "\<lambda>t. mem t = mem s"]) (simp_all add: assms(2))
qed

lemma dlist_collect: "dlist m h xs \<Longrightarrow> LIST_FOREACH fst h collect (m, []) = Some (0, m, xs)"
  using dlist_foreach [of fst "(m, [])" h xs "\<lambda>x s. (fst s, snd s @ [x])"] by (simp add: collect_eq fold_collect)

section \<open>The interface\<close>

fun dl_step :: "ptr \<Rightarrow> list_op \<Rightarrow> 'a qmem \<Rightarrow> 'a qmem option" where
  "dl_step h (InsertHead e) m = LIST_INSERT_HEAD m h e"
| "dl_step h (InsertTail e) m = None"
| "dl_step h (InsertAfter p e) m = LIST_INSERT_AFTER m p e"
| "dl_step h (InsertBefore p e) m = LIST_INSERT_BEFORE m p e"
| "dl_step h (Remove e) m = LIST_REMOVE m e"

fun dl_supported :: "list_op \<Rightarrow> bool" where
  "dl_supported (InsertTail e) = False"
| "dl_supported op = True"

lemma dl_step_refines:
  assumes "dlist m h xs" "dl_supported op" "list_step op xs = Some ys" "live m (node_of op)"
  shows "\<exists>m'. dl_step h op m = Some m' \<and> dlist m' h ys \<and> (\<forall>x. data_at m' x = data_at m x)"
proof (cases op)
  case (InsertHead e)
  then show ?thesis using assms dlist_insert_head [of m h xs e] live_prev [of m e]
    by (auto simp: unchanged_def split: if_splits)
next
  case (InsertAfter p e)
  then obtain as bs where xs: "xs = as @ p # bs" "p \<notin> set as"
    using assms(3) by (auto split: if_splits dest: split_list_first)
  show ?thesis
    using assms InsertAfter xs dlist_insert_after [of m h as p bs e] live_prev [of m e]
    by (auto simp: unchanged_def insert_at_split split: if_splits)
next
  case (InsertBefore p e)
  then obtain as bs where xs: "xs = as @ p # bs" "p \<notin> set as"
    using assms(3) by (auto split: if_splits dest: split_list_first)
  show ?thesis
    using assms InsertBefore xs dlist_insert_before [of m h as p bs e] live_prev [of m e]
    by (auto simp: unchanged_def insert_at_split split: if_splits)
next
  case (Remove e)
  then obtain as bs where xs: "xs = as @ e # bs" "e \<notin> set as"
    using assms(3) by (auto split: if_splits dest: split_list_first)
  show ?thesis
    using assms Remove xs dlist_remove [of m h as e bs]
    by (auto simp: unchanged_def remove1_append split: if_splits)
qed (use assms(2) in simp)

interpretation dl_ops: list_operations "\<lambda>m. m" "\<lambda>m. dlist m h" dl_supported "dl_step h" for h
  by standard (rule dl_step_refines)

end
