(* ===== verification/Queue_Families.thy ===== *)
theory Queue_Families
  imports Tail_Queue Stail_Queue Linked_List
begin

text \<open>
  What the three families of \<^verbatim>\<open>server/queue.h\<close> have in common: a program that uses only operations all of
  them offer can be moved from one to another.
\<close>

definition run_tailq :: "ptr \<Rightarrow> list_op list \<Rightarrow> 'a qmem \<Rightarrow> 'a qmem option" where
  "run_tailq h ops m = do { m \<leftarrow> TAILQ_INIT m h; fold_opt (tq_step h) ops m }"

definition run_stailq :: "ptr \<Rightarrow> list_op list \<Rightarrow> 'a qmem \<Rightarrow> 'a qmem option" where
  "run_stailq h ops m = do { m \<leftarrow> STAILQ_INIT m h; fold_opt (sq_step h) ops m }"

definition run_dlist :: "ptr \<Rightarrow> list_op list \<Rightarrow> 'a qmem \<Rightarrow> 'a qmem option" where
  "run_dlist h ops m = do { m \<leftarrow> LIST_INIT m h; fold_opt (dl_step h) ops m }"

text \<open>C24. The three families are interchangeable: a sequence of insertions at the head, insertions after
  a node and removals that is legal on lists runs without error with the macros of each family, and
  then the iteration macros of all three visit the same nodes in the same order.\<close>

theorem queue_families_agree:
  assumes "get_last m h \<noteq> None" "fold_opt list_step ops [] = Some ys"
    and "\<forall>op \<in> set ops. sq_supported op \<and> dl_supported op \<and> live m (node_of op)"
  shows "\<exists>m1 m2 m3. run_tailq h ops m = Some m1 \<and> run_stailq h ops m = Some m2 \<and> run_dlist h ops m = Some m3 \<and>
    TAILQ_FOREACH fst h collect (m1, []) = Some (0, m1, ys) \<and>
    STAILQ_FOREACH fst h collect (m2, []) = Some (0, m2, ys) \<and>
    LIST_FOREACH fst h collect (m3, []) = Some (0, m3, ys)"
proof -
  obtain t where t: "TAILQ_INIT m h = Some t" "tailq t h []" "unchanged m t {} {h}"
    using tailq_init [OF assms(1)] by blast
  obtain s where s: "STAILQ_INIT m h = Some s" "stailq s h []" "unchanged m s {} {h}"
    using stailq_init [OF assms(1)] by blast
  obtain l where l: "LIST_INIT m h = Some l" "dlist l h []" "unchanged m l {} {h}"
    using dlist_init [of m h] assms(1) unfolding node_fields by blast
  obtain m1 where m1: "fold_opt (tq_step h) ops t = Some m1" "tailq m1 h ys"
    using tq_ops.run_refines [OF t(2) assms(2)] assms(3) unchanged_same_live [OF t(3)] by blast
  obtain m2 where m2: "fold_opt (sq_step h) ops s = Some m2" "stailq m2 h ys"
    using sq_ops.run_refines [OF s(2) assms(2)] assms(3) unchanged_same_live [OF s(3)] by blast
  obtain m3 where m3: "fold_opt (dl_step h) ops l = Some m3" "dlist m3 h ys"
    using dl_ops.run_refines [OF l(2) assms(2)] assms(3) unchanged_same_live [OF l(3)] by blast
  show ?thesis
    using t(1) s(1) l(1) m1 m2 m3 tailq_collect(1) [OF m1(2)] stailq_collect [OF m2(2)] dlist_collect [OF m3(2)]
    by (simp add: run_tailq_def run_stailq_def run_dlist_def)
qed

theorem queue_families_agree_witness:
  "\<exists>m2 m3. run_stailq 5 [InsertHead 10, InsertAfter 10 20, InsertHead 30, Remove 10] raw_queue = Some m2 \<and>
    run_dlist 5 [InsertHead 10, InsertAfter 10 20, InsertHead 30, Remove 10] raw_queue = Some m3 \<and>
    STAILQ_FOREACH fst 5 collect (m2, []) = Some (0, m2, [30, 20]) \<and>
    LIST_FOREACH fst 5 collect (m3, []) = Some (0, m3, [30, 20])"
proof -
  let ?ops = "[InsertHead 10, InsertAfter 10 20, InsertHead 30, Remove 10]"
  have "get_last raw_queue 5 \<noteq> None" "fold_opt list_step ?ops [] = Some [30, 20]"
    "\<forall>op \<in> set ?ops. sq_supported op \<and> dl_supported op \<and> live raw_queue (node_of op)"
    by (simp_all add: raw_queue_def get_last_def live_def data_at_def)
  from queue_families_agree [OF this] show ?thesis by blast
qed

end
