(* ===== verification/Queue_Debug.thy ===== *)
theory Queue_Debug
  imports Tail_Queue Stail_Queue Linked_List
begin

text \<open>
  The queue macros of \<^verbatim>\<open>server/queue.h\<close> in the configuration with \<open>QUEUE_MACRO_DEBUG\<close> and
  kernel \<open>INVARIANTS\<close>, which the repository does not build: the operations check the links they rely on,
  poison the links of a removed node, and note in every head and node the last two places that changed
  it. A failed check ends the program (\<open>Panic\<close>); \<open>None\<close> is undefined behaviour as elsewhere.
\<close>

section \<open>Checks\<close>

datatype 'b checked = Panic | Fine 'b

definition guarded :: "bool option \<Rightarrow> 'b checked option \<Rightarrow> 'b checked option" where
  "guarded check go = do { ok \<leftarrow> check; if ok then go else Some Panic }"

text \<open>Whether the condition under which the macro panics is false.\<close>

definition QMD_TAILQ_CHECK_HEAD :: "'a qmem \<Rightarrow> ptr \<Rightarrow> bool option" where
  "QMD_TAILQ_CHECK_HEAD m h =
     do {
       empty \<leftarrow> TAILQ_EMPTY m h;
       if empty then Some True
       else do { first \<leftarrow> TAILQ_FIRST m h; l \<leftarrow> get_prev m first; Some (l = HeadLink h) }
     }"

definition QMD_TAILQ_CHECK_TAIL :: "'a qmem \<Rightarrow> ptr \<Rightarrow> bool option" where
  "QMD_TAILQ_CHECK_TAIL m h = do { l \<leftarrow> get_last m h; q \<leftarrow> load m l; Some (q = 0) }"

definition QMD_TAILQ_CHECK_NEXT :: "'a qmem \<Rightarrow> ptr \<Rightarrow> bool option" where
  "QMD_TAILQ_CHECK_NEXT m elm =
     do {
       q \<leftarrow> TAILQ_NEXT m elm;
       if q = 0 then Some True else do { l \<leftarrow> get_prev m q; Some (l = NextLink elm) }
     }"

definition QMD_TAILQ_CHECK_PREV :: "'a qmem \<Rightarrow> ptr \<Rightarrow> bool option" where
  "QMD_TAILQ_CHECK_PREV m elm = do { l \<leftarrow> get_prev m elm; q \<leftarrow> load m l; Some (q = elm) }"

definition QMD_LIST_CHECK_HEAD :: "'a qmem \<Rightarrow> ptr \<Rightarrow> bool option" where
  "QMD_LIST_CHECK_HEAD m h =
     do {
       first \<leftarrow> LIST_FIRST m h;
       if first = 0 then Some True else do { l \<leftarrow> get_prev m first; Some (l = HeadLink h) }
     }"

definition QMD_LIST_CHECK_NEXT :: "'a qmem \<Rightarrow> ptr \<Rightarrow> bool option" where
  "QMD_LIST_CHECK_NEXT m elm =
     do {
       q \<leftarrow> LIST_NEXT m elm;
       if q = 0 then Some True else do { l \<leftarrow> get_prev m q; Some (l = NextLink elm) }
     }"

definition QMD_LIST_CHECK_PREV :: "'a qmem \<Rightarrow> ptr \<Rightarrow> bool option" where
  "QMD_LIST_CHECK_PREV m elm = do { l \<leftarrow> get_prev m elm; q \<leftarrow> load m l; Some (q = elm) }"

section \<open>Poison and traces\<close>

text \<open>\<open>TRASHIT\<close> on the two links of a removed node. The value \<open>(void *)-1\<close> is no node; as a previous link it is
  the next field of that address.\<close>

definition TRASHIT_links :: "'a qmem \<Rightarrow> ptr \<Rightarrow> 'a qmem option" where
  "TRASHIT_links m elm = do { m \<leftarrow> store m (NextLink elm) (- 1); put_prev m elm (NextLink (- 1)) }"

text \<open>The trace in a head or a node. A place is a line and a file name; a file name may be NULL.\<close>

datatype traced = TraceHead ptr | TraceElem ptr

record qm_trace =
  lastline :: nat
  prevline :: nat
  lastfile :: "string option"
  prevfile :: "string option"

record 'a debug_mem =
  qm :: "'a qmem"
  traces :: "traced \<Rightarrow> qm_trace"

definition TRACEBUF_INITIALIZER :: "nat \<times> string \<Rightarrow> qm_trace" where
  "TRACEBUF_INITIALIZER here = \<lparr>lastline = fst here, prevline = 0, lastfile = Some (snd here), prevfile = None\<rparr>"

definition push_trace :: "nat \<times> string \<Rightarrow> qm_trace \<Rightarrow> qm_trace" where
  "push_trace here t =
     \<lparr>lastline = fst here, prevline = lastline t, lastfile = Some (snd here), prevfile = lastfile t\<rparr>"

definition QMD_TRACE_HEAD :: "nat \<times> string \<Rightarrow> ptr \<Rightarrow> 'a debug_mem \<Rightarrow> 'a debug_mem" where
  "QMD_TRACE_HEAD here h D =
     D\<lparr>traces := (traces D)(TraceHead h := push_trace here (traces D (TraceHead h)))\<rparr>"

definition QMD_TRACE_ELEM :: "nat \<times> string \<Rightarrow> ptr \<Rightarrow> 'a debug_mem \<Rightarrow> 'a debug_mem" where
  "QMD_TRACE_ELEM here elm D =
     D\<lparr>traces := (traces D)(TraceElem elm := push_trace here (traces D (TraceElem elm)))\<rparr>"

section \<open>The tail queue macros with debugging\<close>

definition TAILQ_INIT_debug :: "nat \<times> string \<Rightarrow> 'a debug_mem \<Rightarrow> ptr \<Rightarrow> 'a debug_mem checked option" where
  "TAILQ_INIT_debug here D h = do { m \<leftarrow> TAILQ_INIT (qm D) h; Some (Fine (QMD_TRACE_HEAD here h (D\<lparr>qm := m\<rparr>))) }"

definition TAILQ_INSERT_HEAD_debug ::
  "nat \<times> string \<Rightarrow> 'a debug_mem \<Rightarrow> ptr \<Rightarrow> ptr \<Rightarrow> 'a debug_mem checked option" where
  "TAILQ_INSERT_HEAD_debug here D h elm =
     guarded (QMD_TAILQ_CHECK_HEAD (qm D) h) (do {
       m \<leftarrow> TAILQ_INSERT_HEAD (qm D) h elm;
       Some (Fine (QMD_TRACE_ELEM here elm (QMD_TRACE_HEAD here h (D\<lparr>qm := m\<rparr>))))
     })"

definition TAILQ_INSERT_TAIL_debug ::
  "nat \<times> string \<Rightarrow> 'a debug_mem \<Rightarrow> ptr \<Rightarrow> ptr \<Rightarrow> 'a debug_mem checked option" where
  "TAILQ_INSERT_TAIL_debug here D h elm =
     guarded (QMD_TAILQ_CHECK_TAIL (qm D) h) (do {
       m \<leftarrow> TAILQ_INSERT_TAIL (qm D) h elm;
       Some (Fine (QMD_TRACE_ELEM here elm (QMD_TRACE_HEAD here h (D\<lparr>qm := m\<rparr>))))
     })"

definition TAILQ_INSERT_AFTER_debug ::
  "nat \<times> string \<Rightarrow> 'a debug_mem \<Rightarrow> ptr \<Rightarrow> ptr \<Rightarrow> ptr \<Rightarrow> 'a debug_mem checked option" where
  "TAILQ_INSERT_AFTER_debug here D h listelm elm =
     guarded (QMD_TAILQ_CHECK_NEXT (qm D) listelm) (do {
       q \<leftarrow> TAILQ_NEXT (qm D) listelm;
       m \<leftarrow> TAILQ_INSERT_AFTER (qm D) h listelm elm;
       let D = (if q = 0 then QMD_TRACE_HEAD here h (D\<lparr>qm := m\<rparr>) else D\<lparr>qm := m\<rparr>);
       Some (Fine (QMD_TRACE_ELEM here listelm (QMD_TRACE_ELEM here elm D)))
     })"

definition TAILQ_INSERT_BEFORE_debug ::
  "nat \<times> string \<Rightarrow> 'a debug_mem \<Rightarrow> ptr \<Rightarrow> ptr \<Rightarrow> 'a debug_mem checked option" where
  "TAILQ_INSERT_BEFORE_debug here D listelm elm =
     guarded (QMD_TAILQ_CHECK_PREV (qm D) listelm) (do {
       m \<leftarrow> TAILQ_INSERT_BEFORE (qm D) listelm elm;
       Some (Fine (QMD_TRACE_ELEM here listelm (QMD_TRACE_ELEM here elm (D\<lparr>qm := m\<rparr>))))
     })"

definition TAILQ_REMOVE_debug ::
  "nat \<times> string \<Rightarrow> 'a debug_mem \<Rightarrow> ptr \<Rightarrow> ptr \<Rightarrow> 'a debug_mem checked option" where
  "TAILQ_REMOVE_debug here D h elm =
     guarded (QMD_TAILQ_CHECK_NEXT (qm D) elm) (guarded (QMD_TAILQ_CHECK_PREV (qm D) elm) (do {
       q \<leftarrow> TAILQ_NEXT (qm D) elm;
       m \<leftarrow> TAILQ_REMOVE (qm D) h elm;
       m \<leftarrow> TRASHIT_links m elm;
       let D = (if q = 0 then QMD_TRACE_HEAD here h (D\<lparr>qm := m\<rparr>) else D\<lparr>qm := m\<rparr>);
       Some (Fine (QMD_TRACE_ELEM here elm D))
     }))"

definition TAILQ_CONCAT_debug ::
  "nat \<times> string \<Rightarrow> 'a debug_mem \<Rightarrow> ptr \<Rightarrow> ptr \<Rightarrow> 'a debug_mem checked option" where
  "TAILQ_CONCAT_debug here D head1 head2 =
     do {
       empty \<leftarrow> TAILQ_EMPTY (qm D) head2;
       m \<leftarrow> TAILQ_CONCAT (qm D) head1 head2;
       Some (Fine (if empty then D\<lparr>qm := m\<rparr>
         else QMD_TRACE_HEAD here head2 (QMD_TRACE_HEAD here head1 (QMD_TRACE_HEAD here head2 (D\<lparr>qm := m\<rparr>)))))
     }"

section \<open>The list macros with debugging\<close>

text \<open>Lists have no traces.\<close>

definition LIST_INSERT_HEAD_debug :: "'a qmem \<Rightarrow> ptr \<Rightarrow> ptr \<Rightarrow> 'a qmem checked option" where
  "LIST_INSERT_HEAD_debug m h elm =
     guarded (QMD_LIST_CHECK_HEAD m h) (map_option Fine (LIST_INSERT_HEAD m h elm))"

definition LIST_INSERT_AFTER_debug :: "'a qmem \<Rightarrow> ptr \<Rightarrow> ptr \<Rightarrow> 'a qmem checked option" where
  "LIST_INSERT_AFTER_debug m listelm elm =
     guarded (QMD_LIST_CHECK_NEXT m listelm) (map_option Fine (LIST_INSERT_AFTER m listelm elm))"

definition LIST_INSERT_BEFORE_debug :: "'a qmem \<Rightarrow> ptr \<Rightarrow> ptr \<Rightarrow> 'a qmem checked option" where
  "LIST_INSERT_BEFORE_debug m listelm elm =
     guarded (QMD_LIST_CHECK_PREV m listelm) (map_option Fine (LIST_INSERT_BEFORE m listelm elm))"

definition LIST_REMOVE_debug :: "'a qmem \<Rightarrow> ptr \<Rightarrow> 'a qmem checked option" where
  "LIST_REMOVE_debug m elm =
     guarded (QMD_LIST_CHECK_NEXT m elm) (guarded (QMD_LIST_CHECK_PREV m elm) (do {
       m \<leftarrow> LIST_REMOVE m elm;
       m \<leftarrow> TRASHIT_links m elm;
       Some (Fine m)
     }))"

text \<open>Of the singly-linked tail queue only the removal has a debugging part.\<close>

definition STAILQ_REMOVE_debug :: "'a qmem \<Rightarrow> ptr \<Rightarrow> ptr \<Rightarrow> 'a qmem option" where
  "STAILQ_REMOVE_debug m h elm = do { m \<leftarrow> STAILQ_REMOVE m h elm; store m (NextLink elm) (- 1) }"

section \<open>Static initialisers\<close>

text \<open>The four \<open>HEAD_INITIALIZER\<close> macros; the families with one field in the head leave the other alone.\<close>

definition SLIST_HEAD_INITIALIZER :: ptr where
  "SLIST_HEAD_INITIALIZER = 0"

definition STAILQ_HEAD_INITIALIZER :: "ptr \<Rightarrow> qhead" where
  "STAILQ_HEAD_INITIALIZER h = \<lparr>q_first = 0, q_last = HeadLink h\<rparr>"

definition LIST_HEAD_INITIALIZER :: ptr where
  "LIST_HEAD_INITIALIZER = 0"

definition TAILQ_HEAD_INITIALIZER :: "ptr \<Rightarrow> qhead" where
  "TAILQ_HEAD_INITIALIZER h = \<lparr>q_first = 0, q_last = HeadLink h\<rparr>"

text \<open>A head set up by its initialiser is an empty queue.\<close>

lemma initialisers:
  "tailq (m\<lparr>qheads := (qheads m)(h \<mapsto> TAILQ_HEAD_INITIALIZER h)\<rparr>) h []"
  "stailq (m\<lparr>qheads := (qheads m)(h \<mapsto> STAILQ_HEAD_INITIALIZER h)\<rparr>) h []"
  "dlist (m\<lparr>qheads := (qheads m)(h \<mapsto> \<lparr>q_first = LIST_HEAD_INITIALIZER, q_last = l\<rparr>)\<rparr>) h []"
  by (simp_all add: tailq_defs stailq_defs dlist_defs load.simps get_last_def
      TAILQ_HEAD_INITIALIZER_def STAILQ_HEAD_INITIALIZER_def LIST_HEAD_INITIALIZER_def)

section \<open>The checks on well-formed queues\<close>

text \<open>Two changes leave their places, the newer one first.\<close>

lemma last_two_places:
  "push_trace there (push_trace here t) =
    \<lparr>lastline = fst there, prevline = fst here, lastfile = Some (snd there), prevfile = Some (snd here)\<rparr>"
  by (simp add: push_trace_def)

lemma trace_qm [simp]: "qm (QMD_TRACE_HEAD here h D) = qm D" "qm (QMD_TRACE_ELEM here e D) = qm D"
  by (simp_all add: QMD_TRACE_HEAD_def QMD_TRACE_ELEM_def)

lemma tailq_checks:
  assumes "tailq m h xs"
  shows "QMD_TAILQ_CHECK_HEAD m h = Some True" "QMD_TAILQ_CHECK_TAIL m h = Some True"
    "x \<in> set xs \<Longrightarrow> QMD_TAILQ_CHECK_NEXT m x = Some True" "x \<in> set xs \<Longrightarrow> QMD_TAILQ_CHECK_PREV m x = Some True"
proof -
  show "QMD_TAILQ_CHECK_HEAD m h = Some True"
    using tailq_parts(1,4) [of m h "[]" xs "HeadLink h"] assms
    by (simp add: QMD_TAILQ_CHECK_HEAD_def TAILQ_EMPTY_def TAILQ_FIRST_def)
  show "QMD_TAILQ_CHECK_TAIL m h = Some True"
    using tailq_parts(1,2) [of m h xs "[]" "endl (HeadLink h) xs"] assms by (simp add: QMD_TAILQ_CHECK_TAIL_def)
  assume "x \<in> set xs"
  then obtain as bs where xs: "xs = as @ x # bs" by (meson split_list)
  show "QMD_TAILQ_CHECK_NEXT m x = Some True"
    using tailq_parts(1,4) [of m h "as @ [x]" bs "NextLink x"] assms xs
    by (simp add: QMD_TAILQ_CHECK_NEXT_def TAILQ_NEXT_def)
  show "QMD_TAILQ_CHECK_PREV m x = Some True"
    using tailq_parts(1,4) [of m h as "x # bs" "endl (HeadLink h) as"] assms xs
    by (simp add: QMD_TAILQ_CHECK_PREV_def)
qed

lemma dlist_checks:
  assumes "dlist m h xs"
  shows "QMD_LIST_CHECK_HEAD m h = Some True"
    "x \<in> set xs \<Longrightarrow> QMD_LIST_CHECK_NEXT m x = Some True" "x \<in> set xs \<Longrightarrow> QMD_LIST_CHECK_PREV m x = Some True"
proof -
  show "QMD_LIST_CHECK_HEAD m h = Some True"
    using dlist_parts [of m h "[]" xs "HeadLink h"] assms
    by (simp add: QMD_LIST_CHECK_HEAD_def LIST_FIRST_def)
  assume "x \<in> set xs"
  then obtain as bs where xs: "xs = as @ x # bs" by (meson split_list)
  show "QMD_LIST_CHECK_NEXT m x = Some True"
    using dlist_parts [of m h "as @ [x]" bs "NextLink x"] assms xs
    by (simp add: QMD_LIST_CHECK_NEXT_def LIST_NEXT_def)
  show "QMD_LIST_CHECK_PREV m x = Some True"
    using dlist_parts [of m h as "x # bs" "endl (HeadLink h) as"] assms xs
    by (simp add: QMD_LIST_CHECK_PREV_def)
qed

text \<open>What the checks add: a queue whose nodes are chained by their next links, and whose head and
  nodes pass the checks, is well linked backwards too.\<close>

lemma checks_complete:
  assumes "seg False m l xs" "xs \<noteq> [] \<Longrightarrow> get_prev m (hd xs) = Some l"
    and "\<forall>x \<in> set xs. QMD_TAILQ_CHECK_NEXT m x = Some True"
  shows "seg True m l xs"
  using assms
proof (induction xs arbitrary: l)
  case (Cons x xs)
  have "xs \<noteq> [] \<Longrightarrow> get_prev m (hd xs) = Some (NextLink x)"
  proof -
    assume "xs \<noteq> []"
    then obtain y ys where xs: "xs = y # ys" by (cases xs) auto
    then have "load m (NextLink x) = Some y" "y \<noteq> 0" using Cons.prems(1) by auto
    then show "get_prev m (hd xs) = Some (NextLink x)"
      using Cons.prems(3) xs by (auto simp: QMD_TAILQ_CHECK_NEXT_def TAILQ_NEXT_def bind_eq_Some_conv)
  qed
  then show ?case using Cons by simp
qed simp

text \<open>Poisoning a node outside a queue leaves the queue alone.\<close>

lemma trash_outside:
  assumes "get_prev m e \<noteq> None"
  obtains m' where "TRASHIT_links m e = Some m'" "\<And>x. data_at m' x = data_at m x" "\<And>h. get_last m' h = get_last m h"
    "\<And>d h xs. linked d m h xs \<Longrightarrow> e \<notin> set xs \<Longrightarrow> linked d m' h xs"
proof -
  obtain l q where lq: "get_prev m e = Some l" "load m (NextLink e) = Some q" using assms node_next [of m e] by blast
  let ?m = "upd_prev (upd_link m (NextLink e) (- 1)) e (NextLink (- 1))"
  have "TRASHIT_links m e = Some ?m" using lq by (simp add: TRASHIT_links_def qexec)
  moreover have "linked d ?m h xs" if "linked d m h xs" "e \<notin> set xs" for d h xs
  proof -
    have "\<forall>k \<in> set (reads (HeadLink h) xs). k \<noteq> NextLink e" using in_reads [of _ "HeadLink h" xs] that(2) by fastforce
    moreover have "endl (HeadLink h) xs \<noteq> NextLink e" using endl_cases [of "HeadLink h" xs] that(2) by auto
    ultimately show ?thesis
      using that seg_frameI [of d m "HeadLink h" xs ?m] by (auto simp: linked_def qexec)
  qed
  ultimately show thesis by (intro that [of ?m]) (simp_all add: qexec)
qed

section \<open>Any sequence of operations\<close>

text \<open>The run goes on when no check fails.\<close>

definition went_on :: "'b checked option \<Rightarrow> 'b option" where
  "went_on r = do { c \<leftarrow> r; case c of Panic \<Rightarrow> None | Fine x \<Rightarrow> Some x }"

lemma went_on_simps [simp]: "went_on (Some (Fine x)) = Some x" "went_on None = None" "went_on (Some Panic) = None"
  by (simp_all add: went_on_def)

lemma went_on_Some: "went_on r = Some x \<longleftrightarrow> r = Some (Fine x)"
  by (cases r) (auto simp: went_on_def split: checked.splits)

lemma guarded_True [simp]: "guarded (Some True) go = go"
  by (simp add: guarded_def)

fun tq_debug_step :: "(list_op \<Rightarrow> nat \<times> string) \<Rightarrow> ptr \<Rightarrow> list_op \<Rightarrow> 'a debug_mem \<Rightarrow> 'a debug_mem option" where
  "tq_debug_step place h (InsertHead e) D = went_on (TAILQ_INSERT_HEAD_debug (place (InsertHead e)) D h e)"
| "tq_debug_step place h (InsertTail e) D = went_on (TAILQ_INSERT_TAIL_debug (place (InsertTail e)) D h e)"
| "tq_debug_step place h (InsertAfter p e) D = went_on (TAILQ_INSERT_AFTER_debug (place (InsertAfter p e)) D h p e)"
| "tq_debug_step place h (InsertBefore p e) D = went_on (TAILQ_INSERT_BEFORE_debug (place (InsertBefore p e)) D p e)"
| "tq_debug_step place h (Remove e) D = went_on (TAILQ_REMOVE_debug (place (Remove e)) D h e)"

lemma tq_debug_step_refines:
  assumes "tailq (qm D) h xs" "list_step op xs = Some ys" "live (qm D) (node_of op)"
  shows "\<exists>D'. tq_debug_step place h op D = Some D' \<and> tailq (qm D') h ys \<and>
    (\<forall>x. data_at (qm D') x = data_at (qm D) x)"
proof -
  note checks = tailq_checks [OF assms(1)]
  obtain m' where m': "tq_step h op (qm D) = Some m'" "tailq m' h ys" "\<forall>x. data_at m' x = data_at (qm D) x"
    using tq_step_refines [OF assms] by blast
  show ?thesis
  proof (cases op)
    case (InsertHead e)
    then show ?thesis using m' checks(1) by (simp add: TAILQ_INSERT_HEAD_debug_def)
  next
    case (InsertTail e)
    then show ?thesis using m' checks(2) by (simp add: TAILQ_INSERT_TAIL_debug_def)
  next
    case (InsertAfter p e)
    then have p: "p \<in> set xs" using assms(2) by (auto split: if_splits)
    then obtain q where "TAILQ_NEXT (qm D) p = Some q"
      using checks(3) [OF p] by (auto simp: QMD_TAILQ_CHECK_NEXT_def bind_eq_Some_conv)
    then show ?thesis using m' checks(3) [OF p] InsertAfter by (simp add: TAILQ_INSERT_AFTER_debug_def Let_def)
  next
    case (InsertBefore p e)
    then have p: "p \<in> set xs" using assms(2) by (auto split: if_splits)
    then show ?thesis using m' checks(4) [OF p] InsertBefore by (simp add: TAILQ_INSERT_BEFORE_debug_def)
  next
    case (Remove e)
    then have e: "e \<in> set xs" "ys = remove1 e xs" using assms(2) by (auto split: if_splits)
    then have gone: "e \<notin> set ys" using assms(1) by (auto simp: tailq_defs)
    obtain q where "TAILQ_NEXT (qm D) e = Some q"
      using checks(3) [OF e(1)] by (auto simp: QMD_TAILQ_CHECK_NEXT_def bind_eq_Some_conv)
    moreover have "get_prev m' e \<noteq> None"
      using assms(3) m'(3) Remove by (simp add: live_def data_live [symmetric])
    then obtain m2 where "TRASHIT_links m' e = Some m2" "\<And>x. data_at m2 x = data_at m' x" "\<And>h. get_last m2 h = get_last m' h"
      "linked True m' h ys \<Longrightarrow> e \<notin> set ys \<Longrightarrow> linked True m2 h ys"
      by (rule trash_outside) blast
    ultimately show ?thesis
      using m' checks(3,4) [OF e(1)] gone Remove by (simp add: TAILQ_REMOVE_debug_def Let_def tailq_def)
  qed
qed

interpretation tq_debug: list_operations qm "\<lambda>D. tailq (qm D) h" "\<lambda>op. True" "tq_debug_step place h" for h place
  by standard (rule tq_debug_step_refines)

fun dl_debug_step :: "ptr \<Rightarrow> list_op \<Rightarrow> 'a qmem \<Rightarrow> 'a qmem option" where
  "dl_debug_step h (InsertHead e) m = went_on (LIST_INSERT_HEAD_debug m h e)"
| "dl_debug_step h (InsertTail e) m = None"
| "dl_debug_step h (InsertAfter p e) m = went_on (LIST_INSERT_AFTER_debug m p e)"
| "dl_debug_step h (InsertBefore p e) m = went_on (LIST_INSERT_BEFORE_debug m p e)"
| "dl_debug_step h (Remove e) m = went_on (LIST_REMOVE_debug m e)"

lemma dl_debug_step_refines:
  assumes "dlist m h xs" "dl_supported op" "list_step op xs = Some ys" "live m (node_of op)"
  shows "\<exists>m'. dl_debug_step h op m = Some m' \<and> dlist m' h ys \<and> (\<forall>x. data_at m' x = data_at m x)"
proof -
  note checks = dlist_checks [OF assms(1)]
  obtain m' where m': "dl_step h op m = Some m'" "dlist m' h ys" "\<forall>x. data_at m' x = data_at m x"
    using dl_step_refines [OF assms] by blast
  show ?thesis
  proof (cases op)
    case (InsertHead e)
    then show ?thesis using m' checks(1) by (simp add: LIST_INSERT_HEAD_debug_def)
  next
    case (InsertAfter p e)
    then have p: "p \<in> set xs" using assms(3) by (auto split: if_splits)
    then show ?thesis using m' checks(2) [OF p] InsertAfter by (simp add: LIST_INSERT_AFTER_debug_def)
  next
    case (InsertBefore p e)
    then have p: "p \<in> set xs" using assms(3) by (auto split: if_splits)
    then show ?thesis using m' checks(3) [OF p] InsertBefore by (simp add: LIST_INSERT_BEFORE_debug_def)
  next
    case (Remove e)
    then have e: "e \<in> set xs" "ys = remove1 e xs" using assms(3) by (auto split: if_splits)
    then have gone: "e \<notin> set ys" using assms(1) by (auto simp: dlist_defs)
    have "get_prev m' e \<noteq> None"
      using assms(4) m'(3) Remove by (simp add: live_def data_live [symmetric])
    then obtain m2 where "TRASHIT_links m' e = Some m2" "\<And>x. data_at m2 x = data_at m' x"
      "linked True m' h ys \<Longrightarrow> e \<notin> set ys \<Longrightarrow> linked True m2 h ys"
      by (rule trash_outside) blast
    then show ?thesis
      using m' checks(2,3) [OF e(1)] gone Remove by (simp add: LIST_REMOVE_debug_def dlist_def)
  qed (use assms(2) in simp)
qed

interpretation dl_debug: list_operations "\<lambda>m. m" "\<lambda>m. dlist m h" dl_supported "dl_debug_step h" for h
  by standard (rule dl_debug_step_refines)

section \<open>Property\<close>

text \<open>C25. Debugging changes nothing for correct programs. A sequence of operations that is legal on lists
  runs with the checking, poisoning and tracing tail queue macros from start to end, no check ever panics, and
  the queue is then the one the list says, forwards and backwards; the list macros with checks do the same
  for the operations they offer.\<close>

theorem debugging_never_panics:
  assumes "get_last (qm D) h \<noteq> None" "fold_opt list_step ops [] = Some ys" "\<forall>op \<in> set ops. live (qm D) (node_of op)"
  shows "(\<exists>D0 D'. TAILQ_INIT_debug here D h = Some (Fine D0) \<and> fold_opt (tq_debug_step place h) ops D0 = Some D' \<and>
      TAILQ_FOREACH fst h collect (qm D', []) = Some (0, qm D', ys) \<and>
      TAILQ_FOREACH_REVERSE fst h collect (qm D', []) = Some (0, qm D', rev ys)) \<and>
    ((\<forall>op \<in> set ops. dl_supported op) \<longrightarrow>
      (\<exists>m0 m'. LIST_INIT (qm D) h = Some m0 \<and> fold_opt (dl_debug_step h) ops m0 = Some m' \<and>
        LIST_FOREACH fst h collect (m', []) = Some (0, m', ys)))"
proof (intro conjI impI)
  obtain m0 where m0: "TAILQ_INIT (qm D) h = Some m0" "tailq m0 h []" "unchanged (qm D) m0 {} {h}"
    using tailq_init [OF assms(1)] by blast
  let ?D0 = "QMD_TRACE_HEAD here h (D\<lparr>qm := m0\<rparr>)"
  have "\<forall>op \<in> set ops. live (qm ?D0) (node_of op)" using assms(3) unchanged_same_live [OF m0(3)] by simp
  then obtain D' where "fold_opt (tq_debug_step place h) ops ?D0 = Some D'" "tailq (qm D') h ys"
    using tq_debug.run_refines [of ?D0 h "[]" ops ys place] m0(2) assms(2) by auto
  then show "\<exists>D0 D'. TAILQ_INIT_debug here D h = Some (Fine D0) \<and> fold_opt (tq_debug_step place h) ops D0 = Some D' \<and>
      TAILQ_FOREACH fst h collect (qm D', []) = Some (0, qm D', ys) \<and>
      TAILQ_FOREACH_REVERSE fst h collect (qm D', []) = Some (0, qm D', rev ys)"
    using m0(1) tailq_collect by (simp add: TAILQ_INIT_debug_def) blast
next
  assume sup: "\<forall>op \<in> set ops. dl_supported op"
  obtain l where l: "LIST_INIT (qm D) h = Some l" "dlist l h []" "unchanged (qm D) l {} {h}"
    using dlist_init [of "qm D" h] assms(1) unfolding node_fields by blast
  have "\<forall>op \<in> set ops. dl_supported op \<and> live l (node_of op)" using sup assms(3) unchanged_same_live [OF l(3)] by simp
  then obtain m' where "fold_opt (dl_debug_step h) ops l = Some m'" "dlist m' h ys"
    using dl_debug.run_refines [OF l(2) assms(2)] by auto
  then show "\<exists>m0 m'. LIST_INIT (qm D) h = Some m0 \<and> fold_opt (dl_debug_step h) ops m0 = Some m' \<and>
      LIST_FOREACH fst h collect (m', []) = Some (0, m', ys)"
    using l(1) dlist_collect by blast
qed

theorem debugging_never_panics_witness:
  "\<exists>D0 D'. TAILQ_INIT_debug (7, ''a.c'') \<lparr>qm = raw_queue, traces = (\<lambda>t. TRACEBUF_INITIALIZER (1, ''a.c''))\<rparr> 5 = Some (Fine D0) \<and>
    fold_opt (tq_debug_step (\<lambda>op. (8, ''a.c'')) 5) [InsertTail 10, InsertHead 20, InsertBefore 10 30, Remove 20] D0 = Some D' \<and>
    TAILQ_FOREACH_REVERSE fst 5 collect (qm D', []) = Some (0, qm D', [10, 30])"
proof -
  let ?D = "\<lparr>qm = raw_queue, traces = (\<lambda>t. TRACEBUF_INITIALIZER (1, ''a.c''))\<rparr>"
  let ?ops = "[InsertTail 10, InsertHead 20, InsertBefore 10 30, Remove 20]"
  have facts: "get_last (qm ?D) 5 \<noteq> None" "\<forall>op \<in> set ?ops. live (qm ?D) (node_of op)"
    by (simp_all add: raw_queue_def get_last_def live_def data_at_def)
  have run: "fold_opt list_step ?ops [] = Some [30, 10]" by simp
  note * = debugging_never_panics [OF facts(1) run facts(2), of "(7, ''a.c'')" "\<lambda>op. (8, ''a.c'')"]
  show ?thesis using * [THEN conjunct1] by (simp only: rev.simps append.simps) blast
qed

end
