(* ===== verification/Autotest.thy ===== *)
theory Autotest
  imports Aesd_Prelude
begin

text \<open>
  The functions the automated tests of the course call first (\<^verbatim>\<open>examples/autotest-validate\<close>), the small
  program that prints two of them and the unit test of the third (\<^verbatim>\<open>student-test/assignment1\<close>).
\<close>

definition this_function_returns_true :: bool where
  "this_function_returns_true = True"

definition this_function_returns_false :: bool where
  "this_function_returns_false = False"

text \<open>The user name; it has to be the one in \<^verbatim>\<open>conf/username.txt\<close>.\<close>

definition my_username :: string where
  "my_username = ''sane5805''"

text \<open>The unit test that compares them; the reader of the configuration file is not in the repository, its
  result is the argument.\<close>

definition test_validate_my_username :: "string \<Rightarrow> bool" where
  "test_validate_my_username user_name_from_config = (my_username = user_name_from_config)"

text \<open>What the program writes to its standard output.\<close>

definition autotest_main :: "string list" where
  "autotest_main =
     [''this_function_returns_true returned '' @ (if this_function_returns_true then ''true'' else ''false''),
      ''this_function_returns_false returned '' @ (if this_function_returns_false then ''true'' else ''false'')]"

lemma autotest_output:
  "autotest_main = [''this_function_returns_true returned true'', ''this_function_returns_false returned false'']"
  by (simp add: autotest_main_def this_function_returns_true_def this_function_returns_false_def)

end
