(* ===== verification/Spec2Isabelle.thy ===== *)
theory Spec2Isabelle
  imports Driver_Preemption Whole_Server Server_File Systemcalls Threading Writer Queue_Families Queue_Debug Autotest
begin

text \<open>
  A verification development for the AESD assignment repository: a Linux character device that keeps
  the last ten newline-terminated commands written to it, a socket server that stands in front of
  that device, and the user-space exercises of the course.

  \<^bold>\<open>The parts and how they interact.\<close> The driver (\<^verbatim>\<open>aesd-char-driver/main.c\<close>) collects the bytes
  of \<open>aesd_write\<close> in one kernel block until a newline arrives and then puts the block into a ring of ten
  entries (\<^verbatim>\<open>aesd-circular-buffer.c\<close>); the entry this pushes out is freed. \<open>aesd_read\<close>,
  \<open>aesd_llseek\<close> and the seek \<open>ioctl\<close> work on the concatenation of the entries. The server
  (\<^verbatim>\<open>server/aesdsocket.c\<close>) starts a thread for every connection, keeps the connections in a singly-linked
  list (\<^verbatim>\<open>server/queue.h\<close>), writes the packet of a client to the device or turns it into a seek, and
  sends back what the device then delivers. The exercises (\<^verbatim>\<open>examples/systemcalls\<close>,
  \<^verbatim>\<open>examples/threading\<close>, \<^verbatim>\<open>finder-app/writer.c\<close>) stand alone.

  \<^bold>\<open>Conventions.\<close> \<open>None\<close> as the result of a computation is undefined behaviour of the C code (a bad
  access, a second \<open>free\<close>, an overflow of \<open>int\<close>, a loop that does not end); errors the code reports are
  ordinary values. Machine integers are words, pointers are 64-bit words with 0 for NULL, memory is a
  partial map from addresses to blocks. Kernel services, system calls and C library calls whose code is
  not in the repository are fields of an environment record (\<open>kenv\<close>, \<open>chrdev_env\<close>, \<open>thread_env\<close>,
  \<open>step_env\<close>, \<open>file_env\<close>, \<open>setup_env\<close>, \<open>accept_env\<close>, \<open>exec_env\<close>, \<open>stdio_env\<close>); what the code relies on is a named predicate
  on it (\<open>kernel_ok\<close>, \<open>env_ok\<close>, \<open>execv_ok\<close>, \<open>stdio_ok\<close>, ...), shown satisfiable by a concrete
  environment in the witnesses.

  \<^bold>\<open>Theories and code.\<close>
  \<^item> \<open>Aesd_Prelude\<close>: machine types, checked array access, word and list lemmas, folds that can fail.
  \<^item> \<open>Circular_Buffer\<close>: \<^verbatim>\<open>aesd-circular-buffer.c/.h\<close>, every function and the iteration macro. Locales
    \<open>bounded_fifo\<close> and \<open>searchable_fifo\<close> are the contract; \<open>ring\<close> interprets them on the code's
    ring. The model is shown to refine a list that keeps its newest ten elements, and the search to find
    the byte of the concatenation (except for entries of 4 GiB and more).
  \<^item> \<open>Kernel_Env\<close>, \<open>Char_Driver\<close>: the kernel services and the file operations of \<^verbatim>\<open>main.c\<close>, with the debug
    messages that dereference their arguments. \<open>Driver_Safety\<close>: the memory invariant, the abstract view
    (stored commands, collected bytes) and the abstract write. \<open>Driver_Write\<close>, \<open>Driver_Read\<close>,
    \<open>Driver_Seek\<close>: safety, refinement and error behaviour of each operation. \<open>Driver_Module\<close>: loading and
    unloading. \<open>Driver_Runs\<close>: arbitrary interleavings of calls by many processes, where a seek to command ten
    (\<open>reads_past_slots\<close>) is the one call that is undefined, and the end-to-end statement on written and
    read streams. \<open>Driver_Preemption\<close>: the same calls cut where the kernel may switch
    to another process (\<open>preempted\<close>), and the simulation that makes them atomic again, which is why the other
    theories take a call as one step.
  \<^item> \<open>Slist\<close>: the SLIST family of \<^verbatim>\<open>queue.h\<close> on nodes in memory. The locale \<open>node_list\<close> is what the server
    needs of a list; \<open>sl\<close> interprets it on the macros. \<open>Queue_Links\<close>, \<open>Tail_Queue\<close>, \<open>Stail_Queue\<close>,
    \<open>Linked_List\<close>: the other three families, over a common memory of heads and nodes joined by links;
    one lemma each for putting a node between two parts of a list, taking it out, joining and moving lists
    carries all of them. The locales \<open>linked_queue\<close> (a queue) and \<open>list_operations\<close> (any sequence
    of operations) are interpreted by each family that offers the operations; \<open>Queue_Families\<close> compares
    them. \<open>Queue_Debug\<close>: the same macros with \<open>QUEUE_MACRO_DEBUG\<close> and kernel \<open>INVARIANTS\<close>: checks, poisoned
    links and traces, and the static initialisers; the locale \<open>list_operations\<close> is interpreted on them too.
  \<^item> \<open>C_Strings\<close>: the string functions of the C library the server uses, on blocks with
    indeterminate bytes. \<open>Socket_Thread\<close>: \<open>thread_func\<close> over any device; the locale \<open>chunk_source\<close> is
    what its reply loop needs of one. \<open>Server_Device\<close>: the modelled driver as that device
    (interpretation \<open>driver\<close>) and the properties of a whole connection.
  \<^item> \<open>Thread_Steps\<close>: the same thread one system call at a time; left alone its steps add up to
    \<open>thread_func\<close>. \<open>Server_Concurrent\<close>: any number of such threads over one driver in every interleaving
    (\<open>serving\<close>), with the history of the writes and of what each client was sent, and the invariant that
    ties them together. \<open>Concurrent_Clients\<close>: what follows for the clients.
  \<^item> \<open>Timestamp\<close>: what the timer prints. \<open>Server_File\<close>: the configuration without
    \<open>USE_AESD_CHAR_DEVICE\<close>, in which connections and the timer append to a plain file under a mutex
    (\<open>running\<close>); a write may be short, and the history has each record with the part of it that was written.
    The timer thread is part of the state: a pass of the main thread starts it (\<open>start_timer\<close>), and
    \<open>exit_safely\<close> waits until it is behind its loop.
  \<^item> \<open>Socket_Server\<close>: start-up, accept loop with reaping, signal handler, \<open>daemonize\<close>.
    \<open>Whole_Server\<close>: main thread, connection threads and driver in one relation (\<open>operating\<close>), with the node
    each thread works on. The main thread registers a connection in one step and searches its list one node per
    step (\<open>search_step\<close>), with the other threads moving in between; no thread uses a freed node, and the main
    thread joins and frees only threads that have ended.
  \<^item> \<open>Systemcalls\<close>, \<open>Threading\<close>, \<open>Writer\<close>: the exercises. \<open>Threading\<close> is a step relation over any number
    of interleaved threads.
  \<^item> \<open>Autotest\<close>: the constants returned to the test framework.

  \<^bold>\<open>Loops and bounds.\<close> Loops over the ring are bounded by its ten slots and proved to return. The list
  macros and the reply loop may run forever in C and are partial functions; the theorems state that
  they return. The receive and accept loops take one element of a list of answers per pass and wait
  when it is used up; the search of the accept loop ends because every step leaves one node fewer before it. \<open>read_to_end\<close> takes fuel; one unit per byte of content and one more is enough, and
  the theorem assumes just that. A call of the driver takes at most five steps of its own besides
  waiting for the mutex, a thread of the threading exercise at most four.

  \<^bold>\<open>Not modelled.\<close> The variants of the queue declarations for C++ classes (they differ in a
  keyword), log and debug output other than the dereferences in it, shell scripts and build files.
  Processes that share one open file are not preempted inside a call: each process of \<open>preempted\<close> has its own
  file, as the server's threads do.
  The server's threads interleave between system calls; the two variables they share without a lock
  (\<open>data_count\<close>, and \<open>thread_complete\<close> read by the accept loop) are data races in C and are treated as
  if each access were atomic. A failing \<open>pthread_create\<close> is in \<open>accept_step\<close>, which also takes the search as
  one step (the flags as they are when it begins); in \<open>operating\<close> every connection gets a thread.
\<close>

end
